(* ===== verification/Prelude.thy ===== *)
theory Prelude
  imports Main "HOL-Library.Monad_Syntax"
begin

section \<open>Shared vocabulary: C arrays, block moves, list facts\<close>

text \<open>
  A C array is a list whose length is the array's capacity. Every read and write
  checks its index: an access outside the capacity, which C leaves undefined, is
  the value \<^term>\<open>None\<close>. C's \<open>int\<close> and \<open>off_t\<close> are \<^typ>\<open>int\<close> (no arithmetic of
  the modelled files leaves their range); an operation that can abort (a failed
  \<open>assert\<close>, a null dereference, an access outside an array) returns an option.
  The collections \<open>c_simps\<close> and \<open>blit_simps\<close> carry the component proofs.
\<close>

named_theorems c_simps \<open>evaluation of checked array accesses at natural indices\<close>
named_theorems blit_simps \<open>lengths and elements of block moves\<close>

subsection \<open>Checked element access\<close>

definition aget :: "'a list \<Rightarrow> int \<Rightarrow> 'a option" where
  "aget xs i = (if 0 \<le> i \<and> i < int (length xs) then Some (xs ! nat i) else None)"

definition aset :: "'a list \<Rightarrow> int \<Rightarrow> 'a \<Rightarrow> 'a list option" where
  "aset xs i v = (if 0 \<le> i \<and> i < int (length xs) then Some (xs[nat i := v]) else None)"

lemma aget_int [c_simps]: "aget xs (int k) = (if k < length xs then Some (xs ! k) else None)"
  by (simp add: aget_def)

lemma aset_int [c_simps]: "aset xs (int k) v = (if k < length xs then Some (xs[k := v]) else None)"
  by (simp add: aset_def)

lemma aget_Some_iff: "aget xs i = Some v \<longleftrightarrow> 0 \<le> i \<and> i < int (length xs) \<and> v = xs ! nat i"
  by (auto simp: aget_def)

subsection \<open>memmove\<close>

text \<open>
  \<open>blit dst di src si n\<close> is \<open>dst\<close> with its cells \<open>di..di+n-1\<close> replaced by the cells
  \<open>si..si+n-1\<close> of \<open>src\<close>. The source is read before the destination is written, so
  moving inside one array (\<open>dst = src\<close>) is what \<open>memmove\<close> does on overlapping blocks.
\<close>

definition blit :: "'a list \<Rightarrow> nat \<Rightarrow> 'a list \<Rightarrow> nat \<Rightarrow> nat \<Rightarrow> 'a list" where
  "blit dst di src si n = take di dst @ take n (drop si src) @ drop (di + n) dst"

definition memmove :: "'a list \<Rightarrow> int \<Rightarrow> 'a list \<Rightarrow> int \<Rightarrow> int \<Rightarrow> 'a list option" where
  "memmove dst di src si n =
     (if 0 \<le> n \<and> 0 \<le> di \<and> di + n \<le> int (length dst) \<and> 0 \<le> si \<and> si + n \<le> int (length src)
      then Some (blit dst (nat di) src (nat si) (nat n)) else None)"

lemma memmove_int [c_simps]:
  "memmove dst (int di) src (int si) (int n) =
     (if di + n \<le> length dst \<and> si + n \<le> length src then Some (blit dst di src si n) else None)"
  by (auto simp: memmove_def)

lemma length_blit [blit_simps]:
  "di + n \<le> length dst \<Longrightarrow> si + n \<le> length src \<Longrightarrow> length (blit dst di src si n) = length dst"
  by (simp add: blit_def)

lemma nth_blit [blit_simps]:
  "di + n \<le> length dst \<Longrightarrow> si + n \<le> length src \<Longrightarrow> i < length dst \<Longrightarrow>
   blit dst di src si n ! i = (if di \<le> i \<and> i < di + n then src ! (si + i - di) else dst ! i)"
  by (auto simp: blit_def nth_append)

lemma blit_0 [simp]: "blit dst di src si 0 = dst"
  by (simp add: blit_def)

lemma take_blit_0:
  "n \<le> length dst \<Longrightarrow> si + n \<le> length src \<Longrightarrow> take n (blit dst 0 src si n) = take n (drop si src)"
  by (simp add: blit_def)

subsection \<open>Loops that may abort\<close>

text \<open>A \<open>for\<close> loop over a fixed list of values whose body may abort.\<close>

primrec foldM :: "('s \<Rightarrow> 'a \<Rightarrow> 's option) \<Rightarrow> 's \<Rightarrow> 'a list \<Rightarrow> 's option" where
  "foldM f s [] = Some s"
| "foldM f s (x # xs) = do { s \<leftarrow> f s x; foldM f s xs }"

lemma foldM_append: "foldM f s (xs @ ys) = foldM f s xs \<bind> (\<lambda>s. foldM f s ys)"
  by (induction xs arbitrary: s) auto

lemma foldM_Some:
  "(\<And>s x. x \<in> set xs \<Longrightarrow> f s x = Some (g s x)) \<Longrightarrow> foldM f s xs = Some (foldl g s xs)"
  by (induction xs arbitrary: s) auto

lemma foldM_cong [cong]:
  "xs = ys \<Longrightarrow> (\<And>s x. x \<in> set ys \<Longrightarrow> f s x = g s x) \<Longrightarrow> foldM f s xs = foldM g s ys"
  by (induction xs arbitrary: ys s) (auto intro!: arg_cong2 [where f = Option.bind])

lemma foldM_map: "foldM f s (map g xs) = foldM (\<lambda>s x. f s (g x)) s xs"
  by (induction xs arbitrary: s) auto

lemma neg_upto: "[- int n..- 1] = map (\<lambda>i. int i - int n) [0..<n]"
  by (rule nth_equalityI) auto

lemma aget_take: "len \<le> length data \<Longrightarrow> i < int len \<Longrightarrow> aget (take len data) i = aget data i"
  by (auto simp: aget_def)

lemma foldM_total:
  assumes "\<And>s x. x \<in> set xs \<Longrightarrow> \<exists>s'. f s x = Some s'"
  shows "\<exists>s'. foldM f s xs = Some s'"
  using assms
proof (induction xs arbitrary: s)
  case (Cons x xs)
  then obtain s' where "f s x = Some s'" by (meson list.set_intros(1))
  with Cons show ?case by simp
qed simp

lemma bind_total: "\<exists>x. m = Some x \<Longrightarrow> (\<And>x. \<exists>y. f x = Some y) \<Longrightarrow> \<exists>y. m \<bind> f = Some y"
  by auto

subsection \<open>64-bit unsigned arithmetic on numbers\<close>

definition add64 :: "nat \<Rightarrow> nat \<Rightarrow> nat" where
  "add64 a b = (a + b) mod 2 ^ 64"

definition sub64 :: "nat \<Rightarrow> nat \<Rightarrow> nat" where
  "sub64 a b = (if b \<le> a then a - b else (a + 2 ^ 64 - b) mod 2 ^ 64)"

definition mul64 :: "nat \<Rightarrow> nat \<Rightarrow> nat" where
  "mul64 a b = a * b mod 2 ^ 64"

definition sum64 :: "nat list \<Rightarrow> nat" where
  "sum64 xs = foldl add64 0 xs"

lemma sum64_mod: "sum64 xs = sum_list xs mod 2 ^ 64"
proof -
  have "foldl add64 (a mod 2 ^ 64) xs = (a + sum_list xs) mod 2 ^ 64" for a
  proof (induction xs arbitrary: a)
    case (Cons x xs)
    have "add64 (a mod 2 ^ 64) x = (a + x) mod 2 ^ 64" by (simp add: add64_def mod_add_left_eq)
    then show ?case using Cons [of "a + x"] by (simp add: add.assoc)
  qed simp
  from this [of 0] show ?thesis by (simp add: sum64_def)
qed

lemma sum64_Nil [simp]: "sum64 [] = 0"
  by (simp add: sum64_def)

lemma sum64_exact: "sum_list xs < 2 ^ 64 \<Longrightarrow> sum64 xs = sum_list xs"
  by (simp add: sum64_mod)

lemma mul64_exact: "a * b < 2 ^ 64 \<Longrightarrow> mul64 a b = a * b"
  by (simp add: mul64_def)

lemma add64_exact: "a + b < 2 ^ 64 \<Longrightarrow> add64 a b = a + b"
  by (simp add: add64_def)

end
