(* ===== verification/BPlus_Node.thy ===== *)
theory BPlus_Node
  imports Prelude
begin

section \<open>B+ tree nodes, node caches and the index file\<close>

text \<open>
  The data model of \<open>bplustree/lib/bplustree.c\<close>: the node of one disk block, the tree
  handle with its five cache slots, and the operations that move nodes between the
  slots and the file (\<open>cache_refer\<close> to \<open>sub_node_flush\<close>).

  A \<open>struct bplus_node *\<close> is the number of the cache slot it points into; \<open>NULL\<close> is
  \<^term>\<open>None\<close>. The file is a map from block offsets to the node last written there: all
  offsets in use are multiples of the block size, so blocks never overlap. \<open>pread\<close> of a
  block that was never written fails the length assertion; a \<open>pwrite\<close> succeeds. Every
  failed assertion, null dereference and access outside a node's arrays is \<^term>\<open>None\<close>.
\<close>

subsection \<open>Constants and records\<close>

definition INVALID_OFFSET :: int where
  "INVALID_OFFSET = 0xdeadbeef"

definition BPLUS_TREE_LEAF :: int where
  "BPLUS_TREE_LEAF = 0"

definition BPLUS_TREE_NON_LEAF :: int where
  "BPLUS_TREE_NON_LEAF = 1"

definition MIN_CACHE_NUM :: nat where
  "MIN_CACHE_NUM = 5"

text \<open>
  A node: the header fields of \<open>struct bplus_node\<close> and the arrays that the macros
  \<open>key\<close>, \<open>sub\<close> and \<open>data\<close> place behind it. A leaf has \<open>_max_entries\<close> keys and data
  words; an inner node has \<open>_max_order - 1\<close> keys and \<open>_max_order\<close> sub-node offsets.
\<close>

record bplus_node =
  self :: int
  parent :: int
  prev :: int
  nxt :: int
  ntype :: int
  children :: int
  keys :: "int list"
  subs :: "int list"
  datas :: "int list"

text \<open>
  The tree handle. The file-scope variables \<open>_block_size\<close>, \<open>_max_entries\<close> and
  \<open>_max_order\<close> are carried in it; \<open>free_blocks\<close> is the circular list in order from its
  first entry. \<open>fill\<close> is the value read from a cell of a node that was never written.
\<close>

record bplus_tree =
  caches :: "bplus_node list"
  used :: "bool list"
  filename :: string
  disk :: "int \<rightharpoonup> bplus_node"
  level :: int
  root :: int
  file_size :: int
  free_blocks :: "int list"
  block_size :: int
  max_entries :: int
  max_order :: int
  fill :: int

definition is_leaf :: "bplus_node \<Rightarrow> bool" where
  "is_leaf n \<longleftrightarrow> ntype n = BPLUS_TREE_LEAF"

subsection \<open>Binary search in a node\<close>

function key_search_loop :: "int list \<Rightarrow> int \<Rightarrow> int \<Rightarrow> int \<Rightarrow> int option" where
  "key_search_loop arr target low high =
     (if low + 1 < high then
        let mid = low + (high - low) div 2
        in case aget arr mid of
             None \<Rightarrow> None
           | Some a \<Rightarrow> if target > a then key_search_loop arr target mid high
                       else key_search_loop arr target low mid
      else Some high)"
  by pat_completeness auto
termination
  by (relation "measure (\<lambda>(arr, target, low, high). nat (high - low))") auto

declare key_search_loop.simps [simp del]

definition key_binary_search :: "bplus_node \<Rightarrow> int \<Rightarrow> int option" where
  "key_binary_search node target = do {
     let arr = keys node;
     let len = (if is_leaf node then children node else children node - 1);
     high \<leftarrow> key_search_loop arr target (- 1) len;
     if high \<ge> len then Some (- high - 1)
     else do {
       a \<leftarrow> aget arr high;
       if a \<noteq> target then Some (- high - 1) else Some high
     }
   }"

definition parent_key_index :: "bplus_node \<Rightarrow> int \<Rightarrow> int option" where
  "parent_key_index pnode key = do {
     index \<leftarrow> key_binary_search pnode key;
     Some (if index \<ge> 0 then index else - index - 2)
   }"

subsection \<open>Cache slots\<close>

definition nd :: "bplus_tree \<Rightarrow> nat \<Rightarrow> bplus_node" where
  "nd t p = caches t ! p"

definition upd :: "bplus_tree \<Rightarrow> nat \<Rightarrow> (bplus_node \<Rightarrow> bplus_node) \<Rightarrow> bplus_tree" where
  "upd t p f = t\<lparr>caches := (caches t)[p := f (nd t p)]\<rparr>"

definition free_slot :: "bplus_tree \<Rightarrow> nat option" where
  "free_slot t = find (\<lambda>i. \<not> used t ! i) [0..<MIN_CACHE_NUM]"

definition cache_refer :: "bplus_tree \<Rightarrow> (nat \<times> bplus_tree) option" where
  "cache_refer t = do {
     i \<leftarrow> free_slot t;
     Some (i, t\<lparr>used := (used t)[i := True]\<rparr>)
   }"

definition cache_defer :: "bplus_tree \<Rightarrow> nat \<Rightarrow> bplus_tree" where
  "cache_defer t node = t\<lparr>used := (used t)[node := False]\<rparr>"

definition node_new :: "bplus_tree \<Rightarrow> (nat \<times> bplus_tree) option" where
  "node_new t = do {
     (node, t) \<leftarrow> cache_refer t;
     Some (node, upd t node (\<lambda>n. n\<lparr>self := INVALID_OFFSET, parent := INVALID_OFFSET,
       prev := INVALID_OFFSET, nxt := INVALID_OFFSET, children := 0\<rparr>))
   }"

definition non_leaf_new :: "bplus_tree \<Rightarrow> (nat \<times> bplus_tree) option" where
  "non_leaf_new t = do {
     (node, t) \<leftarrow> node_new t;
     Some (node, upd t node (\<lambda>n. n\<lparr>ntype := BPLUS_TREE_NON_LEAF,
       keys := replicate (nat (max_order t - 1)) (fill t),
       subs := replicate (nat (max_order t)) (fill t), datas := []\<rparr>))
   }"

definition leaf_new :: "bplus_tree \<Rightarrow> (nat \<times> bplus_tree) option" where
  "leaf_new t = do {
     (node, t) \<leftarrow> node_new t;
     Some (node, upd t node (\<lambda>n. n\<lparr>ntype := BPLUS_TREE_LEAF,
       keys := replicate (nat (max_entries t)) (fill t), subs := [],
       datas := replicate (nat (max_entries t)) (fill t)\<rparr>))
   }"

subsection \<open>Array accesses through a slot pointer\<close>

definition get_key :: "bplus_tree \<Rightarrow> nat \<Rightarrow> int \<Rightarrow> int option" where
  "get_key t p i = aget (keys (nd t p)) i"

definition get_sub :: "bplus_tree \<Rightarrow> nat \<Rightarrow> int \<Rightarrow> int option" where
  "get_sub t p i = aget (subs (nd t p)) i"

definition get_data :: "bplus_tree \<Rightarrow> nat \<Rightarrow> int \<Rightarrow> int option" where
  "get_data t p i = aget (datas (nd t p)) i"

definition set_key :: "bplus_tree \<Rightarrow> nat \<Rightarrow> int \<Rightarrow> int \<Rightarrow> bplus_tree option" where
  "set_key t p i v = do {
     ks \<leftarrow> aset (keys (nd t p)) i v;
     Some (upd t p (\<lambda>n. n\<lparr>keys := ks\<rparr>))
   }"

definition set_sub :: "bplus_tree \<Rightarrow> nat \<Rightarrow> int \<Rightarrow> int \<Rightarrow> bplus_tree option" where
  "set_sub t p i v = do {
     ss \<leftarrow> aset (subs (nd t p)) i v;
     Some (upd t p (\<lambda>n. n\<lparr>subs := ss\<rparr>))
   }"

definition set_data :: "bplus_tree \<Rightarrow> nat \<Rightarrow> int \<Rightarrow> int \<Rightarrow> bplus_tree option" where
  "set_data t p i v = do {
     ds \<leftarrow> aset (datas (nd t p)) i v;
     Some (upd t p (\<lambda>n. n\<lparr>datas := ds\<rparr>))
   }"

definition move_key :: "bplus_tree \<Rightarrow> nat \<Rightarrow> int \<Rightarrow> nat \<Rightarrow> int \<Rightarrow> int \<Rightarrow> bplus_tree option" where
  "move_key t dst di src si n = do {
     ks \<leftarrow> memmove (keys (nd t dst)) di (keys (nd t src)) si n;
     Some (upd t dst (\<lambda>x. x\<lparr>keys := ks\<rparr>))
   }"

definition move_sub :: "bplus_tree \<Rightarrow> nat \<Rightarrow> int \<Rightarrow> nat \<Rightarrow> int \<Rightarrow> int \<Rightarrow> bplus_tree option" where
  "move_sub t dst di src si n = do {
     ss \<leftarrow> memmove (subs (nd t dst)) di (subs (nd t src)) si n;
     Some (upd t dst (\<lambda>x. x\<lparr>subs := ss\<rparr>))
   }"

definition move_data :: "bplus_tree \<Rightarrow> nat \<Rightarrow> int \<Rightarrow> nat \<Rightarrow> int \<Rightarrow> int \<Rightarrow> bplus_tree option" where
  "move_data t dst di src si n = do {
     ds \<leftarrow> memmove (datas (nd t dst)) di (datas (nd t src)) si n;
     Some (upd t dst (\<lambda>x. x\<lparr>datas := ds\<rparr>))
   }"

subsection \<open>Reading and writing blocks\<close>

definition node_fetch :: "bplus_tree \<Rightarrow> int \<Rightarrow> (nat option \<times> bplus_tree) option" where
  "node_fetch t offset =
     (if offset = INVALID_OFFSET then Some (None, t)
      else do {
        (node, t) \<leftarrow> cache_refer t;
        n \<leftarrow> disk t offset;
        Some (Some node, upd t node (\<lambda>_. n))
      })"

definition node_seek :: "bplus_tree \<Rightarrow> int \<Rightarrow> (nat option \<times> bplus_tree) option" where
  "node_seek t offset =
     (if offset = INVALID_OFFSET then Some (None, t)
      else do {
        i \<leftarrow> free_slot t;
        n \<leftarrow> disk t offset;
        Some (Some i, upd t i (\<lambda>_. n))
      })"

definition node_flush :: "bplus_tree \<Rightarrow> nat option \<Rightarrow> bplus_tree option" where
  "node_flush t node =
     (case node of
        None \<Rightarrow> Some t
      | Some p \<Rightarrow> Some (cache_defer (t\<lparr>disk := (disk t)(self (nd t p) \<mapsto> nd t p)\<rparr>) p))"

definition new_node_append :: "bplus_tree \<Rightarrow> nat \<Rightarrow> int \<times> bplus_tree" where
  "new_node_append t node =
     (case free_blocks t of
        [] \<Rightarrow> (file_size t,
               upd (t\<lparr>file_size := file_size t + block_size t\<rparr>) node
                 (\<lambda>n. n\<lparr>self := file_size t\<rparr>))
      | offset # rest \<Rightarrow>
              (offset, upd (t\<lparr>free_blocks := rest\<rparr>) node (\<lambda>n. n\<lparr>self := offset\<rparr>)))"

definition node_delete ::
  "bplus_tree \<Rightarrow> nat \<Rightarrow> nat option \<Rightarrow> nat option \<Rightarrow> bplus_tree option" where
  "node_delete t node left right = do {
     t \<leftarrow> (case left of
            Some l \<Rightarrow> do {
              t \<leftarrow> (case right of
                     Some r \<Rightarrow>
                       let t = upd t l (\<lambda>n. n\<lparr>nxt := self (nd t r)\<rparr>);
                           t = upd t r (\<lambda>n. n\<lparr>prev := self (nd t l)\<rparr>)
                       in node_flush t (Some r)
                   | None \<Rightarrow> Some (upd t l (\<lambda>n. n\<lparr>nxt := INVALID_OFFSET\<rparr>)));
              node_flush t (Some l)
            }
          | None \<Rightarrow>
              (case right of
                 Some r \<Rightarrow> node_flush (upd t r (\<lambda>n. n\<lparr>prev := INVALID_OFFSET\<rparr>)) (Some r)
               | None \<Rightarrow> Some t));
     if self (nd t node) = INVALID_OFFSET then None
     else Some (cache_defer (t\<lparr>free_blocks := free_blocks t @ [self (nd t node)]\<rparr>) node)
   }"

definition sub_node_update :: "bplus_tree \<Rightarrow> nat \<Rightarrow> int \<Rightarrow> nat \<Rightarrow> bplus_tree option" where
  "sub_node_update t pnode index sub_node =
     (if self (nd t sub_node) = INVALID_OFFSET then None
      else do {
        t \<leftarrow> set_sub t pnode index (self (nd t sub_node));
        let t = upd t sub_node (\<lambda>n. n\<lparr>parent := self (nd t pnode)\<rparr>);
        node_flush t (Some sub_node)
      })"

definition sub_node_flush :: "bplus_tree \<Rightarrow> nat \<Rightarrow> int \<Rightarrow> bplus_tree option" where
  "sub_node_flush t pnode sub_offset = do {
     (sub_node, t) \<leftarrow> node_fetch t sub_offset;
     p \<leftarrow> sub_node;
     let t = upd t p (\<lambda>n. n\<lparr>parent := self (nd t pnode)\<rparr>);
     node_flush t (Some p)
   }"

definition left_node_add :: "bplus_tree \<Rightarrow> nat \<Rightarrow> nat \<Rightarrow> bplus_tree option" where
  "left_node_add t node left = do {
     let (_, t) = new_node_append t left;
     (prv, t) \<leftarrow> node_fetch t (prev (nd t node));
     t \<leftarrow> (case prv of
            Some p \<Rightarrow>
              let t = upd t p (\<lambda>n. n\<lparr>nxt := self (nd t left)\<rparr>);
                  t = upd t left (\<lambda>n. n\<lparr>prev := self (nd t p)\<rparr>)
              in node_flush t (Some p)
          | None \<Rightarrow> Some (upd t left (\<lambda>n. n\<lparr>prev := INVALID_OFFSET\<rparr>)));
     let t = upd t left (\<lambda>n. n\<lparr>nxt := self (nd t node)\<rparr>);
     Some (upd t node (\<lambda>n. n\<lparr>prev := self (nd t left)\<rparr>))
   }"

definition right_node_add :: "bplus_tree \<Rightarrow> nat \<Rightarrow> nat \<Rightarrow> bplus_tree option" where
  "right_node_add t node right = do {
     let (_, t) = new_node_append t right;
     (nx, t) \<leftarrow> node_fetch t (nxt (nd t node));
     t \<leftarrow> (case nx of
            Some p \<Rightarrow>
              let t = upd t p (\<lambda>n. n\<lparr>prev := self (nd t right)\<rparr>);
                  t = upd t right (\<lambda>n. n\<lparr>nxt := self (nd t p)\<rparr>)
              in node_flush t (Some p)
          | None \<Rightarrow> Some (upd t right (\<lambda>n. n\<lparr>nxt := INVALID_OFFSET\<rparr>)));
     let t = upd t right (\<lambda>n. n\<lparr>prev := self (nd t node)\<rparr>);
     Some (upd t node (\<lambda>n. n\<lparr>nxt := self (nd t right)\<rparr>))
   }"

subsection \<open>The descent to a leaf\<close>

text \<open>
  Loops that follow offsets from block to block take fuel, one unit per node visited.
  Callers give one unit per block of the file and one more: the nodes of a path are
  distinct blocks, so no path of a well-formed tree is longer.
\<close>

definition fuel_of :: "bplus_tree \<Rightarrow> nat" where
  "fuel_of t = Suc (nat (file_size t div block_size t))"

text \<open>
  The descent \<open>while (node != NULL)\<close> that search, insertion, deletion and range queries
  share: from a node down to the leaf that covers the key. It returns the slot of that
  leaf, or \<^term>\<open>None\<close> where \<open>node_seek\<close> gave \<open>NULL\<close> (only for the empty tree).
\<close>

fun descend :: "nat \<Rightarrow> bplus_tree \<Rightarrow> nat option \<Rightarrow> int \<Rightarrow> (nat option \<times> bplus_tree) option" where
  "descend 0 t node key = None"
| "descend (Suc fuel) t None key = Some (None, t)"
| "descend (Suc fuel) t (Some node) key =
     (if is_leaf (nd t node) then Some (Some node, t)
      else do {
        i \<leftarrow> key_binary_search (nd t node) key;
        off \<leftarrow> get_sub t node (if i \<ge> 0 then i + 1 else - i - 1);
        (nx, t) \<leftarrow> node_seek t off;
        descend fuel t nx key
      })"

subsection \<open>The search finds the first key that is not smaller\<close>

lemma key_search_loop_spec:
  assumes "- 1 \<le> low" "low < high" "high \<le> int len" "len \<le> length arr"
    and "\<forall>i j. i < j \<longrightarrow> j < len \<longrightarrow> arr ! i < arr ! j"
    and "\<forall>i<len. int i \<le> low \<longrightarrow> arr ! i < target"
    and "\<forall>i<len. high \<le> int i \<longrightarrow> target \<le> arr ! i"
  shows "\<exists>h\<le>len. key_search_loop arr target low high = Some (int h) \<and>
           (\<forall>i<h. arr ! i < target) \<and> (\<forall>i<len. h \<le> i \<longrightarrow> target \<le> arr ! i)"
  using assms
proof (induction arr target low high rule: key_search_loop.induct)
  case (1 arr target low high)
  let ?mid = "low + (high - low) div 2"
  show ?case
  proof (cases "low + 1 < high")
    case False
    with 1 have "high = low + 1" by simp
    with 1 show ?thesis
      by (intro exI [of _ "nat high"]) (auto simp: key_search_loop.simps)
  next
    case True
    then obtain m where m: "?mid = int m" "low < int m" "int m < high" "m < len"
      using 1(3,5) by (intro that [of "nat ?mid"]) auto
    then have a: "aget arr ?mid = Some (arr ! m)"
      using 1(6) by (simp add: c_simps)
    have mono: "i \<le> j \<Longrightarrow> j < len \<Longrightarrow> arr ! i \<le> arr ! j" for i j
      using 1(7) by (cases "i = j") (auto simp: less_imp_le)
    show ?thesis
    proof (cases "target > arr ! m")
      case gt: True
      have "\<forall>i<len. int i \<le> ?mid \<longrightarrow> arr ! i < target"
        using gt m mono by (metis m(1) nat_int_comparison(3) order.strict_trans1)
      with 1(1)[OF True refl a gt] 1(3-) m gt show ?thesis
        by (simp add: key_search_loop.simps [of arr target low high] a [unfolded m(1)] True Let_def)
    next
      case le: False
      have "\<forall>i<len. ?mid \<le> int i \<longrightarrow> target \<le> arr ! i"
        using le m mono by (metis m(1) nat_int_comparison(3) not_less order_trans)
      with 1(2)[OF True refl a le] 1(3-) m le show ?thesis
        by (simp add: key_search_loop.simps [of arr target low high] a [unfolded m(1)] True Let_def)
    qed
  qed
qed

text \<open>
  \<open>cnt_lt ks k\<close> is where a key \<open>k\<close> belongs in the sorted keys \<open>ks\<close> of a node, \<open>cnt_le\<close>
  the number of the sub-tree of an inner node that covers it.
\<close>

definition cnt_lt :: "int list \<Rightarrow> int \<Rightarrow> nat" where
  "cnt_lt ks k = length (filter (\<lambda>x. x < k) ks)"

definition cnt_le :: "int list \<Rightarrow> int \<Rightarrow> nat" where
  "cnt_le ks k = length (filter (\<lambda>x. x \<le> k) ks)"

lemma cnt_lt_le_length [simp]: "cnt_lt ks k \<le> length ks"
  by (simp add: cnt_lt_def)

lemma cnt_le_le_length [simp]: "cnt_le ks k \<le> length ks"
  by (simp add: cnt_le_def)

lemma cnt_lt_eqI:
  assumes "h \<le> length ks" "\<forall>i<h. ks ! i < k" "\<forall>i<length ks. h \<le> i \<longrightarrow> k \<le> ks ! i"
  shows "cnt_lt ks k = h"
proof -
  have "filter (\<lambda>x. x < k) (take h ks) = take h ks"
    using assms(1,2) by (auto simp: filter_id_conv in_set_conv_nth)
  moreover have "filter (\<lambda>x. x < k) (drop h ks) = []"
    using assms(1,3) by (auto simp: filter_empty_conv in_set_conv_nth not_less)
  ultimately have "filter (\<lambda>x. x < k) (take h ks @ drop h ks) = take h ks"
    by (simp only: filter_append append_Nil2)
  with assms(1) show ?thesis
    by (simp add: cnt_lt_def)
qed

lemma cnt_lt_nth:
  assumes "sorted_wrt (<) ks" "k \<in> set ks"
  shows "cnt_lt ks k < length ks" "ks ! cnt_lt ks k = k"
proof -
  from assms(2) obtain i where i: "i < length ks" "ks ! i = k"
    by (auto simp: in_set_conv_nth)
  have "cnt_lt ks k = i"
    using assms(1) i
    by (intro cnt_lt_eqI) (auto simp: sorted_wrt_iff_nth_less dest: le_neq_implies_less less_imp_le)
  with i show "cnt_lt ks k < length ks" "ks ! cnt_lt ks k = k" by auto
qed

lemma cnt_le_eq:
  "sorted_wrt (<) ks \<Longrightarrow> cnt_le ks k = cnt_lt ks k + (if k \<in> set ks then 1 else 0)"
  by (induction ks) (auto simp: cnt_le_def cnt_lt_def filter_empty_conv)

lemma key_binary_search_spec:
  assumes "take (length ks) (keys n) = ks" "length ks \<le> length (keys n)" "sorted_wrt (<) ks"
    and "children n = (if is_leaf n then int (length ks) else int (length ks) + 1)"
  shows "key_binary_search n k =
           Some (if k \<in> set ks then int (cnt_lt ks k) else - int (cnt_lt ks k) - 1)"
proof -
  have nth: "i < length ks \<Longrightarrow> keys n ! i = ks ! i" for i
    using assms(1) by (metis nth_take)
  obtain h where h: "h \<le> length ks" "key_search_loop (keys n) k (- 1) (int (length ks)) = Some (int h)"
      "\<forall>i<h. keys n ! i < k" "\<forall>i<length ks. h \<le> i \<longrightarrow> k \<le> keys n ! i"
    using key_search_loop_spec [of "- 1" "int (length ks)" "length ks" "keys n" k] assms(2,3) nth
    by (auto simp: sorted_wrt_iff_nth_less)
  then have c: "cnt_lt ks k = h"
    using nth by (intro cnt_lt_eqI) auto
  have len: "(if is_leaf n then children n else children n - 1) = int (length ks)"
    using assms(4) by simp
  have mem: "k \<in> set ks \<longleftrightarrow> h < length ks \<and> ks ! h = k"
    using cnt_lt_nth [OF assms(3), of k] c by (metis nth_mem)
  show ?thesis
    unfolding key_binary_search_def
    using h(1) mem c nth [of h] assms(2)
    by (auto simp: len h(2) c_simps)
qed

subsection \<open>Slots\<close>

text \<open>
  Facts about the cache slots: what a slot holds after an update of another slot, and the
  array accesses of a slot at natural indices (collection \<open>slot_simps\<close>).
\<close>

named_theorems slot_simps \<open>slot contents and array accesses through slots\<close>

definition slots_wf :: "bplus_tree \<Rightarrow> bool" where
  "slots_wf t \<longleftrightarrow> length (caches t) = MIN_CACHE_NUM \<and> length (used t) = MIN_CACHE_NUM"

definition live :: "bplus_tree \<Rightarrow> nat set" where
  "live t = {p. p < MIN_CACHE_NUM \<and> used t ! p}"

lemma nd_upd [slot_simps]:
  "p < length (caches t) \<Longrightarrow> nd (upd t p f) q = (if q = p then f (nd t p) else nd t q)"
  by (simp add: nd_def upd_def)

lemma nd_record [slot_simps]:
  "nd (t\<lparr>used := us\<rparr>) p = nd t p" "nd (t\<lparr>disk := D\<rparr>) p = nd t p"
  "nd (t\<lparr>root := r\<rparr>) p = nd t p" "nd (t\<lparr>level := l\<rparr>) p = nd t p"
  "nd (t\<lparr>file_size := s\<rparr>) p = nd t p" "nd (t\<lparr>free_blocks := fs\<rparr>) p = nd t p"
  "nd (t\<lparr>caches := cs\<rparr>) p = cs ! p" "nd (cache_defer t q) p = nd t p"
  by (simp_all add: nd_def cache_defer_def)

lemma upd_sel [simp]:
  "used (upd t p f) = used t" "disk (upd t p f) = disk t"
  "length (caches (upd t p f)) = length (caches t)" "filename (upd t p f) = filename t"
  "max_entries (upd t p f) = max_entries t" "max_order (upd t p f) = max_order t"
  "root (upd t p f) = root t" "level (upd t p f) = level t"
  "free_blocks (upd t p f) = free_blocks t" "file_size (upd t p f) = file_size t"
  "block_size (upd t p f) = block_size t" "fill (upd t p f) = fill t"
  by (simp_all add: upd_def)

lemma cache_defer_sel [simp]:
  "used (cache_defer t p) = (used t)[p := False]" "disk (cache_defer t p) = disk t"
  "caches (cache_defer t p) = caches t" "filename (cache_defer t p) = filename t"
  "max_entries (cache_defer t p) = max_entries t" "max_order (cache_defer t p) = max_order t"
  "root (cache_defer t p) = root t" "level (cache_defer t p) = level t"
  "free_blocks (cache_defer t p) = free_blocks t" "file_size (cache_defer t p) = file_size t"
  "block_size (cache_defer t p) = block_size t" "fill (cache_defer t p) = fill t"
  by (simp_all add: cache_defer_def)

lemma get_int [slot_simps]:
  "get_key t p (int i) = (if i < length (keys (nd t p)) then Some (keys (nd t p) ! i) else None)"
  "get_sub t p (int i) = (if i < length (subs (nd t p)) then Some (subs (nd t p) ! i) else None)"
  "get_data t p (int i) = (if i < length (datas (nd t p)) then Some (datas (nd t p) ! i) else None)"
  by (simp_all add: get_key_def get_sub_def get_data_def c_simps)

lemma set_int [slot_simps]:
  "set_key t p (int i) v = (if i < length (keys (nd t p))
     then Some (upd t p (\<lambda>n. n\<lparr>keys := (keys n)[i := v]\<rparr>)) else None)"
  "set_sub t p (int i) v = (if i < length (subs (nd t p))
     then Some (upd t p (\<lambda>n. n\<lparr>subs := (subs n)[i := v]\<rparr>)) else None)"
  "set_data t p (int i) v = (if i < length (datas (nd t p))
     then Some (upd t p (\<lambda>n. n\<lparr>datas := (datas n)[i := v]\<rparr>)) else None)"
  by (simp_all add: set_key_def set_sub_def set_data_def c_simps upd_def)

lemma move_int [slot_simps]:
  "move_key t d (int di) s (int si) (int n) =
     (if di + n \<le> length (keys (nd t d)) \<and> si + n \<le> length (keys (nd t s))
      then Some (upd t d (\<lambda>x. x\<lparr>keys := blit (keys x) di (keys (nd t s)) si n\<rparr>)) else None)"
  "move_sub t d (int di) s (int si) (int n) =
     (if di + n \<le> length (subs (nd t d)) \<and> si + n \<le> length (subs (nd t s))
      then Some (upd t d (\<lambda>x. x\<lparr>subs := blit (subs x) di (subs (nd t s)) si n\<rparr>)) else None)"
  "move_data t d (int di) s (int si) (int n) =
     (if di + n \<le> length (datas (nd t d)) \<and> si + n \<le> length (datas (nd t s))
      then Some (upd t d (\<lambda>x. x\<lparr>datas := blit (datas x) di (datas (nd t s)) si n\<rparr>)) else None)"
  by (simp_all add: move_key_def move_sub_def move_data_def c_simps upd_def)

lemma free_slot_Some:
  assumes "\<exists>p<MIN_CACHE_NUM. p \<notin> live t"
  obtains p where "free_slot t = Some p" "p < MIN_CACHE_NUM" "p \<notin> live t"
proof -
  from assms obtain q where "q < MIN_CACHE_NUM" "\<not> used t ! q"
    by (auto simp: live_def)
  then have "free_slot t \<noteq> None"
    by (auto simp: free_slot_def find_None_iff)
  then obtain p where p: "free_slot t = Some p" by auto
  then have "p < MIN_CACHE_NUM" "\<not> used t ! p"
    by (auto simp: free_slot_def find_Some_iff)
  with p show ?thesis by (intro that) (auto simp: live_def)
qed

lemma live_le_4: "card (live t) < MIN_CACHE_NUM \<Longrightarrow> \<exists>p<MIN_CACHE_NUM. p \<notin> live t"
proof (rule ccontr)
  assume *: "card (live t) < MIN_CACHE_NUM" "\<not> (\<exists>p<MIN_CACHE_NUM. p \<notin> live t)"
  then have "live t = {..<MIN_CACHE_NUM}" by (auto simp: live_def)
  with * show False by simp
qed

lemma live_used:
  "length (used t) = MIN_CACHE_NUM \<Longrightarrow> p < MIN_CACHE_NUM \<Longrightarrow>
     live (t\<lparr>used := (used t)[p := True]\<rparr>) = insert p (live t)"
  by (auto simp: live_def nth_list_update)

lemma live_defer:
  "length (used t) = MIN_CACHE_NUM \<Longrightarrow> live (cache_defer t p) = live t - {p}"
  by (cases "p < MIN_CACHE_NUM") (auto simp: live_def nth_list_update split: if_splits)

lemma live_sel [simp]:
  "live (upd t p f) = live t" "live (t\<lparr>disk := D\<rparr>) = live t" "live (t\<lparr>root := r\<rparr>) = live t"
  "live (t\<lparr>level := l\<rparr>) = live t" "live (t\<lparr>file_size := s\<rparr>) = live t"
  "live (t\<lparr>free_blocks := fs\<rparr>) = live t" "live (t\<lparr>caches := cs\<rparr>) = live t"
  by (simp_all add: live_def)

end
