(* ===== verification/BPlus_Levels.thy ===== *)
theory BPlus_Levels
  imports BPlus_Node
begin

section \<open>The shape of a tree: its levels\<close>

text \<open>
  The abstract view of an index file. A tree is the list of its levels, leaves first, the
  root alone in the last one; a level is the list of its nodes from left to right, which
  is the order of the \<open>prev\<close>/\<open>next\<close> chain. An inner level stores no tree structure of its
  own beyond the offsets of the sub-nodes: read from left to right they are the offsets
  of the level below (\<open>linked\<close>). The keys of the inner nodes separate neighbouring nodes
  of the level below; the separators of a level (\<open>bnds\<close>) are the keys of the level above
  woven with the separators of that level. Splitting, borrowing and merging move keys
  between nodes, but keep these woven lists.
\<close>

datatype lnode = LN (off: int) (lkeys: "int list") (lsubs: "int list") (lvals: "int list")

subsection \<open>Nodes on disk\<close>

definition leaf_body :: "nat \<Rightarrow> lnode \<Rightarrow> bplus_node \<Rightarrow> bool" where
  "leaf_body E n b \<longleftrightarrow> ntype b = BPLUS_TREE_LEAF \<and> length (keys b) = E \<and> length (datas b) = E \<and>
     length (lkeys n) \<le> E \<and> length (lvals n) = length (lkeys n) \<and> lsubs n = [] \<and>
     children b = int (length (lkeys n)) \<and>
     take (length (lkeys n)) (keys b) = lkeys n \<and> take (length (lkeys n)) (datas b) = lvals n"

definition inner_body :: "nat \<Rightarrow> lnode \<Rightarrow> bplus_node \<Rightarrow> bool" where
  "inner_body Om n b \<longleftrightarrow> ntype b = BPLUS_TREE_NON_LEAF \<and> Suc (length (keys b)) = Om \<and>
     length (subs b) = Om \<and> length (lsubs n) \<le> Om \<and> length (lsubs n) = Suc (length (lkeys n)) \<and>
     lvals n = [] \<and> children b = int (length (lsubs n)) \<and>
     take (length (lkeys n)) (keys b) = lkeys n \<and> take (length (lsubs n)) (subs b) = lsubs n"

definition body :: "nat \<Rightarrow> nat \<Rightarrow> bool \<Rightarrow> lnode \<Rightarrow> bplus_node \<Rightarrow> bool" where
  "body E Om lf n b \<longleftrightarrow> (if lf then leaf_body E n b else inner_body Om n b)"

definition header :: "bplus_node \<Rightarrow> int \<Rightarrow> int \<Rightarrow> int \<Rightarrow> int \<Rightarrow> bool" where
  "header b o' par pv nx \<longleftrightarrow> self b = o' \<and> parent b = par \<and> prev b = pv \<and> nxt b = nx"

subsection \<open>A level on disk\<close>

text \<open>
  \<open>chain R D X pv ns ps nx\<close>: the blocks of the nodes \<open>ns\<close> form a doubly linked chain
  between the offsets \<open>pv\<close> and \<open>nx\<close>, the parents of the nodes are \<open>ps\<close> and their arrays
  satisfy \<open>R\<close>. The nodes with an offset in \<open>X\<close> are not on disk yet (they are in a slot).
\<close>

fun hd_off :: "lnode list \<Rightarrow> int \<Rightarrow> int" where
  "hd_off [] nx = nx"
| "hd_off (n # ns) nx = off n"

fun last_off :: "int \<Rightarrow> lnode list \<Rightarrow> int" where
  "last_off pv [] = pv"
| "last_off pv (n # ns) = last_off (off n) ns"

fun chain :: "(lnode \<Rightarrow> bplus_node \<Rightarrow> bool) \<Rightarrow> (int \<rightharpoonup> bplus_node) \<Rightarrow> int set \<Rightarrow>
    int \<Rightarrow> lnode list \<Rightarrow> int list \<Rightarrow> int \<Rightarrow> bool" where
  "chain R D X pv [] ps nx = (ps = [])"
| "chain R D X pv (n # ns) ps nx =
     (\<exists>p ps'. ps = p # ps' \<and>
        (off n \<in> X \<or> (\<exists>b. D (off n) = Some b \<and> header b (off n) p pv (hd_off ns nx) \<and> R n b)) \<and>
        chain R D X (off n) ns ps' nx)"

fun parents :: "lnode list list \<Rightarrow> int list" where
  "parents [] = [INVALID_OFFSET]"
| "parents (M # ls) = concat (map (\<lambda>m. replicate (length (lsubs m)) (off m)) M)"

fun stored :: "nat \<Rightarrow> nat \<Rightarrow> (int \<rightharpoonup> bplus_node) \<Rightarrow> bool \<Rightarrow> lnode list list \<Rightarrow> bool" where
  "stored E Om D lf [] = True"
| "stored E Om D lf (L # ls) =
     (chain (body E Om lf) D {} INVALID_OFFSET L (parents ls) INVALID_OFFSET \<and> stored E Om D False ls)"

fun linked :: "lnode list list \<Rightarrow> bool" where
  "linked [] = False"
| "linked [L] = (length L = 1)"
| "linked (L # M # ls) = (map off L = concat (map lsubs M) \<and> linked (M # ls))"

subsection \<open>Separators and order\<close>

fun weave :: "int list list \<Rightarrow> int list \<Rightarrow> int list" where
  "weave [] bs = []"
| "weave (ks # kss) [] = ks"
| "weave (ks # kss) (b # bs) = ks @ b # weave kss bs"

fun bnds :: "lnode list list \<Rightarrow> int list" where
  "bnds [] = []"
| "bnds (M # ls) = weave (map lkeys M) (bnds ls)"

definition ordered :: "int list list \<Rightarrow> int list \<Rightarrow> bool" where
  "ordered kss bs \<longleftrightarrow> length kss = Suc (length bs) \<and> sorted_wrt (<) bs \<and>
     (\<forall>ks\<in>set kss. sorted_wrt (<) ks) \<and>
     (\<forall>j<length bs. (\<forall>x\<in>set (kss ! j). x < bs ! j) \<and> (\<forall>x\<in>set (kss ! Suc j). bs ! j \<le> x))"

subsection \<open>Fill bounds and allocation\<close>

text \<open>
  The root has at least one entry (a leaf) or two sub-nodes; any other leaf is at least
  half full, any other inner node has at least half of \<open>_max_order\<close>, rounded down,
  sub-nodes.
\<close>

fun filled :: "nat \<Rightarrow> nat \<Rightarrow> bool \<Rightarrow> lnode list list \<Rightarrow> bool" where
  "filled E Om lf [] = True"
| "filled E Om lf [L] = (\<forall>n\<in>set L. if lf then 1 \<le> length (lkeys n) else 2 \<le> length (lsubs n))"
| "filled E Om lf (L # M # ls) =
     ((\<forall>n\<in>set L. if lf then (E + 1) div 2 \<le> length (lkeys n) else Om div 2 \<le> length (lsubs n)) \<and>
      filled E Om False (M # ls))"

definition offs :: "lnode list list \<Rightarrow> int list" where
  "offs ls = map off (concat ls)"

definition alloc_ok :: "bplus_tree \<Rightarrow> int set \<Rightarrow> bool" where
  "alloc_ok t S \<longleftrightarrow> 0 \<le> file_size t \<and> block_size t dvd file_size t \<and>
     (\<forall>x\<in>S \<union> set (free_blocks t). 0 \<le> x \<and> x < file_size t \<and> block_size t dvd x) \<and>
     distinct (free_blocks t) \<and> S \<inter> set (free_blocks t) = {}"

definition cfg_ok :: "bplus_tree \<Rightarrow> bool" where
  "cfg_ok t \<longleftrightarrow> 2 \<le> max_entries t \<and> 4 \<le> max_order t \<and> 0 < block_size t \<and> even (block_size t)"

subsection \<open>The invariant of a tree between two calls\<close>

definition bp_inv :: "bplus_tree \<Rightarrow> lnode list list \<Rightarrow> bool" where
  "bp_inv t ls \<longleftrightarrow> slots_wf t \<and> live t = {} \<and> cfg_ok t \<and>
     distinct (offs ls) \<and> alloc_ok t (set (offs ls)) \<and>
     (if ls = [] then root t = INVALID_OFFSET
      else root t = off (hd (last ls)) \<and>
           linked ls \<and> stored (nat (max_entries t)) (nat (max_order t)) (disk t) True ls \<and>
           filled (nat (max_entries t)) (nat (max_order t)) True ls \<and>
           ordered (map lkeys (hd ls)) (bnds (tl ls)))"

definition entries :: "lnode list list \<Rightarrow> (int \<times> int) list" where
  "entries ls = (case ls of [] \<Rightarrow> [] | L # _ \<Rightarrow> concat (map (\<lambda>n. zip (lkeys n) (lvals n)) L))"

subsection \<open>Structure lemmas\<close>

lemma off_simps [simp]: "hd_off (xs @ ys) nx = hd_off xs (hd_off ys nx)"
  by (cases xs) auto

lemma last_off_append [simp]: "last_off pv (xs @ ys) = last_off (last_off pv xs) ys"
  by (induction xs arbitrary: pv) auto

lemma chain_length: "chain R D X pv ns ps nx \<Longrightarrow> length ps = length ns"
  by (induction R D X pv ns ps nx rule: chain.induct) auto

lemma chain_append:
  "length ps = length ns \<Longrightarrow> chain R D X pv (ns @ ms) (ps @ qs) nx \<longleftrightarrow>
     chain R D X pv ns ps (hd_off ms nx) \<and> chain R D X (last_off pv ns) ms qs nx"
proof (induction ns arbitrary: pv ps)
  case (Cons n ns)
  then show ?case by (cases ps) auto
qed simp

lemma chain_split:
  assumes "chain R D X pv (ns @ ms) ps nx"
  obtains qs rs where "ps = qs @ rs" "length qs = length ns" "length rs = length ms"
    "chain R D X pv ns qs (hd_off ms nx)" "chain R D X (last_off pv ns) ms rs nx"
proof -
  let ?q = "take (length ns) ps" and ?r = "drop (length ns) ps"
  have len: "length ps = length ns + length ms"
    using chain_length [OF assms] by simp
  then have "chain R D X pv (ns @ ms) (?q @ ?r) nx \<longleftrightarrow>
      chain R D X pv ns ?q (hd_off ms nx) \<and> chain R D X (last_off pv ns) ms ?r nx"
    by (intro chain_append) simp
  with assms len show ?thesis by (intro that [of ?q ?r]) auto
qed

lemma chain_member:
  "chain R D X pv ns ps nx \<Longrightarrow> n \<in> set ns \<Longrightarrow> off n \<notin> X \<Longrightarrow>
     \<exists>b. D (off n) = Some b \<and> self b = off n \<and> R n b"
  by (induction R D X pv ns ps nx rule: chain.induct) (auto simp: header_def)

lemma chain_cong:
  "chain R D X pv ns ps nx \<Longrightarrow>
   (\<And>n. n \<in> set ns \<Longrightarrow> off n \<notin> Y \<Longrightarrow> off n \<notin> X \<and> D' (off n) = D (off n)) \<Longrightarrow>
   chain R D' Y pv ns ps nx"
proof (induction R D X pv ns ps nx rule: chain.induct)
  case (2 R D X pv n ns ps nx)
  then obtain p ps' where "ps = p # ps'" by auto
  with 2 show ?case by force
qed auto

lemma stored_level:
  "stored E Om D lf (lo @ L # up) \<Longrightarrow>
     chain (body E Om (lf \<and> lo = [])) D {} INVALID_OFFSET L (parents up) INVALID_OFFSET"
proof (induction lo arbitrary: lf)
  case (Cons K lo)
  from Cons.prems have "stored E Om D False (lo @ L # up)" by simp
  from Cons.IH [OF this] show ?case by simp
qed simp

lemma linked_level: "linked (lo @ L # M # up) \<Longrightarrow> map off L = concat (map lsubs M)"
proof (induction lo)
  case (Cons K lo)
  then show ?case by (cases lo) auto
qed simp

lemma linked_up: "linked (lo @ L # up) \<Longrightarrow> linked (L # up)"
proof (induction lo)
  case (Cons K lo)
  then show ?case by (cases lo) auto
qed simp

subsection \<open>Weaving\<close>

definition wpre :: "int list list \<Rightarrow> int list \<Rightarrow> int list" where
  "wpre kss bs = concat (map2 (\<lambda>ks b. ks @ [b]) kss bs)"

definition wpost :: "int list list \<Rightarrow> int list \<Rightarrow> int list" where
  "wpost kss bs = concat (map2 (\<lambda>ks b. b # ks) kss bs)"

lemma w_Cons [simp]:
  "wpre [] bs = []" "wpre (ks # kss) (b # bs) = ks @ b # wpre kss bs"
  "wpost [] bs = []" "wpost (ks # kss) (b # bs) = b # ks @ wpost kss bs"
  by (simp_all add: wpre_def wpost_def)

lemma weave_post: "length bs = length kss \<Longrightarrow> weave (ks # kss) bs = ks @ wpost kss bs"
  by (induction kss bs arbitrary: ks rule: list_induct2') auto

lemma weave_mid:
  "length b1 = length A \<Longrightarrow> length b2 = length B \<Longrightarrow>
     weave (A @ ks # B) (b1 @ b2) = wpre A b1 @ ks @ wpost B b2"
  by (induction A b1 rule: list_induct2') (auto simp: weave_post)

lemma length_wpre: "length bs = length kss \<Longrightarrow> length (wpre kss bs) = length (concat (map (\<lambda>ks. 0 # ks) kss))"
  by (induction kss bs rule: list_induct2') auto

lemma length_wpost: "length bs = length kss \<Longrightarrow> length (wpost kss bs) = length (concat (map (\<lambda>ks. 0 # ks) kss))"
  by (induction kss bs rule: list_induct2') auto

lemma wpre_le:
  "length bs = length kss \<Longrightarrow> sorted_wrt (<) (wpre kss bs) \<Longrightarrow> \<forall>b\<in>set bs. b \<le> k \<Longrightarrow>
     \<forall>x\<in>set (wpre kss bs). x \<le> (k::int)"
  by (induction kss bs rule: list_induct2') (auto simp: sorted_wrt_append intro: order.trans less_imp_le)

lemma wpost_gt:
  "length bs = length kss \<Longrightarrow> sorted_wrt (<) (wpost kss bs) \<Longrightarrow> \<forall>b\<in>set bs. k < b \<Longrightarrow>
     \<forall>x\<in>set (wpost kss bs). (k::int) < x"
  by (induction kss bs rule: list_induct2') (auto simp: sorted_wrt_append intro: less_trans)

lemma set_wpre: "length bs = length kss \<Longrightarrow> set (wpre kss bs) = \<Union>(set ` set kss) \<union> set bs"
  by (induction kss bs rule: list_induct2') auto

lemma length_weave:
  "length kss = Suc (length bs) \<Longrightarrow> Suc (length (weave kss bs)) = length (concat (map (\<lambda>ks. 0 # ks) kss))"
  by (induction kss bs rule: weave.induct) auto

lemma set_weave:
  "length kss = Suc (length bs) \<Longrightarrow> set (weave kss bs) = \<Union>(set ` set kss) \<union> set bs"
  by (induction kss bs rule: weave.induct) auto

lemma sorted_weaveD:
  "length kss = Suc (length bs) \<Longrightarrow> sorted_wrt (<) (weave kss bs) \<Longrightarrow>
     sorted_wrt (<) bs \<and> (\<forall>ks\<in>set kss. sorted_wrt (<) ks)"
  by (induction kss bs rule: weave.induct) (auto simp: sorted_wrt_append set_weave)

lemma length_bnds:
  "linked (L # up) \<Longrightarrow> \<forall>M\<in>set up. \<forall>m\<in>set M. length (lsubs m) = Suc (length (lkeys m)) \<Longrightarrow>
     length L = Suc (length (bnds up))"
proof (induction up arbitrary: L)
  case (Cons M up)
  have M: "length M = Suc (length (bnds up))"
    using Cons by simp
  have "length L = length (concat (map lsubs M))"
    using Cons.prems(1) by (simp flip: length_map [of off])
  also have "\<dots> = length (concat (map (\<lambda>ks. 0 # ks) (map lkeys M)))"
    using Cons.prems(2) by (simp add: length_concat comp_def cong: map_cong)
  also have "\<dots> = Suc (length (weave (map lkeys M) (bnds up)))"
    using M by (intro length_weave [symmetric]) simp
  finally show ?case by simp
qed simp

lemma sorted_bnds_up:
  "linked (L # M # up) \<Longrightarrow> \<forall>M'\<in>set (M # up). \<forall>m\<in>set M'. length (lsubs m) = Suc (length (lkeys m)) \<Longrightarrow>
     sorted_wrt (<) (bnds (M # up)) \<Longrightarrow> sorted_wrt (<) (bnds up) \<and> (\<forall>m\<in>set M. sorted_wrt (<) (lkeys m))"
  using sorted_weaveD [of "map lkeys M" "bnds up"] length_bnds [of M up] by auto

subsection \<open>The node of a level that covers a key\<close>

definition covers :: "lnode list \<Rightarrow> int list \<Rightarrow> int \<Rightarrow> lnode list \<Rightarrow> lnode \<Rightarrow> lnode list \<Rightarrow>
    int list \<Rightarrow> int list \<Rightarrow> bool" where
  "covers L bs k A n B b1 b2 \<longleftrightarrow> L = A @ n # B \<and> bs = b1 @ b2 \<and> length b1 = length A \<and>
     length b2 = length B \<and> (\<forall>b\<in>set b1. b \<le> k) \<and> (\<forall>b\<in>set b2. k < b)"

lemma map_eq_append_mid:
  assumes "map f L = xs @ y # ys"
  obtains A n B where "L = A @ n # B" "map f A = xs" "f n = y" "map f B = ys"
  using assms by (auto simp: map_eq_append_conv map_eq_Cons_conv)

lemma split_cnt_le:
  assumes "sorted_wrt (<) ks"
  shows "\<forall>x\<in>set (take (cnt_le ks k) ks). x \<le> k" "\<forall>x\<in>set (drop (cnt_le ks k) ks). k < x"
proof -
  have "ks = filter (\<lambda>x. x \<le> k) ks @ filter (\<lambda>x. k < x) ks"
    using assms
  proof (induction ks)
    case (Cons a ks)
    then have "k < a \<Longrightarrow> filter (\<lambda>x. x \<le> k) ks = [] \<and> filter (\<lambda>x. k < x) ks = ks"
      by (auto simp: filter_empty_conv filter_id_conv)
    with Cons show ?case by (cases "k < a") auto
  qed simp
  then have "take (cnt_le ks k) ks = filter (\<lambda>x. x \<le> k) ks"
    "drop (cnt_le ks k) ks = filter (\<lambda>x. k < x) ks"
    by (metis append_eq_conv_conj cnt_le_def)+
  then show "\<forall>x\<in>set (take (cnt_le ks k) ks). x \<le> k" "\<forall>x\<in>set (drop (cnt_le ks k) ks). k < x"
    by auto
qed

lemma length_concat_subs:
  assumes "\<forall>m\<in>set A. length (lsubs m) = Suc (length (lkeys m))"
  shows "length (concat (map lsubs A)) = length (concat (map (\<lambda>ks. 0 # ks) (map lkeys A)))"
  using assms by (simp add: length_concat comp_def cong: map_cong)

lemma covers_down:
  assumes cov: "covers M bs k A m B b1 b2"
    and sub: "\<forall>m\<in>set M. length (lsubs m) = Suc (length (lkeys m))"
    and L: "map off L = concat (map lsubs M)"
    and srt: "sorted_wrt (<) (weave (map lkeys M) bs)"
  obtains A' n B' b1' b2' where "covers L (weave (map lkeys M) bs) k A' n B' b1' b2'"
    "off n = lsubs m ! cnt_le (lkeys m) k" "cnt_le (lkeys m) k < length (lsubs m)"
proof -
  let ?c = "cnt_le (lkeys m) k"
  let ?b1 = "wpre (map lkeys A) b1 @ take ?c (lkeys m)"
  let ?b2 = "drop ?c (lkeys m) @ wpost (map lkeys B) b2"
  from cov have M: "M = A @ m # B" and bs: "bs = b1 @ b2" "length b1 = length A" "length b2 = length B"
    and le: "\<forall>b\<in>set b1. b \<le> k" and gt: "\<forall>b\<in>set b2. k < b"
    by (auto simp: covers_def)
  have w: "weave (map lkeys M) bs = wpre (map lkeys A) b1 @ lkeys m @ wpost (map lkeys B) b2"
    using bs by (simp add: M weave_mid)
  with srt have s: "sorted_wrt (<) (wpre (map lkeys A) b1)" "sorted_wrt (<) (lkeys m)"
    "sorted_wrt (<) (wpost (map lkeys B) b2)"
    by (auto simp: sorted_wrt_append)
  have c: "?c < length (lsubs m)"
    using sub by (simp add: M le_imp_less_Suc)
  have "map off L = (concat (map lsubs A) @ take ?c (lsubs m)) @ lsubs m ! ?c #
      (drop (Suc ?c) (lsubs m) @ concat (map lsubs B))"
    using c by (simp add: L M id_take_nth_drop [symmetric] flip: append_assoc append_Cons)
       (metis append.assoc append_Cons id_take_nth_drop)
  then obtain A' n B' where AB: "L = A' @ n # B'"
    "map off A' = concat (map lsubs A) @ take ?c (lsubs m)" "off n = lsubs m ! ?c"
    "map off B' = drop (Suc ?c) (lsubs m) @ concat (map lsubs B)"
    by (rule map_eq_append_mid)
  have "length ?b1 = length A'"
    using arg_cong [OF AB(2), of length] sub c bs(2)
    by (simp add: M length_concat_subs length_wpre)
  moreover have "length ?b2 = length B'"
    using arg_cong [OF AB(4), of length] sub c bs(3)
    by (simp add: M length_concat_subs length_wpost)
  moreover have "\<forall>b\<in>set ?b1. b \<le> k"
    using wpre_le [OF _ s(1) le] split_cnt_le(1) [OF s(2)] bs(2) by auto
  moreover have "\<forall>b\<in>set ?b2. k < b"
    using wpost_gt [OF _ s(3) gt] split_cnt_le(2) [OF s(2)] bs(3) by auto
  ultimately have "covers L (weave (map lkeys M) bs) k A' n B' ?b1 ?b2"
    using AB(1) by (simp add: covers_def w)
  with AB(3) c show ?thesis by (rule that [rotated 1])
qed

subsection \<open>The descent reaches the covering leaf\<close>

lemma inner_body_search:
  assumes "inner_body Om n b" "sorted_wrt (<) (lkeys n)"
  shows "\<not> is_leaf b"
    "key_binary_search b k = Some (if k \<in> set (lkeys n) then int (cnt_lt (lkeys n) k)
       else - int (cnt_lt (lkeys n) k) - 1)"
  using assms key_binary_search_spec [of "lkeys n" b k]
  by (auto simp: inner_body_def is_leaf_def BPLUS_TREE_LEAF_def BPLUS_TREE_NON_LEAF_def)

lemma leaf_body_search:
  assumes "leaf_body E n b" "sorted_wrt (<) (lkeys n)"
  shows "is_leaf b"
    "key_binary_search b k = Some (if k \<in> set (lkeys n) then int (cnt_lt (lkeys n) k)
       else - int (cnt_lt (lkeys n) k) - 1)"
  using assms key_binary_search_spec [of "lkeys n" b k]
  by (auto simp: leaf_body_def is_leaf_def BPLUS_TREE_LEAF_def)

lemma child_index:
  "sorted_wrt (<) ks \<Longrightarrow>
   (let i = (if k \<in> set ks then int (cnt_lt ks k) else - int (cnt_lt ks k) - 1)
    in if 0 \<le> i then i + 1 else - i - 1) = int (cnt_le ks k)"
  by (simp add: cnt_le_eq)

lemma stored_all_subs:
  assumes "stored E Om D lf (L # up)"
  shows "\<forall>M\<in>set up. \<forall>m\<in>set M. length (lsubs m) = Suc (length (lkeys m))"
proof (intro ballI)
  fix M m assume "M \<in> set up" and m: "m \<in> set M"
  then obtain x y where "up = x @ M # y" by (metis split_list)
  with assms have "stored E Om D lf ((L # x) @ M # y)" by simp
  from chain_member [OF stored_level [OF this] m]
  show "length (lsubs m) = Suc (length (lkeys m))"
    by (auto simp: body_def inner_body_def)
qed

lemma sorted_bnds_suffix:
  "linked (L # x @ y) \<Longrightarrow> \<forall>M\<in>set (x @ y). \<forall>m\<in>set M. length (lsubs m) = Suc (length (lkeys m)) \<Longrightarrow>
     sorted_wrt (<) (bnds (x @ y)) \<Longrightarrow> sorted_wrt (<) (bnds y)"
proof (induction x arbitrary: L)
  case (Cons K x)
  then have "sorted_wrt (<) (bnds (x @ y))"
    using sorted_bnds_up [of L K "x @ y"] by auto
  with Cons show ?case by auto
qed simp

lemma node_seek_ok:
  assumes "slots_wf t" "live t = {}" "disk t o' = Some b" "o' \<noteq> INVALID_OFFSET"
  obtains p cs where "node_seek t o' = Some (Some p, t\<lparr>caches := cs\<rparr>)"
    "p < MIN_CACHE_NUM" "length cs = MIN_CACHE_NUM" "cs ! p = b"
proof -
  have "\<exists>p<MIN_CACHE_NUM. p \<notin> live t"
    using assms(2) by (auto simp: MIN_CACHE_NUM_def intro: exI [of _ 0])
  then obtain p where "free_slot t = Some p" "p < MIN_CACHE_NUM"
    by (rule free_slot_Some)
  with assms show ?thesis
    by (intro that [of p "(caches t)[p := b]"]) (auto simp: node_seek_def upd_def slots_wf_def)
qed

lemma descend_spec:
  assumes "stored E Om (disk t) True (lo @ M # up)" "linked (lo @ M # up)"
    and "sorted_wrt (<) (bnds (tl (lo @ M # up)))"
    and "covers M (bnds up) key A n B b1 b2" "disk t (off n) = Some (nd t p)"
    and "slots_wf t" "live t = {}" "p < MIN_CACHE_NUM" "length lo < fuel"
    and "INVALID_OFFSET \<notin> set (offs (lo @ M # up))"
  shows "\<exists>p' cs A' n' B' b1' b2'. descend fuel t (Some p) key = Some (Some p', t\<lparr>caches := cs\<rparr>) \<and>
           length cs = MIN_CACHE_NUM \<and> p' < MIN_CACHE_NUM \<and> disk t (off n') = Some (cs ! p') \<and>
           covers (hd (lo @ [M])) (bnds (tl (lo @ M # up))) key A' n' B' b1' b2'"
  using assms
proof (induction lo arbitrary: M up A n B b1 b2 t p fuel rule: rev_induct)
  case Nil
  then obtain f where fuel: "fuel = Suc f" by (cases fuel) auto
  have "n \<in> set M" using Nil(4) by (auto simp: covers_def)
  then have "leaf_body E n (nd t p)"
    using chain_member [OF stored_level [OF Nil(1)] \<open>n \<in> set M\<close>] Nil(5) by (auto simp: body_def)
  then have "is_leaf (nd t p)" by (simp add: leaf_body_def is_leaf_def)
  then have "descend fuel t (Some p) key = Some (Some p, t\<lparr>caches := caches t\<rparr>)"
    by (simp add: fuel)
  moreover have "disk t (off n) = Some (caches t ! p)" "length (caches t) = MIN_CACHE_NUM"
    using Nil by (simp_all add: nd_def slots_wf_def)
  ultimately show ?case
    using Nil(4,8) by (auto intro!: exI)
next
  case (snoc L lo)
  then obtain f where fuel: "fuel = Suc f" "length lo < f" by (cases fuel) auto
  have st: "stored E Om (disk t) True (lo @ L # M # up)" and lk: "linked (lo @ L # M # up)"
    using snoc.prems by simp_all
  obtain K x where K: "lo @ [L] = K # x" by (cases "lo @ [L]") auto
  then have Kx: "lo @ L # M # up = K # x @ M # up"
    by (metis append.assoc append_Cons append_Nil)
  have subs: "\<forall>M'\<in>set (x @ M # up). \<forall>m\<in>set M'. length (lsubs m) = Suc (length (lkeys m))"
    using stored_all_subs [OF st [unfolded Kx]] .
  then have subs': "\<forall>M'\<in>set (M # up). \<forall>m\<in>set M'. length (lsubs m) = Suc (length (lkeys m))"
    by auto
  have L: "map off L = concat (map lsubs M)"
    using linked_level [OF lk] .
  have srt: "sorted_wrt (<) (bnds (M # up))"
    using sorted_bnds_suffix [OF lk [unfolded Kx] subs] snoc.prems(3) Kx by simp
  obtain A' n' B' b1' b2' where cov: "covers L (weave (map lkeys M) (bnds up)) key A' n' B' b1' b2'"
    and n': "off n' = lsubs n ! cnt_le (lkeys n) key" "cnt_le (lkeys n) key < length (lsubs n)"
    using covers_down [OF snoc.prems(4) bspec [OF subs' list.set_intros(1)] L srt [unfolded bnds.simps]] .
  have n: "n \<in> set M" "n' \<in> set L"
    using snoc.prems(4) cov by (auto simp: covers_def)
  have ib: "inner_body Om n (nd t p)"
    using chain_member [OF stored_level [OF snoc.prems(1)] n(1)] snoc.prems(5) by (auto simp: body_def)
  have sn: "sorted_wrt (<) (lkeys n)"
    using sorted_bnds_up [OF linked_up [OF lk] _ srt] subs' n(1) by auto
  obtain b where b: "disk t (off n') = Some b"
    using chain_member [OF stored_level [OF st] n(2)] by auto
  have inv: "off n' \<noteq> INVALID_OFFSET"
    using snoc.prems(10) n(2) by (force simp: offs_def)
  obtain q cs where q: "node_seek t (off n') = Some (Some q, t\<lparr>caches := cs\<rparr>)"
      "q < MIN_CACHE_NUM" "length cs = MIN_CACHE_NUM" "cs ! q = b"
    using node_seek_ok [OF snoc.prems(6,7) b inv] .
  have sub: "get_sub t p (int (cnt_le (lkeys n) key)) = Some (off n')"
    using ib n' by (auto simp: inner_body_def get_sub_def c_simps) (metis nth_take)
  have "descend fuel t (Some p) key = descend f (t\<lparr>caches := cs\<rparr>) (Some q) key"
    using inner_body_search(1) [OF ib sn] inner_body_search(2) [OF ib sn, of key] child_index [OF sn, of key] sub q(1)
    by (simp add: fuel Let_def)
  moreover have "\<exists>p' cs' A'' n'' B'' b1'' b2''.
      descend f (t\<lparr>caches := cs\<rparr>) (Some q) key = Some (Some p', t\<lparr>caches := cs\<rparr>\<lparr>caches := cs'\<rparr>) \<and>
      length cs' = MIN_CACHE_NUM \<and> p' < MIN_CACHE_NUM \<and>
      disk (t\<lparr>caches := cs\<rparr>) (off n'') = Some (cs' ! p') \<and>
      covers (hd (lo @ [L])) (bnds (tl (lo @ L # M # up))) key A'' n'' B'' b1'' b2''"
    using snoc.prems q b fuel(2) st lk cov
    by (intro snoc.IH) (auto simp: nd_def slots_wf_def)
  moreover have "hd ((lo @ [L]) @ [M]) = hd (lo @ [L])"
    by (simp add: K)
  ultimately show ?case by simp
qed

subsection \<open>What the invariant gives\<close>

lemma linked_nonempty:
  "linked (L # up) \<Longrightarrow> \<forall>M\<in>set up. \<forall>m\<in>set M. length (lsubs m) = Suc (length (lkeys m)) \<Longrightarrow> L \<noteq> []"
  using length_bnds [of L up] by auto

lemma levels_le_offs:
  "linked ls \<Longrightarrow> \<forall>M\<in>set (tl ls). \<forall>m\<in>set M. length (lsubs m) = Suc (length (lkeys m)) \<Longrightarrow>
     length ls \<le> length (offs ls)"
proof (induction ls)
  case (Cons L ls)
  then have L: "L \<noteq> []"
    using linked_nonempty [of L ls] by simp
  show ?case
  proof (cases ls)
    case Nil
    with L show ?thesis by (cases L) (auto simp: offs_def)
  next
    case (Cons M up)
    with Cons.prems Cons.IH have "length ls \<le> length (offs ls)" by auto
    with L show ?thesis by (cases L) (auto simp: offs_def)
  qed
qed simp

lemma multiples_below:
  assumes "0 < (b::int)" "b dvd n" "\<forall>x\<in>S. 0 \<le> x \<and> x < n \<and> b dvd x"
  shows "card S \<le> nat (n div b)"
proof -
  have "x \<in> (\<lambda>i. int i * b) ` {..<nat (n div b)}" if x: "x \<in> S" for x
  proof (rule image_eqI)
    show "x = int (nat (x div b)) * b"
      using assms x by (simp add: pos_imp_zdiv_nonneg_iff)
    have "b * (x div b) < b * (n div b)"
      using assms x by simp
    then have "x div b < n div b"
      using assms(1) by (simp only: mult_less_cancel_left_pos)
    moreover have "0 \<le> x div b"
      using assms x by (simp add: pos_imp_zdiv_nonneg_iff)
    ultimately show "nat (x div b) \<in> {..<nat (n div b)}"
      by simp
  qed
  then have "card S \<le> card ((\<lambda>i. int i * b) ` {..<nat (n div b)})"
    by (intro card_mono) auto
  also have "\<dots> \<le> nat (n div b)"
    using card_image_le [of "{..<nat (n div b)}" "\<lambda>i. int i * b"] by simp
  finally show ?thesis .
qed

lemma alloc_ok_INVALID:
  assumes "alloc_ok t S" "cfg_ok t"
  shows "INVALID_OFFSET \<notin> S" "INVALID_OFFSET \<notin> set (free_blocks t)"
proof -
  have "\<not> block_size t dvd INVALID_OFFSET"
  proof
    assume "block_size t dvd INVALID_OFFSET"
    with assms(2) have "2 dvd INVALID_OFFSET"
      by (auto simp: cfg_ok_def intro: dvd_trans)
    then show False by (simp add: INVALID_OFFSET_def)
  qed
  with assms(1) show "INVALID_OFFSET \<notin> S" "INVALID_OFFSET \<notin> set (free_blocks t)"
    by (auto simp: alloc_ok_def)
qed

lemma fuel_enough:
  assumes "bp_inv t ls" "ls \<noteq> []"
  shows "length ls < fuel_of t"
proof -
  from assms have *: "distinct (offs ls)" "alloc_ok t (set (offs ls))" "cfg_ok t" "linked ls"
    "stored (nat (max_entries t)) (nat (max_order t)) (disk t) True ls"
    by (auto simp: bp_inv_def)
  have "\<forall>M\<in>set (tl ls). \<forall>m\<in>set M. length (lsubs m) = Suc (length (lkeys m))"
    using stored_all_subs [of _ _ _ _ "hd ls" "tl ls"] *(5) assms(2) by simp
  then have "length ls \<le> length (offs ls)"
    using *(4) by (rule levels_le_offs [rotated])
  also have "\<dots> = card (set (offs ls))"
    using *(1) by (simp add: distinct_card)
  also have "\<dots> \<le> nat (file_size t div block_size t)"
    using *(2,3) by (intro multiples_below) (auto simp: alloc_ok_def cfg_ok_def)
  finally show ?thesis by (simp add: fuel_of_def)
qed

lemma find_leaf:
  assumes "bp_inv t ls" "ls \<noteq> []"
  obtains p0 t0 p cs A n B b1 b2 where "node_seek t (root t) = Some (Some p0, t0)"
    "descend (fuel_of t0) t0 (Some p0) key = Some (Some p, t\<lparr>caches := cs\<rparr>)"
    "length cs = MIN_CACHE_NUM" "p < MIN_CACHE_NUM" "disk t (off n) = Some (cs ! p)"
    "covers (hd ls) (bnds (tl ls)) key A n B b1 b2"
proof -
  obtain lo M where ls: "ls = lo @ [M]"
    using assms(2) by (metis append_butlast_last_id)
  note inv = assms(1) [unfolded bp_inv_def]
  have lk: "linked ls" and st: "stored (nat (max_entries t)) (nat (max_order t)) (disk t) True ls"
    and srt: "sorted_wrt (<) (bnds (tl ls))" and rt: "root t = off (hd M)"
    and wf: "slots_wf t" "live t = {}"
    using inv assms(2) by (simp_all add: ls ordered_def)
  have "length M = 1"
    using linked_up [of lo M "[]"] lk by (simp add: ls)
  then obtain m where M: "M = [m]" by (cases M) auto
  have INV: "INVALID_OFFSET \<notin> set (offs ls)"
    using inv alloc_ok_INVALID by auto
  then have m: "off m \<noteq> INVALID_OFFSET"
    by (auto simp: ls M offs_def)
  obtain b where b: "disk t (off m) = Some b"
    using chain_member [OF stored_level [OF st [unfolded ls]]] by (auto simp: M)
  obtain p0 cs0 where p0: "node_seek t (off m) = Some (Some p0, t\<lparr>caches := cs0\<rparr>)"
      "p0 < MIN_CACHE_NUM" "length cs0 = MIN_CACHE_NUM" "cs0 ! p0 = b"
    using node_seek_ok [OF wf b m] .
  let ?t0 = "t\<lparr>caches := cs0\<rparr>"
  have "\<exists>p' cs A' n' B' b1' b2'. descend (fuel_of ?t0) ?t0 (Some p0) key =
          Some (Some p', ?t0\<lparr>caches := cs\<rparr>) \<and>
        length cs = MIN_CACHE_NUM \<and> p' < MIN_CACHE_NUM \<and> disk ?t0 (off n') = Some (cs ! p') \<and>
        covers (hd (lo @ [M])) (bnds (tl (lo @ [M]))) key A' n' B' b1' b2'"
  proof (rule descend_spec)
    show "covers M (bnds []) key [] m [] [] []" by (simp add: covers_def M)
    show "length lo < fuel_of ?t0"
      using fuel_enough [OF assms] by (simp add: ls fuel_of_def)
  qed (use st lk srt b p0 wf INV in \<open>simp_all add: ls nd_def slots_wf_def\<close>)
  then obtain p' cs A' n' B' b1' b2' where d: "descend (fuel_of ?t0) ?t0 (Some p0) key =
          Some (Some p', ?t0\<lparr>caches := cs\<rparr>)"
        "length cs = MIN_CACHE_NUM" "p' < MIN_CACHE_NUM" "disk ?t0 (off n') = Some (cs ! p')"
        "covers (hd (lo @ [M])) (bnds (tl (lo @ [M]))) key A' n' B' b1' b2'"
    by blast
  show ?thesis
    by (rule that [of p0 ?t0 p' cs n' A' B' b1' b2']) (use p0(1) rt d in \<open>simp_all add: ls M\<close>)
qed

lemma find_leaf_empty:
  assumes "bp_inv t []"
  shows "node_seek t (root t) = Some (None, t)" "descend (fuel_of t) t None key = Some (None, t)"
  using assms by (simp_all add: bp_inv_def node_seek_def fuel_of_def)

lemma covers_sides:
  assumes "ordered (map lkeys L) bs" "covers L bs k A n B b1 b2"
  shows "\<forall>m\<in>set A. \<forall>x\<in>set (lkeys m). x < k" "\<forall>m\<in>set B. \<forall>x\<in>set (lkeys m). k < x"
    "sorted_wrt (<) (lkeys n)"
proof -
  from assms(2) have c: "L = A @ n # B" "bs = b1 @ b2" "length b1 = length A" "length b2 = length B"
    "\<forall>b\<in>set b1. b \<le> k" "\<forall>b\<in>set b2. k < b"
    by (auto simp: covers_def)
  from assms(1) have o: "\<forall>j<length bs. (\<forall>x\<in>set (map lkeys L ! j). x < bs ! j) \<and>
      (\<forall>x\<in>set (map lkeys L ! Suc j). bs ! j \<le> x)"
    by (auto simp: ordered_def)
  show "\<forall>m\<in>set A. \<forall>x\<in>set (lkeys m). x < k"
  proof (intro ballI)
    fix m x assume "m \<in> set A" "x \<in> set (lkeys m)"
    then obtain j where "j < length A" "A ! j = m" by (auto simp: in_set_conv_nth)
    with o [THEN spec, of j] c(1-4) \<open>x \<in> set (lkeys m)\<close> have "x < b1 ! j"
      by (simp add: nth_append)
    also have "b1 ! j \<le> k"
      using c(3,5) \<open>j < length A\<close> by simp
    finally show "x < k" .
  qed
  show "\<forall>m\<in>set B. \<forall>x\<in>set (lkeys m). k < x"
  proof (intro ballI)
    fix m x assume "m \<in> set B" "x \<in> set (lkeys m)"
    then obtain j where "j < length B" "B ! j = m" by (auto simp: in_set_conv_nth)
    with o [THEN spec, of "length A + j"] c(1-4) \<open>x \<in> set (lkeys m)\<close> have "b2 ! j \<le> x"
      by (simp add: nth_append)
    moreover have "k < b2 ! j"
      using c(4,6) \<open>j < length B\<close> by simp
    ultimately show "k < x" by simp
  qed
  show "sorted_wrt (<) (lkeys n)"
    using assms(1) c(1) by (auto simp: ordered_def)
qed

subsection \<open>Looking up a key\<close>

lemma leaf_entries_None:
  assumes "\<forall>m\<in>set A. k \<notin> set (lkeys m)"
  shows "map_of (concat (map (\<lambda>n. zip (lkeys n) (lvals n)) A)) k = None"
proof -
  have "k \<notin> fst ` set (concat (map (\<lambda>n. zip (lkeys n) (lvals n)) A))"
    using assms by (auto dest: set_zip_leftD)
  then show ?thesis by (simp add: map_of_eq_None_iff)
qed

lemma map_of_zip_sorted:
  assumes "sorted_wrt (<) ks" "length vs = length ks"
  shows "map_of (zip ks vs) k = (if k \<in> set ks then Some (vs ! cnt_lt ks k) else None)"
proof (cases "k \<in> set ks")
  case True
  then have "k = ks ! cnt_lt ks k" "cnt_lt ks k < length ks"
    using cnt_lt_nth [OF assms(1)] by auto
  moreover have "distinct ks"
    using assms(1) by (simp add: strict_sorted_iff)
  ultimately have "map_of (zip ks vs) (ks ! cnt_lt ks k) = Some (vs ! cnt_lt ks k)"
    using assms(2) by (intro map_of_zip_nth) auto
  with True \<open>k = ks ! cnt_lt ks k\<close> show ?thesis by simp
next
  case False
  then show ?thesis using assms(2) by (simp add: map_of_zip_is_None)
qed

lemma entries_lookup:
  assumes "ordered (map lkeys L) bs" "covers L bs k A n B b1 b2" "length (lvals n) = length (lkeys n)"
  shows "map_of (entries (L # up)) k =
           (if k \<in> set (lkeys n) then Some (lvals n ! cnt_lt (lkeys n) k) else None)"
proof -
  have "L = A @ n # B" using assms(2) by (simp add: covers_def)
  moreover have "map_of (concat (map (\<lambda>n. zip (lkeys n) (lvals n)) A)) k = None"
      "map_of (concat (map (\<lambda>n. zip (lkeys n) (lvals n)) B)) k = None"
    using covers_sides [OF assms(1,2)] by (auto intro!: leaf_entries_None)
  ultimately show ?thesis
    using map_of_zip_sorted [OF covers_sides(3) [OF assms(1,2)] assms(3), of k]
    by (simp add: entries_def map_add_def split: option.split)
qed

lemma bp_inv_caches:
  "bp_inv t ls \<Longrightarrow> length cs = MIN_CACHE_NUM \<Longrightarrow> bp_inv (t\<lparr>caches := cs\<rparr>) ls"
  by (simp add: bp_inv_def slots_wf_def cfg_ok_def alloc_ok_def)

end
