(* ===== verification/BPlus_Insert.thy ===== *)
theory BPlus_Insert
  imports BPlus_Levels
begin

section \<open>Insertion: splitting nodes and growing the tree\<close>

text \<open>
  \<open>bplus_tree_insert\<close> and what it calls: the splits of inner nodes and leaves, the plain
  insertions, and \<open>parent_node_build\<close> / \<open>non_leaf_insert\<close>, which climb from a split leaf
  towards the root. The climb takes fuel, one unit per inner node visited.
\<close>

text \<open>The loop \<open>for (i = ...) sub_node_flush(tree, p, sub(p)[i])\<close> over a list of indices.\<close>

fun flush_subs :: "bplus_tree \<Rightarrow> nat \<Rightarrow> int list \<Rightarrow> bplus_tree option" where
  "flush_subs t p [] = Some t"
| "flush_subs t p (i # is) = do {
     off \<leftarrow> get_sub t p i;
     t \<leftarrow> sub_node_flush t p off;
     flush_subs t p is
   }"

definition non_leaf_split_left ::
  "bplus_tree \<Rightarrow> nat \<Rightarrow> nat \<Rightarrow> nat \<Rightarrow> nat \<Rightarrow> int \<Rightarrow> int \<Rightarrow> int \<Rightarrow> (int \<times> bplus_tree) option" where
  "non_leaf_split_left t node left l_ch r_ch key ins split = do {
     t \<leftarrow> left_node_add t node left;
     let pivot = ins;
     let t = upd t left (\<lambda>n. n\<lparr>children := split + 1\<rparr>);
     let t = upd t node (\<lambda>n. n\<lparr>children := max_order t - split\<rparr>);
     t \<leftarrow> move_key t left 0 node 0 pivot;
     t \<leftarrow> move_sub t left 0 node 0 pivot;
     t \<leftarrow> move_key t left (pivot + 1) node pivot (split - pivot);
     t \<leftarrow> move_sub t left (pivot + 1) node pivot (split - pivot);
     t \<leftarrow> flush_subs t left
           (filter (\<lambda>i. i \<noteq> pivot \<and> i \<noteq> pivot + 1) [0..children (nd t left) - 1]);
     t \<leftarrow> set_key t left pivot key;
     (split_key, t) \<leftarrow>
       (if pivot = split then do {
          t \<leftarrow> sub_node_update t left pivot l_ch;
          t \<leftarrow> sub_node_update t node 0 r_ch;
          Some (key, t)
        } else do {
          t \<leftarrow> sub_node_update t left pivot l_ch;
          t \<leftarrow> sub_node_update t left (pivot + 1) r_ch;
          s \<leftarrow> get_sub t node split;
          t \<leftarrow> set_sub t node 0 s;
          k \<leftarrow> get_key t node (split - 1);
          Some (k, t)
        });
     t \<leftarrow> move_key t node 0 node split (children (nd t node) - 1);
     t \<leftarrow> move_sub t node 1 node (split + 1) (children (nd t node) - 1);
     Some (split_key, t)
   }"

definition non_leaf_split_right1 ::
  "bplus_tree \<Rightarrow> nat \<Rightarrow> nat \<Rightarrow> nat \<Rightarrow> nat \<Rightarrow> int \<Rightarrow> int \<Rightarrow> int \<Rightarrow> (int \<times> bplus_tree) option" where
  "non_leaf_split_right1 t node right l_ch r_ch key ins split = do {
     t \<leftarrow> right_node_add t node right;
     split_key \<leftarrow> get_key t node (split - 1);
     let pivot = 0;
     let t = upd t node (\<lambda>n. n\<lparr>children := split\<rparr>);
     let t = upd t right (\<lambda>n. n\<lparr>children := max_order t - split + 1\<rparr>);
     t \<leftarrow> set_key t right 0 key;
     t \<leftarrow> sub_node_update t right pivot l_ch;
     t \<leftarrow> sub_node_update t right (pivot + 1) r_ch;
     t \<leftarrow> move_key t right (pivot + 1) node split (children (nd t right) - 2);
     t \<leftarrow> move_sub t right (pivot + 2) node (split + 1) (children (nd t right) - 2);
     t \<leftarrow> flush_subs t right [pivot + 2..children (nd t right) - 1];
     Some (split_key, t)
   }"

definition non_leaf_split_right2 ::
  "bplus_tree \<Rightarrow> nat \<Rightarrow> nat \<Rightarrow> nat \<Rightarrow> nat \<Rightarrow> int \<Rightarrow> int \<Rightarrow> int \<Rightarrow> (int \<times> bplus_tree) option" where
  "non_leaf_split_right2 t node right l_ch r_ch key ins split = do {
     t \<leftarrow> right_node_add t node right;
     split_key \<leftarrow> get_key t node split;
     let pivot = ins - split - 1;
     let t = upd t node (\<lambda>n. n\<lparr>children := split + 1\<rparr>);
     let t = upd t right (\<lambda>n. n\<lparr>children := max_order t - split\<rparr>);
     t \<leftarrow> move_key t right 0 node (split + 1) pivot;
     t \<leftarrow> move_sub t right 0 node (split + 1) pivot;
     t \<leftarrow> set_key t right pivot key;
     t \<leftarrow> sub_node_update t right pivot l_ch;
     t \<leftarrow> sub_node_update t right (pivot + 1) r_ch;
     t \<leftarrow> move_key t right (pivot + 1) node ins (max_order t - ins - 1);
     t \<leftarrow> move_sub t right (pivot + 2) node (ins + 1) (max_order t - ins - 1);
     t \<leftarrow> flush_subs t right
           (filter (\<lambda>i. i \<noteq> pivot \<and> i \<noteq> pivot + 1) [0..children (nd t right) - 1]);
     Some (split_key, t)
   }"

definition non_leaf_simple_insert ::
  "bplus_tree \<Rightarrow> nat \<Rightarrow> nat \<Rightarrow> nat \<Rightarrow> int \<Rightarrow> int \<Rightarrow> bplus_tree option" where
  "non_leaf_simple_insert t node l_ch r_ch key ins = do {
     t \<leftarrow> move_key t node (ins + 1) node ins (children (nd t node) - 1 - ins);
     t \<leftarrow> move_sub t node (ins + 2) node (ins + 1) (children (nd t node) - 1 - ins);
     t \<leftarrow> set_key t node ins key;
     t \<leftarrow> sub_node_update t node ins l_ch;
     t \<leftarrow> sub_node_update t node (ins + 1) r_ch;
     Some (upd t node (\<lambda>n. n\<lparr>children := children n + 1\<rparr>))
   }"

text \<open>
  \<open>parent_node_build\<close> and \<open>non_leaf_insert\<close> call each other (the source declares the
  latter ahead): the former takes the latter as its first argument, and
  \<open>non_leaf_insert\<close> passes itself on with one unit of fuel less. The result is C's
  return value (0) with the new tree. In \<open>parent_node_build\<close> the node fetched from
  \<open>l_ch->parent\<close> or \<open>r_ch->parent\<close> is passed on, where a null pointer is dereferenced.
\<close>

type_synonym inserter = "bplus_tree \<Rightarrow> nat \<Rightarrow> nat \<Rightarrow> nat \<Rightarrow> int \<Rightarrow> (int \<times> bplus_tree) option"

definition parent_node_build ::
  "inserter \<Rightarrow> bplus_tree \<Rightarrow> nat \<Rightarrow> nat \<Rightarrow> int \<Rightarrow> (int \<times> bplus_tree) option" where
  "parent_node_build non_leaf_insert t l_ch r_ch key =
     (if parent (nd t l_ch) = INVALID_OFFSET \<and> parent (nd t r_ch) = INVALID_OFFSET then do {
        (pnode, t) \<leftarrow> non_leaf_new t;
        t \<leftarrow> set_key t pnode 0 key;
        t \<leftarrow> set_sub t pnode 0 (self (nd t l_ch));
        t \<leftarrow> set_sub t pnode 1 (self (nd t r_ch));
        let t = upd t pnode (\<lambda>n. n\<lparr>children := 2\<rparr>);
        let (off, t) = new_node_append t pnode;
        let t = t\<lparr>root := off\<rparr>;
        let t = upd t l_ch (\<lambda>n. n\<lparr>parent := self (nd t pnode)\<rparr>);
        let t = upd t r_ch (\<lambda>n. n\<lparr>parent := self (nd t pnode)\<rparr>);
        let t = t\<lparr>level := level t + 1\<rparr>;
        t \<leftarrow> node_flush t (Some l_ch);
        t \<leftarrow> node_flush t (Some r_ch);
        t \<leftarrow> node_flush t (Some pnode);
        Some (0, t)
      } else if parent (nd t r_ch) = INVALID_OFFSET then do {
        (p, t) \<leftarrow> node_fetch t (parent (nd t l_ch));
        node \<leftarrow> p;
        non_leaf_insert t node l_ch r_ch key
      } else do {
        (p, t) \<leftarrow> node_fetch t (parent (nd t r_ch));
        node \<leftarrow> p;
        non_leaf_insert t node l_ch r_ch key
      })"

primrec non_leaf_insert :: "nat \<Rightarrow> inserter" where
  "non_leaf_insert 0 t node l_ch r_ch key = None"
| "non_leaf_insert (Suc fuel) t node l_ch r_ch key = do {
     pos \<leftarrow> key_binary_search (nd t node) key;
     if pos \<ge> 0 then None
     else do {
       let ins = - pos - 1;
       if children (nd t node) = max_order t then do {
         let split = children (nd t node) div 2;
         (sibling, t) \<leftarrow> non_leaf_new t;
         (split_key, t) \<leftarrow>
           (if ins < split then
              non_leaf_split_left t node sibling l_ch r_ch key ins split
            else if ins = split then
              non_leaf_split_right1 t node sibling l_ch r_ch key ins split
            else non_leaf_split_right2 t node sibling l_ch r_ch key ins split);
         if ins < split then parent_node_build (non_leaf_insert fuel) t sibling node split_key
         else parent_node_build (non_leaf_insert fuel) t node sibling split_key
       } else do {
         t \<leftarrow> non_leaf_simple_insert t node l_ch r_ch key ins;
         t \<leftarrow> node_flush t (Some node);
         Some (0, t)
       }
     }
   }"

declare non_leaf_insert.simps [simp del]

definition leaf_split_left ::
  "bplus_tree \<Rightarrow> nat \<Rightarrow> nat \<Rightarrow> int \<Rightarrow> int \<Rightarrow> int \<Rightarrow> (int \<times> bplus_tree) option" where
  "leaf_split_left t leaf left key data ins = do {
     let split = (children (nd t leaf) + 1) div 2;
     t \<leftarrow> left_node_add t leaf left;
     let pivot = ins;
     let t = upd t left (\<lambda>n. n\<lparr>children := split\<rparr>);
     let t = upd t leaf (\<lambda>n. n\<lparr>children := max_entries t - split + 1\<rparr>);
     t \<leftarrow> move_key t left 0 leaf 0 pivot;
     t \<leftarrow> move_data t left 0 leaf 0 pivot;
     t \<leftarrow> set_key t left pivot key;
     t \<leftarrow> set_data t left pivot data;
     t \<leftarrow> move_key t left (pivot + 1) leaf pivot (split - pivot - 1);
     t \<leftarrow> move_data t left (pivot + 1) leaf pivot (split - pivot - 1);
     t \<leftarrow> move_key t leaf 0 leaf (split - 1) (children (nd t leaf));
     t \<leftarrow> move_data t leaf 0 leaf (split - 1) (children (nd t leaf));
     k \<leftarrow> get_key t leaf 0;
     Some (k, t)
   }"

definition leaf_split_right ::
  "bplus_tree \<Rightarrow> nat \<Rightarrow> nat \<Rightarrow> int \<Rightarrow> int \<Rightarrow> int \<Rightarrow> (int \<times> bplus_tree) option" where
  "leaf_split_right t leaf right key data ins = do {
     let split = (children (nd t leaf) + 1) div 2;
     t \<leftarrow> right_node_add t leaf right;
     let pivot = ins - split;
     let t = upd t leaf (\<lambda>n. n\<lparr>children := split\<rparr>);
     let t = upd t right (\<lambda>n. n\<lparr>children := max_entries t - split + 1\<rparr>);
     t \<leftarrow> move_key t right 0 leaf split pivot;
     t \<leftarrow> move_data t right 0 leaf split pivot;
     t \<leftarrow> set_key t right pivot key;
     t \<leftarrow> set_data t right pivot data;
     t \<leftarrow> move_key t right (pivot + 1) leaf ins (max_entries t - ins);
     t \<leftarrow> move_data t right (pivot + 1) leaf ins (max_entries t - ins);
     k \<leftarrow> get_key t right 0;
     Some (k, t)
   }"

definition leaf_simple_insert ::
  "bplus_tree \<Rightarrow> nat \<Rightarrow> int \<Rightarrow> int \<Rightarrow> int \<Rightarrow> bplus_tree option" where
  "leaf_simple_insert t leaf key data ins = do {
     t \<leftarrow> move_key t leaf (ins + 1) leaf ins (children (nd t leaf) - ins);
     t \<leftarrow> move_data t leaf (ins + 1) leaf ins (children (nd t leaf) - ins);
     t \<leftarrow> set_key t leaf ins key;
     t \<leftarrow> set_data t leaf ins data;
     Some (upd t leaf (\<lambda>n. n\<lparr>children := children n + 1\<rparr>))
   }"

definition leaf_insert ::
  "bplus_tree \<Rightarrow> nat \<Rightarrow> int \<Rightarrow> int \<Rightarrow> (int \<times> bplus_tree) option" where
  "leaf_insert t leaf key data = do {
     pos \<leftarrow> key_binary_search (nd t leaf) key;
     if pos \<ge> 0 then Some (- 1, t)
     else do {
       let ins = - pos - 1;
       let t = t\<lparr>used := (used t)[leaf := True]\<rparr>;
       if children (nd t leaf) = max_entries t then do {
         let split = (max_entries t + 1) div 2;
         (sibling, t) \<leftarrow> leaf_new t;
         (split_key, t) \<leftarrow>
           (if ins < split then leaf_split_left t leaf sibling key data ins
            else leaf_split_right t leaf sibling key data ins);
         if ins < split then parent_node_build (non_leaf_insert (fuel_of t)) t sibling leaf split_key
         else parent_node_build (non_leaf_insert (fuel_of t)) t leaf sibling split_key
       } else do {
         t \<leftarrow> leaf_simple_insert t leaf key data ins;
         t \<leftarrow> node_flush t (Some leaf);
         Some (0, t)
       }
     }
   }"

definition bplus_tree_insert ::
  "bplus_tree \<Rightarrow> int \<Rightarrow> int \<Rightarrow> (int \<times> bplus_tree) option" where
  "bplus_tree_insert t key data = do {
     (node, t) \<leftarrow> node_seek t (root t);
     (node, t) \<leftarrow> descend (fuel_of t) t node key;
     case node of
       Some leaf \<Rightarrow> leaf_insert t leaf key data
     | None \<Rightarrow> do {
         (rt, t) \<leftarrow> leaf_new t;
         t \<leftarrow> set_key t rt 0 key;
         t \<leftarrow> set_data t rt 0 data;
         let t = upd t rt (\<lambda>n. n\<lparr>children := 1\<rparr>);
         let (off, t) = new_node_append t rt;
         let t = t\<lparr>root := off, level := 1\<rparr>;
         t \<leftarrow> node_flush t (Some rt);
         Some (0, t)
       }
   }"

end
