(* ===== verification/BPlus_Store.thy ===== *)
theory BPlus_Store
  imports BPlus_Insert
begin

section \<open>Effects of the block operations on slots and disk\<close>

text \<open>
  What fetching, flushing and linking blocks does, stated on the slot contents (\<open>nd\<close>),
  the set of referenced slots (\<open>live\<close>) and the disk. Each operation is described by an
  elimination rule that names the state after it, so that the proofs about splits and
  climbs work with named states and not with nested record updates.
\<close>

subsection \<open>Effects of the block operations\<close>

lemma slots_wf_sel [simp]:
  "slots_wf (upd t p f) = slots_wf t" "slots_wf (t\<lparr>disk := D\<rparr>) = slots_wf t"
  "slots_wf (t\<lparr>root := r\<rparr>) = slots_wf t" "slots_wf (t\<lparr>level := l\<rparr>) = slots_wf t"
  "slots_wf (t\<lparr>file_size := s\<rparr>) = slots_wf t" "slots_wf (t\<lparr>free_blocks := fs\<rparr>) = slots_wf t"
  "slots_wf (cache_defer t p) = slots_wf t"
  by (simp_all add: slots_wf_def)

lemma live_bound: "p \<in> live t \<Longrightarrow> p < MIN_CACHE_NUM"
  by (simp add: live_def)

lemma used_live: "p \<notin> live t \<Longrightarrow> p < MIN_CACHE_NUM \<Longrightarrow> \<not> used t ! p"
  by (simp add: live_def)

lemma list_update_False: "\<not> us ! q \<Longrightarrow> us[q := False] = us"
  by (metis list_update_id)

lemma fetch_spec:
  assumes "slots_wf t" "\<exists>p<MIN_CACHE_NUM. p \<notin> live t" "disk t x = Some b" "x \<noteq> INVALID_OFFSET"
  obtains q where "node_fetch t x = Some (Some q, t\<lparr>caches := (caches t)[q := b], used := (used t)[q := True]\<rparr>)"
    "q < MIN_CACHE_NUM" "q \<notin> live t"
proof -
  obtain q where "free_slot t = Some q" "q < MIN_CACHE_NUM" "q \<notin> live t"
    using free_slot_Some [OF assms(2)] .
  with assms show ?thesis
    by (intro that [of q]) (simp_all add: node_fetch_def cache_refer_def upd_def nd_def)
qed

lemma fetch_INVALID [simp]: "node_fetch t INVALID_OFFSET = Some (None, t)"
  by (simp add: node_fetch_def)

text \<open>Setting the parents of a set of blocks, and the links of a neighbouring block.\<close>

definition set_par :: "int \<Rightarrow> int set \<Rightarrow> (int \<rightharpoonup> bplus_node) \<Rightarrow> (int \<rightharpoonup> bplus_node)" where
  "set_par x S D = (\<lambda>y. if y \<in> S then map_option (\<lambda>b. b\<lparr>parent := x\<rparr>) (D y) else D y)"

definition nxt_upd :: "int \<Rightarrow> int \<Rightarrow> (int \<rightharpoonup> bplus_node) \<Rightarrow> (int \<rightharpoonup> bplus_node)" where
  "nxt_upd y x D = (if y = INVALID_OFFSET then D
     else D(y := map_option (\<lambda>b. b\<lparr>nxt := x\<rparr>) (D y)))"

definition prev_upd :: "int \<Rightarrow> int \<Rightarrow> (int \<rightharpoonup> bplus_node) \<Rightarrow> (int \<rightharpoonup> bplus_node)" where
  "prev_upd y x D = (if y = INVALID_OFFSET then D
     else D(y := map_option (\<lambda>b. b\<lparr>prev := x\<rparr>) (D y)))"

lemma set_par_insert: "set_par x (insert y S) D = set_par x S (set_par x {y} D)"
  by (auto simp: set_par_def fun_eq_iff option.map_comp comp_def)

lemma set_par_empty [simp]: "set_par x {} D = D"
  by (simp add: set_par_def)

lemma set_par_single: "D y = Some b \<Longrightarrow> D(y \<mapsto> b\<lparr>parent := x\<rparr>) = set_par x {y} D"
  by (auto simp: set_par_def fun_eq_iff)

text \<open>A block that can be fetched: it is on disk and knows its own offset.\<close>

definition on_disk :: "(int \<rightharpoonup> bplus_node) \<Rightarrow> int \<Rightarrow> bool" where
  "on_disk D x \<longleftrightarrow> x \<noteq> INVALID_OFFSET \<and> (\<exists>b. D x = Some b \<and> self b = x)"

lemma sub_node_flush_spec:
  assumes "slots_wf t" "\<exists>p<MIN_CACHE_NUM. p \<notin> live t" "on_disk (disk t) x" "p \<in> live t"
  obtains cs where "sub_node_flush t p x =
      Some (t\<lparr>caches := cs, disk := set_par (self (nd t p)) {x} (disk t)\<rparr>)"
    "length cs = MIN_CACHE_NUM" "\<forall>q\<in>live t. cs ! q = nd t q"
proof -
  from assms(3) obtain b where b: "disk t x = Some b" "self b = x" "x \<noteq> INVALID_OFFSET"
    by (auto simp: on_disk_def)
  obtain q where q: "node_fetch t x = Some (Some q, t\<lparr>caches := (caches t)[q := b], used := (used t)[q := True]\<rparr>)"
    "q < MIN_CACHE_NUM" "q \<notin> live t"
    using fetch_spec [OF assms(1,2) b(1,3)] .
  have "p \<noteq> q" "p < MIN_CACHE_NUM" using assms(4) q(3) live_bound by auto
  have "sub_node_flush t p x = Some (t\<lparr>caches := (caches t)[q := b\<lparr>parent := self (nd t p)\<rparr>],
      disk := set_par (self (nd t p)) {x} (disk t)\<rparr>)"
    using q b assms(1) \<open>p \<noteq> q\<close> used_live [OF q(3,2)]
    by (simp add: sub_node_flush_def node_flush_def upd_def nd_def cache_defer_def slots_wf_def
        list_update_False set_par_single)
  then show ?thesis
    using assms(1) q(3)
    by (intro that [of "(caches t)[q := b\<lparr>parent := self (nd t p)\<rparr>]"])
       (auto simp: slots_wf_def nd_def intro: nth_list_update_neq)
qed

lemma flush_subs_spec:
  assumes "slots_wf t" "\<exists>p<MIN_CACHE_NUM. p \<notin> live t" "p \<in> live t"
    and "\<forall>i\<in>set is. 0 \<le> i \<and> nat i < length (subs (nd t p)) \<and> on_disk (disk t) (subs (nd t p) ! nat i)"
  shows "\<exists>cs. flush_subs t p is = Some (t\<lparr>caches := cs,
      disk := set_par (self (nd t p)) ((\<lambda>i. subs (nd t p) ! nat i) ` set is) (disk t)\<rparr>) \<and>
    length cs = MIN_CACHE_NUM \<and> (\<forall>q\<in>live t. cs ! q = nd t q)"
  using assms
proof (induction "is" arbitrary: t)
  case Nil
  then show ?case
    by (intro exI [of _ "caches t"]) (simp add: slots_wf_def nd_def)
next
  case (Cons i "is")
  let ?x = "subs (nd t p) ! nat i"
  have i: "get_sub t p i = Some ?x" "on_disk (disk t) ?x"
    using Cons.prems(4) by (auto simp: get_sub_def aget_def)
  obtain cs where cs: "sub_node_flush t p ?x =
      Some (t\<lparr>caches := cs, disk := set_par (self (nd t p)) {?x} (disk t)\<rparr>)"
    "length cs = MIN_CACHE_NUM" "\<forall>q\<in>live t. cs ! q = nd t q"
    using sub_node_flush_spec [OF Cons.prems(1,2) i(2) Cons.prems(3)] .
  let ?t = "t\<lparr>caches := cs, disk := set_par (self (nd t p)) {?x} (disk t)\<rparr>"
  have nd: "nd ?t p = nd t p"
    using cs(3) Cons.prems(3) by (simp add: nd_def)
  have "\<exists>cs'. flush_subs ?t p is = Some (?t\<lparr>caches := cs',
      disk := set_par (self (nd ?t p)) ((\<lambda>i. subs (nd ?t p) ! nat i) ` set is) (disk ?t)\<rparr>) \<and>
    length cs' = MIN_CACHE_NUM \<and> (\<forall>q\<in>live ?t. cs' ! q = nd ?t q)"
  proof (rule Cons.IH)
    show "slots_wf ?t" using Cons.prems(1) cs(2) by (simp add: slots_wf_def)
    show "\<exists>p<MIN_CACHE_NUM. p \<notin> live ?t" "p \<in> live ?t"
      using Cons.prems(2,3) by (simp_all add: live_def)
    show "\<forall>i\<in>set is. 0 \<le> i \<and> nat i < length (subs (nd ?t p)) \<and> on_disk (disk ?t) (subs (nd ?t p) ! nat i)"
      using Cons.prems(4) nd by (auto simp: on_disk_def set_par_def)
  qed
  then obtain cs' where "flush_subs ?t p is = Some (?t\<lparr>caches := cs',
      disk := set_par (self (nd ?t p)) ((\<lambda>i. subs (nd ?t p) ! nat i) ` set is) (disk ?t)\<rparr>)"
    "length cs' = MIN_CACHE_NUM" "\<forall>q\<in>live ?t. cs' ! q = nd ?t q"
    by blast
  with i(1) cs nd show ?case
    by (auto simp: live_def nd_def set_par_insert [symmetric] intro!: exI [of _ cs'])
qed

lemma new_node_append_spec:
  assumes "alloc_ok t S" "cfg_ok t"
  obtains x fs fb where "new_node_append t p =
      (x, upd (t\<lparr>file_size := fs, free_blocks := fb\<rparr>) p (\<lambda>n. n\<lparr>self := x\<rparr>))"
    "x \<notin> S" "alloc_ok (t\<lparr>file_size := fs, free_blocks := fb\<rparr>) (insert x S)"
proof (cases "free_blocks t")
  case Nil
  let ?t = "t\<lparr>file_size := file_size t + block_size t, free_blocks := []\<rparr>"
  have "?t = t\<lparr>file_size := file_size t + block_size t\<rparr>"
    unfolding Nil [symmetric] by simp
  then have "new_node_append t p = (file_size t, upd ?t p (\<lambda>n. n\<lparr>self := file_size t\<rparr>))"
    by (simp only: new_node_append_def Nil list.case)
  moreover have "file_size t \<notin> S" "alloc_ok ?t (insert (file_size t) S)"
    using assms Nil by (auto simp: alloc_ok_def cfg_ok_def)
  ultimately show ?thesis by (rule that)
next
  case (Cons x rest)
  with assms show ?thesis
    by (intro that [where fs = "file_size t" and fb = rest]) (auto simp: new_node_append_def alloc_ok_def)
qed

lemma sub_node_update_spec:
  assumes "slots_wf t" "p \<in> live t" "c \<in> live t" "p \<noteq> c" "self (nd t c) \<noteq> INVALID_OFFSET"
    and "i < length (subs (nd t p))"
  shows "sub_node_update t p (int i) c =
    Some (cache_defer ((upd (upd t p (\<lambda>n. n\<lparr>subs := (subs n)[i := self (nd t c)]\<rparr>)) c
        (\<lambda>n. n\<lparr>parent := self (nd t p)\<rparr>))
      \<lparr>disk := (disk t)(self (nd t c) \<mapsto> (nd t c)\<lparr>parent := self (nd t p)\<rparr>)\<rparr>) c)"
  using assms live_bound [OF assms(2)] live_bound [OF assms(3)]
  by (simp add: sub_node_update_def slot_simps node_flush_def slots_wf_def cache_defer_def)

text \<open>
  \<open>quiet t t'\<close>: from \<open>t\<close> to \<open>t'\<close> only slots and blocks were changed; \<open>calm\<close> allows changes
  of the allocation state as well.
\<close>

definition env :: "bplus_tree \<Rightarrow> int \<times> int \<times> int" where
  "env t = (max_entries t, max_order t, block_size t)"

definition calm :: "bplus_tree \<Rightarrow> bplus_tree \<Rightarrow> bool" where
  "calm t t' \<longleftrightarrow> slots_wf t' \<and> env t' = env t \<and> root t' = root t"

definition quiet :: "bplus_tree \<Rightarrow> bplus_tree \<Rightarrow> bool" where
  "quiet t t' \<longleftrightarrow> calm t t' \<and> file_size t' = file_size t \<and> free_blocks t' = free_blocks t"

lemma quiet_calm: "quiet t t' \<Longrightarrow> calm t t'"
  by (simp add: quiet_def)

lemma calm_trans: "calm t t' \<Longrightarrow> calm t' t'' \<Longrightarrow> calm t t''"
  by (simp add: calm_def)

lemma quiet_trans: "quiet t t' \<Longrightarrow> quiet t' t'' \<Longrightarrow> quiet t t''"
  by (simp add: quiet_def calm_def)

lemma quiet_refl: "slots_wf t \<Longrightarrow> quiet t t"
  by (simp add: quiet_def calm_def)

lemma quiet_upd: "slots_wf t \<Longrightarrow> quiet t (upd t p f)"
  by (simp add: quiet_def calm_def env_def)

lemma quiet_caches_disk: "slots_wf t \<Longrightarrow> length cs = MIN_CACHE_NUM \<Longrightarrow> quiet t (t\<lparr>caches := cs, disk := D\<rparr>)"
  by (simp add: quiet_def calm_def env_def slots_wf_def)

lemma alloc_ok_quiet: "quiet t t' \<Longrightarrow> alloc_ok t' S = alloc_ok t S"
  by (simp add: quiet_def calm_def env_def alloc_ok_def)

lemma cfg_ok_calm: "calm t t' \<Longrightarrow> cfg_ok t' = cfg_ok t"
  by (simp add: calm_def env_def cfg_ok_def)

lemma fetch_eff:
  assumes "slots_wf t" "\<exists>p<MIN_CACHE_NUM. p \<notin> live t" "disk t x = Some b" "x \<noteq> INVALID_OFFSET"
  obtains q t' where "node_fetch t x = Some (Some q, t')" "q < MIN_CACHE_NUM" "q \<notin> live t"
    "quiet t t'" "live t' = insert q (live t)" "nd t' q = b" "\<forall>r. r \<noteq> q \<longrightarrow> nd t' r = nd t r"
    "disk t' = disk t"
proof -
  obtain q where q: "node_fetch t x = Some (Some q, t\<lparr>caches := (caches t)[q := b], used := (used t)[q := True]\<rparr>)"
    "q < MIN_CACHE_NUM" "q \<notin> live t"
    using fetch_spec [OF assms] .
  show ?thesis
  proof (rule that [OF q])
    show "live (t\<lparr>caches := (caches t)[q := b], used := (used t)[q := True]\<rparr>) = insert q (live t)"
      using live_used [of t q] assms(1) q(2) by (simp add: slots_wf_def live_def)
  qed (use assms(1) q(2) in \<open>simp_all add: quiet_def calm_def env_def slots_wf_def nd_def\<close>)
qed

lemma flush_eff:
  assumes "slots_wf t"
  obtains t' where "node_flush t (Some p) = Some t'" "quiet t t'" "live t' = live t - {p}"
    "\<forall>q. nd t' q = nd t q" "disk t' = (disk t)(self (nd t p) \<mapsto> nd t p)"
proof -
  let ?t = "cache_defer (t\<lparr>disk := (disk t)(self (nd t p) \<mapsto> nd t p)\<rparr>) p"
  have e: "node_flush t (Some p) = Some ?t" by (simp add: node_flush_def)
  show ?thesis
    by (rule that [OF e])
       (use assms live_defer [of "t\<lparr>disk := (disk t)(self (nd t p) \<mapsto> nd t p)\<rparr>" p]
        in \<open>simp_all add: quiet_def calm_def env_def nd_record slots_wf_def\<close>)
qed

lemma left_node_add_spec:
  assumes wf: "slots_wf t" and room: "\<exists>p<MIN_CACHE_NUM. p \<notin> live t" and al: "alloc_ok t S" "cfg_ok t"
    and ns: "node \<in> live t" "left \<in> live t" "node \<noteq> left"
    and pv: "prev (nd t node) = INVALID_OFFSET \<or> on_disk (disk t) (prev (nd t node))"
  obtains t' x where "left_node_add t node left = Some t'" "x \<notin> S" "alloc_ok t' (insert x S)"
    "calm t t'" "live t' = live t"
    "nd t' left = (nd t left)\<lparr>self := x, prev := prev (nd t node), nxt := self (nd t node)\<rparr>"
    "nd t' node = (nd t node)\<lparr>prev := x\<rparr>"
    "\<forall>q\<in>live t. q \<noteq> left \<longrightarrow> q \<noteq> node \<longrightarrow> nd t' q = nd t q"
    "disk t' = nxt_upd (prev (nd t node)) x (disk t)"
proof -
  obtain x fs fb where x: "new_node_append t left =
      (x, upd (t\<lparr>file_size := fs, free_blocks := fb\<rparr>) left (\<lambda>n. n\<lparr>self := x\<rparr>))"
    "x \<notin> S" "alloc_ok (t\<lparr>file_size := fs, free_blocks := fb\<rparr>) (insert x S)"
    using new_node_append_spec [OF al] .
  define t1 where "t1 = upd (t\<lparr>file_size := fs, free_blocks := fb\<rparr>) left (\<lambda>n. n\<lparr>self := x\<rparr>)"
  have b: "node < length (caches t)" "left < length (caches t)"
    using wf ns live_bound by (auto simp: slots_wf_def)
  have t1: "slots_wf t1" "live t1 = live t" "disk t1 = disk t" "calm t t1" "alloc_ok t1 (insert x S)"
      "nd t1 left = (nd t left)\<lparr>self := x\<rparr>" "\<forall>q. q \<noteq> left \<longrightarrow> nd t1 q = nd t q"
    using wf x(3) b by (simp_all add: t1_def calm_def env_def slot_simps alloc_ok_def)
  have len1: "length (caches t1) = MIN_CACHE_NUM"
    using t1(1) by (simp add: slots_wf_def)
  show ?thesis
  proof (cases "prev (nd t node) = INVALID_OFFSET")
    case True
    define t2 where "t2 = upd (upd (upd t1 left (\<lambda>n. n\<lparr>prev := INVALID_OFFSET\<rparr>))
        left (\<lambda>n. n\<lparr>nxt := self (nd t node)\<rparr>)) node (\<lambda>n. n\<lparr>prev := x\<rparr>)"
    have e: "left_node_add t node left = Some t2"
      using True ns t1 b len1 live_bound
      by (simp add: left_node_add_def x(1) t1_def [symmetric] slot_simps t2_def)
    show ?thesis
      by (rule that [OF e x(2)])
         (use True t1 ns len1 live_bound in
           \<open>auto simp: t2_def slot_simps calm_def env_def nxt_upd_def alloc_ok_def\<close>)
  next
    case False
    with pv obtain pb where pb: "disk t1 (prev (nd t node)) = Some pb" "self pb = prev (nd t node)"
      by (auto simp: on_disk_def t1)
    obtain q t2 where q: "node_fetch t1 (prev (nd t node)) = Some (Some q, t2)" "q < MIN_CACHE_NUM" "q \<notin> live t1"
      "quiet t1 t2" "live t2 = insert q (live t1)" "nd t2 q = pb" "\<forall>r. r \<noteq> q \<longrightarrow> nd t2 r = nd t1 r"
      "disk t2 = disk t1"
      using fetch_eff [OF t1(1) _ pb(1) False] room by (auto simp: t1)
    define t3 where "t3 = upd (upd t2 q (\<lambda>n. n\<lparr>nxt := x\<rparr>)) left (\<lambda>n. n\<lparr>prev := prev (nd t node)\<rparr>)"
    have wf2: "slots_wf t2" "length (caches t2) = MIN_CACHE_NUM"
      using q(4) by (simp_all add: quiet_def calm_def slots_wf_def)
    have qn: "q \<noteq> left" "q \<noteq> node" using q(3) ns t1(2) by auto
    have t3: "nd t3 q = pb\<lparr>nxt := x\<rparr>" "nd t3 left = (nd t left)\<lparr>self := x, prev := prev (nd t node)\<rparr>"
      "\<forall>r. r \<noteq> q \<longrightarrow> r \<noteq> left \<longrightarrow> nd t3 r = nd t r" "slots_wf t3" "live t3 = insert q (live t)" "disk t3 = disk t"
      using wf2 qn q t1 ns live_bound by (auto simp: t3_def slot_simps)
    obtain t4 where t4: "node_flush t3 (Some q) = Some t4" "quiet t3 t4" "live t4 = live t3 - {q}"
        "\<forall>r. nd t4 r = nd t3 r" "disk t4 = (disk t3)(self (nd t3 q) \<mapsto> nd t3 q)"
      using flush_eff [OF t3(4)] .
    define t5 where "t5 = upd (upd t4 left (\<lambda>n. n\<lparr>nxt := self (nd t node)\<rparr>)) node (\<lambda>n. n\<lparr>prev := x\<rparr>)"
    have wf4: "slots_wf t4" "length (caches t4) = MIN_CACHE_NUM"
      using t4(2) by (simp_all add: quiet_def calm_def slots_wf_def)
    have f3: "upd (upd t2 q (\<lambda>n. n\<lparr>nxt := x\<rparr>)) left (\<lambda>n. n\<lparr>prev :=
        self (nd (upd t2 q (\<lambda>n. n\<lparr>nxt := x\<rparr>)) q)\<rparr>) = t3"
      using q(2,6) wf2 pb(2) by (simp add: t3_def slot_simps)
    have f5: "upd (upd t4 left (\<lambda>n. n\<lparr>nxt := self (nd t4 node)\<rparr>)) node
        (\<lambda>n. n\<lparr>prev := self (nd (upd t4 left (\<lambda>n. n\<lparr>nxt := self (nd t4 node)\<rparr>)) left)\<rparr>) = t5"
      using ns qn live_bound wf4 t3 t4(4) by (simp add: t5_def slot_simps)
    have s2: "self (nd t2 left) = x" using q(7) qn t1(6) by simp
    have e: "left_node_add t node left = Some t5"
      using ns t1(7) q(1) t4(1) False f3 f5 s2
      by (simp add: left_node_add_def x(1) t1_def [symmetric] Let_def)
    have c: "calm t t5"
      using t1(4) q(4) t4(2) wf4 by (simp add: t5_def t3_def calm_def quiet_def env_def)
    show ?thesis
    proof (rule that [OF e x(2) _ c])
      show "alloc_ok t5 (insert x S)"
        using t1(5) q(4) t4(2) by (simp add: t5_def t3_def calm_def quiet_def env_def alloc_ok_def)
      show "live t5 = live t" using t3(5) t4(3) q(3) t1(2) by (simp add: t5_def)
      show "disk t5 = nxt_upd (prev (nd t node)) x (disk t)"
        using False pb t4(5) t3 t1(3) by (simp add: t5_def nxt_upd_def)
      have "r \<in> live t \<Longrightarrow> r \<noteq> q" for r using q(3) t1(2) by auto
      then show "\<forall>r\<in>live t. r \<noteq> left \<longrightarrow> r \<noteq> node \<longrightarrow> nd t5 r = nd t r"
        using t3(3) t4(4) wf4 ns live_bound by (simp add: t5_def slot_simps)
    qed (use wf4 t4(4) t3 ns qn live_bound in \<open>auto simp: t5_def slot_simps\<close>)
  qed
qed

lemma right_node_add_spec:
  assumes wf: "slots_wf t" and room: "\<exists>p<MIN_CACHE_NUM. p \<notin> live t" and al: "alloc_ok t S" "cfg_ok t"
    and ns: "node \<in> live t" "right \<in> live t" "node \<noteq> right"
    and pv: "nxt (nd t node) = INVALID_OFFSET \<or> on_disk (disk t) (nxt (nd t node))"
  obtains t' x where "right_node_add t node right = Some t'" "x \<notin> S" "alloc_ok t' (insert x S)"
    "calm t t'" "live t' = live t"
    "nd t' right = (nd t right)\<lparr>self := x, nxt := nxt (nd t node), prev := self (nd t node)\<rparr>"
    "nd t' node = (nd t node)\<lparr>nxt := x\<rparr>"
    "\<forall>q\<in>live t. q \<noteq> right \<longrightarrow> q \<noteq> node \<longrightarrow> nd t' q = nd t q"
    "disk t' = prev_upd (nxt (nd t node)) x (disk t)"
proof -
  obtain x fs fb where x: "new_node_append t right =
      (x, upd (t\<lparr>file_size := fs, free_blocks := fb\<rparr>) right (\<lambda>n. n\<lparr>self := x\<rparr>))"
    "x \<notin> S" "alloc_ok (t\<lparr>file_size := fs, free_blocks := fb\<rparr>) (insert x S)"
    using new_node_append_spec [OF al] .
  define t1 where "t1 = upd (t\<lparr>file_size := fs, free_blocks := fb\<rparr>) right (\<lambda>n. n\<lparr>self := x\<rparr>)"
  have b: "node < length (caches t)" "right < length (caches t)"
    using wf ns live_bound by (auto simp: slots_wf_def)
  have t1: "slots_wf t1" "live t1 = live t" "disk t1 = disk t" "calm t t1" "alloc_ok t1 (insert x S)"
      "nd t1 right = (nd t right)\<lparr>self := x\<rparr>" "\<forall>q. q \<noteq> right \<longrightarrow> nd t1 q = nd t q"
    using wf x(3) b by (simp_all add: t1_def calm_def env_def slot_simps alloc_ok_def)
  have len1: "length (caches t1) = MIN_CACHE_NUM"
    using t1(1) by (simp add: slots_wf_def)
  show ?thesis
  proof (cases "nxt (nd t node) = INVALID_OFFSET")
    case True
    define t2 where "t2 = upd (upd (upd t1 right (\<lambda>n. n\<lparr>nxt := INVALID_OFFSET\<rparr>))
        right (\<lambda>n. n\<lparr>prev := self (nd t node)\<rparr>)) node (\<lambda>n. n\<lparr>nxt := x\<rparr>)"
    have e: "right_node_add t node right = Some t2"
      using True ns t1 b len1 live_bound
      by (simp add: right_node_add_def x(1) t1_def [symmetric] slot_simps t2_def)
    show ?thesis
      by (rule that [OF e x(2)])
         (use True t1 ns len1 live_bound in
           \<open>auto simp: t2_def slot_simps calm_def env_def prev_upd_def alloc_ok_def\<close>)
  next
    case False
    with pv obtain pb where pb: "disk t1 (nxt (nd t node)) = Some pb" "self pb = nxt (nd t node)"
      by (auto simp: on_disk_def t1)
    obtain q t2 where q: "node_fetch t1 (nxt (nd t node)) = Some (Some q, t2)" "q < MIN_CACHE_NUM" "q \<notin> live t1"
      "quiet t1 t2" "live t2 = insert q (live t1)" "nd t2 q = pb" "\<forall>r. r \<noteq> q \<longrightarrow> nd t2 r = nd t1 r"
      "disk t2 = disk t1"
      using fetch_eff [OF t1(1) _ pb(1) False] room by (auto simp: t1)
    define t3 where "t3 = upd (upd t2 q (\<lambda>n. n\<lparr>prev := x\<rparr>)) right (\<lambda>n. n\<lparr>nxt := nxt (nd t node)\<rparr>)"
    have wf2: "slots_wf t2" "length (caches t2) = MIN_CACHE_NUM"
      using q(4) by (simp_all add: quiet_def calm_def slots_wf_def)
    have qn: "q \<noteq> right" "q \<noteq> node" using q(3) ns t1(2) by auto
    have t3: "nd t3 q = pb\<lparr>prev := x\<rparr>" "nd t3 right = (nd t right)\<lparr>self := x, nxt := nxt (nd t node)\<rparr>"
      "\<forall>r. r \<noteq> q \<longrightarrow> r \<noteq> right \<longrightarrow> nd t3 r = nd t r" "slots_wf t3" "live t3 = insert q (live t)" "disk t3 = disk t"
      using wf2 qn q t1 ns live_bound by (auto simp: t3_def slot_simps)
    obtain t4 where t4: "node_flush t3 (Some q) = Some t4" "quiet t3 t4" "live t4 = live t3 - {q}"
        "\<forall>r. nd t4 r = nd t3 r" "disk t4 = (disk t3)(self (nd t3 q) \<mapsto> nd t3 q)"
      using flush_eff [OF t3(4)] .
    define t5 where "t5 = upd (upd t4 right (\<lambda>n. n\<lparr>prev := self (nd t node)\<rparr>)) node (\<lambda>n. n\<lparr>nxt := x\<rparr>)"
    have wf4: "slots_wf t4" "length (caches t4) = MIN_CACHE_NUM"
      using t4(2) by (simp_all add: quiet_def calm_def slots_wf_def)
    have f3: "upd (upd t2 q (\<lambda>n. n\<lparr>prev := x\<rparr>)) right (\<lambda>n. n\<lparr>nxt :=
        self (nd (upd t2 q (\<lambda>n. n\<lparr>prev := x\<rparr>)) q)\<rparr>) = t3"
      using q(2,6) wf2 pb(2) by (simp add: t3_def slot_simps)
    have f5: "upd (upd t4 right (\<lambda>n. n\<lparr>prev := self (nd t4 node)\<rparr>)) node
        (\<lambda>n. n\<lparr>nxt := self (nd (upd t4 right (\<lambda>n. n\<lparr>prev := self (nd t4 node)\<rparr>)) right)\<rparr>) = t5"
      using ns qn live_bound wf4 t3 t4(4) by (simp add: t5_def slot_simps)
    have s2: "self (nd t2 right) = x" using q(7) qn t1(6) by simp
    have e: "right_node_add t node right = Some t5"
      using ns t1(7) q(1) t4(1) False f3 f5 s2
      by (simp add: right_node_add_def x(1) t1_def [symmetric] Let_def)
    have c: "calm t t5"
      using t1(4) q(4) t4(2) wf4 by (simp add: t5_def t3_def calm_def quiet_def env_def)
    show ?thesis
    proof (rule that [OF e x(2) _ c])
      show "alloc_ok t5 (insert x S)"
        using t1(5) q(4) t4(2) by (simp add: t5_def t3_def calm_def quiet_def env_def alloc_ok_def)
      show "live t5 = live t" using t3(5) t4(3) q(3) t1(2) by (simp add: t5_def)
      show "disk t5 = prev_upd (nxt (nd t node)) x (disk t)"
        using False pb t4(5) t3 t1(3) by (simp add: t5_def prev_upd_def)
      have "r \<in> live t \<Longrightarrow> r \<noteq> q" for r using q(3) t1(2) by auto
      then show "\<forall>r\<in>live t. r \<noteq> right \<longrightarrow> r \<noteq> node \<longrightarrow> nd t5 r = nd t r"
        using t3(3) t4(4) wf4 ns live_bound by (simp add: t5_def slot_simps)
    qed (use wf4 t4(4) t3 ns qn live_bound in \<open>auto simp: t5_def slot_simps\<close>)
  qed
qed

subsection \<open>Running a sequence of operations\<close>

text \<open>
  \<open>wp m Q\<close>: the operation \<open>m\<close> returns, with a result in \<open>Q\<close>. \<open>rep t0 t V D\<close> describes a state
  \<open>t\<close> reached from \<open>t0\<close> by slot and block accesses: the referenced slots are those of the
  map \<open>V\<close>, with the contents it gives, and the disk is \<open>D\<close>. The rules below run the
  operations of the source over such descriptions, one rule per operation.
\<close>

named_theorems wp_intro

definition wp :: "'a option \<Rightarrow> ('a \<Rightarrow> bool) \<Rightarrow> bool" where
  "wp m Q \<longleftrightarrow> (\<exists>y. m = Some y \<and> Q y)"

lemma wp_Some [wp_intro]: "Q y \<Longrightarrow> wp (Some y) Q"
  by (simp add: wp_def)

lemma wp_bind [wp_intro]: "wp m (\<lambda>y. wp (f y) Q) \<Longrightarrow> wp (m \<bind> f) Q"
  by (auto simp: wp_def)

lemma wp_mono: "wp m Q \<Longrightarrow> (\<And>y. Q y \<Longrightarrow> Q' y) \<Longrightarrow> wp m Q'"
  by (auto simp: wp_def)

lemma wp_if: "(b \<Longrightarrow> wp m Q) \<Longrightarrow> (\<not> b \<Longrightarrow> wp m' Q) \<Longrightarrow> wp (if b then m else m') Q"
  by simp

lemma wpE: "wp m Q \<Longrightarrow> (\<And>y. m = Some y \<Longrightarrow> Q y \<Longrightarrow> thesis) \<Longrightarrow> thesis"
  by (auto simp: wp_def)

definition rep :: "bplus_tree \<Rightarrow> bplus_tree \<Rightarrow> (nat \<rightharpoonup> bplus_node) \<Rightarrow> (int \<rightharpoonup> bplus_node) \<Rightarrow> bool" where
  "rep t0 t V D \<longleftrightarrow> quiet t0 t \<and> live t = dom V \<and> (\<forall>p b. V p = Some b \<longrightarrow> nd t p = b) \<and> disk t = D"

definition room :: "(nat \<rightharpoonup> bplus_node) \<Rightarrow> bool" where
  "room V \<longleftrightarrow> (\<exists>p<MIN_CACHE_NUM. p \<notin> dom V)"

lemma room_upd [simp]: "p \<in> dom V \<Longrightarrow> room (V(p \<mapsto> b)) = room V"
  by (simp add: room_def insert_absorb)

lemma room_del [simp]: "room V \<Longrightarrow> room (V(p := None))"
  by (auto simp: room_def)

lemma room_le_4: "dom V \<subseteq> {a, b, c, d} \<Longrightarrow> room V"
proof (rule ccontr)
  assume "dom V \<subseteq> {a, b, c, d}" "\<not> room V"
  then have "{..<MIN_CACHE_NUM} \<subseteq> {a, b, c, d}" unfolding room_def by blast
  then have "card {..<MIN_CACHE_NUM} \<le> card {a, b, c, d}" by (intro card_mono) auto
  also have "card {a, b, c, d} \<le> 4" by (simp add: card_insert_if)
  finally show False by (simp add: MIN_CACHE_NUM_def)
qed

lemma repD:
  assumes "rep t0 t V D"
  shows "slots_wf t" "length (caches t) = MIN_CACHE_NUM" "live t = dom V" "disk t = D" "quiet t0 t"
    "p \<in> dom V \<Longrightarrow> nd t p = the (V p)" "p \<in> dom V \<Longrightarrow> p < MIN_CACHE_NUM"
    "max_order t = max_order t0" "max_entries t = max_entries t0"
    "block_size t = block_size t0" "root t = root t0"
  using assms live_bound [of p t] by (auto simp: rep_def quiet_def calm_def slots_wf_def env_def)

lemma rep_self: "slots_wf t \<Longrightarrow> live t = dom V \<Longrightarrow> (\<And>p. p \<in> dom V \<Longrightarrow> nd t p = the (V p)) \<Longrightarrow>
    rep t t V (disk t)"
  by (auto simp: rep_def quiet_refl dom_def)

lemma rep_room: "rep t0 t V D \<Longrightarrow> room V \<Longrightarrow> \<exists>p<MIN_CACHE_NUM. p \<notin> live t"
  by (simp add: rep_def room_def)

lemma rep_upd:
  assumes "rep t0 t V D" "p \<in> dom V"
  shows "rep t0 (upd t p f) (V(p \<mapsto> f (the (V p)))) D"
proof -
  have "p < length (caches t)" "nd t p = the (V p)"
    using repD [OF assms(1)] assms(2) by auto
  then show ?thesis
    using assms quiet_trans [OF _ quiet_upd] repD(1) [OF assms(1)]
    by (auto simp: rep_def slot_simps insert_absorb)
qed

lemma wp_let_upd [wp_intro]:
  assumes "rep t0 t V D" "p \<in> dom V"
    "\<And>t'. rep t0 t' (V(p \<mapsto> f (the (V p)))) D \<Longrightarrow> wp (g t') Q"
  shows "wp (let t = upd t p f in g t) Q"
  using assms rep_upd [OF assms(1,2)] by simp

lemma wp_get [wp_intro]:
  "rep t0 t V D \<Longrightarrow> p \<in> dom V \<Longrightarrow> 0 \<le> i \<Longrightarrow> nat i < length (keys (the (V p))) \<Longrightarrow>
     Q (keys (the (V p)) ! nat i) \<Longrightarrow> wp (get_key t p i) Q"
  "rep t0 t V D \<Longrightarrow> p \<in> dom V \<Longrightarrow> 0 \<le> i \<Longrightarrow> nat i < length (subs (the (V p))) \<Longrightarrow>
     Q (subs (the (V p)) ! nat i) \<Longrightarrow> wp (get_sub t p i) Q"
  "rep t0 t V D \<Longrightarrow> p \<in> dom V \<Longrightarrow> 0 \<le> i \<Longrightarrow> nat i < length (datas (the (V p))) \<Longrightarrow>
     Q (datas (the (V p)) ! nat i) \<Longrightarrow> wp (get_data t p i) Q"
  by (simp_all add: wp_def get_key_def get_sub_def get_data_def aget_def repD nat_less_iff)

lemma wp_set [wp_intro]:
  "rep t0 t V D \<Longrightarrow> p \<in> dom V \<Longrightarrow> 0 \<le> i \<Longrightarrow> nat i < length (keys (the (V p))) \<Longrightarrow>
     (\<And>t'. rep t0 t' (V(p \<mapsto> (the (V p))\<lparr>keys := (keys (the (V p)))[nat i := v]\<rparr>)) D \<Longrightarrow> Q t') \<Longrightarrow>
     wp (set_key t p i v) Q"
  "rep t0 t V D \<Longrightarrow> p \<in> dom V \<Longrightarrow> 0 \<le> i \<Longrightarrow> nat i < length (subs (the (V p))) \<Longrightarrow>
     (\<And>t'. rep t0 t' (V(p \<mapsto> (the (V p))\<lparr>subs := (subs (the (V p)))[nat i := v]\<rparr>)) D \<Longrightarrow> Q t') \<Longrightarrow>
     wp (set_sub t p i v) Q"
  "rep t0 t V D \<Longrightarrow> p \<in> dom V \<Longrightarrow> 0 \<le> i \<Longrightarrow> nat i < length (datas (the (V p))) \<Longrightarrow>
     (\<And>t'. rep t0 t' (V(p \<mapsto> (the (V p))\<lparr>datas := (datas (the (V p)))[nat i := v]\<rparr>)) D \<Longrightarrow> Q t') \<Longrightarrow>
     wp (set_data t p i v) Q"
  using rep_upd [of t0 t V D p "\<lambda>n. n\<lparr>keys := (keys n)[nat i := v]\<rparr>"]
    rep_upd [of t0 t V D p "\<lambda>n. n\<lparr>subs := (subs n)[nat i := v]\<rparr>"]
    rep_upd [of t0 t V D p "\<lambda>n. n\<lparr>datas := (datas n)[nat i := v]\<rparr>"]
  by (simp_all add: wp_def set_key_def set_sub_def set_data_def aset_def repD nat_less_iff upd_def)

lemma wp_move_key [wp_intro]:
  assumes "rep t0 t V D" "d \<in> dom V" "s \<in> dom V" "0 \<le> di" "0 \<le> si" "0 \<le> n"
    "di + n \<le> int (length (keys (the (V d))))" "si + n \<le> int (length (keys (the (V s))))"
    "\<And>t'. rep t0 t' (V(d \<mapsto> (the (V d))\<lparr>keys :=
       blit (keys (the (V d))) (nat di) (keys (the (V s))) (nat si) (nat n)\<rparr>)) D \<Longrightarrow> Q t'"
  shows "wp (move_key t d di s si n) Q"
  using assms rep_upd [OF assms(1,2), of "\<lambda>x. x\<lparr>keys :=
       blit (keys x) (nat di) (keys (the (V s))) (nat si) (nat n)\<rparr>"]
  by (simp add: wp_def move_key_def memmove_def repD upd_def)

lemma wp_move_sub [wp_intro]:
  assumes "rep t0 t V D" "d \<in> dom V" "s \<in> dom V" "0 \<le> di" "0 \<le> si" "0 \<le> n"
    "di + n \<le> int (length (subs (the (V d))))" "si + n \<le> int (length (subs (the (V s))))"
    "\<And>t'. rep t0 t' (V(d \<mapsto> (the (V d))\<lparr>subs :=
       blit (subs (the (V d))) (nat di) (subs (the (V s))) (nat si) (nat n)\<rparr>)) D \<Longrightarrow> Q t'"
  shows "wp (move_sub t d di s si n) Q"
  using assms rep_upd [OF assms(1,2), of "\<lambda>x. x\<lparr>subs :=
       blit (subs x) (nat di) (subs (the (V s))) (nat si) (nat n)\<rparr>"]
  by (simp add: wp_def move_sub_def memmove_def repD upd_def)

lemma wp_move_data [wp_intro]:
  assumes "rep t0 t V D" "d \<in> dom V" "s \<in> dom V" "0 \<le> di" "0 \<le> si" "0 \<le> n"
    "di + n \<le> int (length (datas (the (V d))))" "si + n \<le> int (length (datas (the (V s))))"
    "\<And>t'. rep t0 t' (V(d \<mapsto> (the (V d))\<lparr>datas :=
       blit (datas (the (V d))) (nat di) (datas (the (V s))) (nat si) (nat n)\<rparr>)) D \<Longrightarrow> Q t'"
  shows "wp (move_data t d di s si n) Q"
  using assms rep_upd [OF assms(1,2), of "\<lambda>x. x\<lparr>datas :=
       blit (datas x) (nat di) (datas (the (V s))) (nat si) (nat n)\<rparr>"]
  by (simp add: wp_def move_data_def memmove_def repD upd_def)

lemma wp_flush [wp_intro]:
  assumes "rep t0 t V D" "p \<in> dom V"
    "\<And>t'. rep t0 t' (V(p := None)) (D(self (the (V p)) \<mapsto> the (V p))) \<Longrightarrow> Q t'"
  shows "wp (node_flush t (Some p)) Q"
proof -
  note r = repD [OF assms(1)]
  obtain t' where t': "node_flush t (Some p) = Some t'" "quiet t t'" "live t' = live t - {p}"
    "\<forall>q. nd t' q = nd t q" "disk t' = (disk t)(self (nd t p) \<mapsto> nd t p)"
    using flush_eff [OF r(1)] .
  have "rep t0 t' (V(p := None)) (D(self (the (V p)) \<mapsto> the (V p)))"
    using assms(1,2) t' quiet_trans r(6) [of p] by (auto simp: rep_def)
  with t'(1) assms(3) show ?thesis by (simp add: wp_def)
qed

lemma wp_fetch:
  assumes "rep t0 t V D" "room V" "D x = Some b" "x \<noteq> INVALID_OFFSET"
    "\<And>q t'. q \<notin> dom V \<Longrightarrow> rep t0 t' (V(q \<mapsto> b)) D \<Longrightarrow> Q (Some q, t')"
  shows "wp (node_fetch t x) Q"
proof -
  note r = repD [OF assms(1)]
  obtain q t' where q: "node_fetch t x = Some (Some q, t')" "q < MIN_CACHE_NUM" "q \<notin> live t"
    "quiet t t'" "live t' = insert q (live t)" "nd t' q = b" "\<forall>r. r \<noteq> q \<longrightarrow> nd t' r = nd t r"
    "disk t' = disk t"
    using fetch_eff [OF r(1) rep_room [OF assms(1,2)], of x b] assms(3,4) r(4) by metis
  have "rep t0 t' (V(q \<mapsto> b)) D"
    using assms(1) q quiet_trans by (auto simp: rep_def)
  with q(1,3) assms(5) r(3) show ?thesis by (simp add: wp_def)
qed

lemma wp_sub_node_update [wp_intro]:
  assumes "rep t0 t V D" "p \<in> dom V" "c \<in> dom V" "p \<noteq> c" "self (the (V c)) \<noteq> INVALID_OFFSET"
    "0 \<le> i" "nat i < length (subs (the (V p)))"
    "\<And>t'. rep t0 t' (V(p \<mapsto> (the (V p))\<lparr>subs := (subs (the (V p)))[nat i := self (the (V c))]\<rparr>, c := None))
      (D(self (the (V c)) \<mapsto> (the (V c))\<lparr>parent := self (the (V p))\<rparr>)) \<Longrightarrow> Q t'"
  shows "wp (sub_node_update t p i c) Q"
proof -
  have n: "nd t c = the (V c)" using repD(6) [OF assms(1,3)] .
  have "wp (set_sub t p i (self (the (V c))) \<bind>
      (\<lambda>t'. let t'' = upd t' c (\<lambda>n. n\<lparr>parent := self (nd t' p)\<rparr>) in node_flush t'' (Some c))) Q"
    apply (rule wp_bind, rule wp_set(2) [OF assms(1,2,6,7)])
    apply (frule repD(6) [where p = p], simp)
    apply (rule wp_let_upd, assumption, use assms(3) in simp)
    apply (rule wp_flush, assumption, simp)
    apply (use assms(2-5,8) in \<open>simp add: fun_upd_twist\<close>)
    done
  with n assms(5) show ?thesis by (simp add: sub_node_update_def)
qed

lemma wp_new_node:
  assumes "rep t0 t V D" "room V"
    "\<And>q t' b. q \<notin> dom V \<Longrightarrow> self b = INVALID_OFFSET \<Longrightarrow> parent b = INVALID_OFFSET \<Longrightarrow>
       prev b = INVALID_OFFSET \<Longrightarrow> nxt b = INVALID_OFFSET \<Longrightarrow> children b = 0 \<Longrightarrow>
       rep t0 t' (V(q \<mapsto> b)) D \<Longrightarrow> Q (q, t')"
  shows "wp (node_new t) Q"
proof -
  note r = repD [OF assms(1)]
  obtain q where q: "free_slot t = Some q" "q < MIN_CACHE_NUM" "q \<notin> live t"
    using free_slot_Some [OF rep_room [OF assms(1,2)]] .
  let ?u = "t\<lparr>used := (used t)[q := True]\<rparr>"
  let ?b = "(nd t q)\<lparr>self := INVALID_OFFSET, parent := INVALID_OFFSET,
       prev := INVALID_OFFSET, nxt := INVALID_OFFSET, children := 0\<rparr>"
  have l: "live ?u = insert q (live t)"
    using live_used [of t q] r(1) q(2) by (simp add: slots_wf_def)
  have "rep t0 ?u (V(q \<mapsto> nd t q)) D"
    using assms(1) l q(2,3) by (auto simp: rep_def slot_simps quiet_def calm_def slots_wf_def env_def)
  from rep_upd [OF this, of q "\<lambda>n. n\<lparr>self := INVALID_OFFSET, parent := INVALID_OFFSET,
       prev := INVALID_OFFSET, nxt := INVALID_OFFSET, children := 0\<rparr>"]
  have "rep t0 (upd ?u q (\<lambda>n. n\<lparr>self := INVALID_OFFSET, parent := INVALID_OFFSET,
       prev := INVALID_OFFSET, nxt := INVALID_OFFSET, children := 0\<rparr>)) (V(q \<mapsto> ?b)) D"
    by simp
  from assms(3) [OF _ _ _ _ _ _ this] q(3) r(3)
  show ?thesis by (simp add: wp_def node_new_def cache_refer_def q(1))
qed


lemma wp_non_leaf_new:
  assumes "rep t0 t V D" "room V"
    "\<And>q t' b. q \<notin> dom V \<Longrightarrow> header b INVALID_OFFSET INVALID_OFFSET INVALID_OFFSET INVALID_OFFSET \<Longrightarrow>
       ntype b = BPLUS_TREE_NON_LEAF \<Longrightarrow> length (keys b) = nat (max_order t0 - 1) \<Longrightarrow>
       length (subs b) = nat (max_order t0) \<Longrightarrow> rep t0 t' (V(q \<mapsto> b)) D \<Longrightarrow> Q (q, t')"
  shows "wp (non_leaf_new t) Q"
  unfolding non_leaf_new_def
proof (rule wp_bind, rule wp_new_node [OF assms(1,2)], simp, rule wp_Some)
  fix q t' b
  assume b: "q \<notin> dom V" "self b = INVALID_OFFSET" "parent b = INVALID_OFFSET"
    "prev b = INVALID_OFFSET" "nxt b = INVALID_OFFSET" "children b = 0" "rep t0 t' (V(q \<mapsto> b)) D"
  let ?f = "\<lambda>n. n\<lparr>ntype := BPLUS_TREE_NON_LEAF, keys := replicate (nat (max_order t' - 1)) (fill t'),
       subs := replicate (nat (max_order t')) (fill t'), datas := []\<rparr>"
  have "rep t0 (upd t' q ?f) (V(q \<mapsto> ?f b)) D"
    using rep_upd [OF b(7), of q ?f] by simp
  then show "Q (q, upd t' q ?f)"
    by (rule assms(3) [rotated 5]) (use b repD(8) [OF b(7)] in \<open>simp_all add: header_def\<close>)
qed

lemma wp_leaf_new:
  assumes "rep t0 t V D" "room V"
    "\<And>q t' b. q \<notin> dom V \<Longrightarrow> header b INVALID_OFFSET INVALID_OFFSET INVALID_OFFSET INVALID_OFFSET \<Longrightarrow>
       ntype b = BPLUS_TREE_LEAF \<Longrightarrow> length (keys b) = nat (max_entries t0) \<Longrightarrow>
       length (datas b) = nat (max_entries t0) \<Longrightarrow> rep t0 t' (V(q \<mapsto> b)) D \<Longrightarrow> Q (q, t')"
  shows "wp (leaf_new t) Q"
  unfolding leaf_new_def
proof (rule wp_bind, rule wp_new_node [OF assms(1,2)], simp, rule wp_Some)
  fix q t' b
  assume b: "q \<notin> dom V" "self b = INVALID_OFFSET" "parent b = INVALID_OFFSET"
    "prev b = INVALID_OFFSET" "nxt b = INVALID_OFFSET" "children b = 0" "rep t0 t' (V(q \<mapsto> b)) D"
  let ?f = "\<lambda>n. n\<lparr>ntype := BPLUS_TREE_LEAF, keys := replicate (nat (max_entries t')) (fill t'),
       subs := [], datas := replicate (nat (max_entries t')) (fill t')\<rparr>"
  have "rep t0 (upd t' q ?f) (V(q \<mapsto> ?f b)) D"
    using rep_upd [OF b(7), of q ?f] by simp
  then show "Q (q, upd t' q ?f)"
    by (rule assms(3) [rotated 5]) (use b repD(9) [OF b(7)] in \<open>simp_all add: header_def\<close>)
qed

lemma wp_left_node_add:
  assumes r: "rep t0 t V D" "room V" "alloc_ok t0 S" "cfg_ok t0" "node \<in> dom V" "left \<in> dom V" "node \<noteq> left"
    "prev (the (V node)) = INVALID_OFFSET \<or> on_disk D (prev (the (V node)))"
    and Q: "\<And>t' x. x \<notin> S \<Longrightarrow> alloc_ok t' (insert x S) \<Longrightarrow> calm t0 t' \<Longrightarrow>
      rep t' t' (V(left \<mapsto> (the (V left))\<lparr>self := x, prev := prev (the (V node)), nxt := self (the (V node))\<rparr>,
        node \<mapsto> (the (V node))\<lparr>prev := x\<rparr>)) (nxt_upd (prev (the (V node))) x D) \<Longrightarrow> Q t'"
  shows "wp (left_node_add t node left) Q"
proof -
  note d = repD [OF r(1)]
  have n: "nd t node = the (V node)" "nd t left = the (V left)" using d(6) r(5,6) by auto
  have al: "alloc_ok t S" "cfg_ok t"
    using r(3,4) d(5) alloc_ok_quiet cfg_ok_calm quiet_calm by blast+
  have mem: "node \<in> live t" "left \<in> live t" using r(5,6) d(3) by auto
  obtain t' x where t': "left_node_add t node left = Some t'" "x \<notin> S" "alloc_ok t' (insert x S)"
    "calm t t'" "live t' = live t"
    "nd t' left = (nd t left)\<lparr>self := x, prev := prev (nd t node), nxt := self (nd t node)\<rparr>"
    "nd t' node = (nd t node)\<lparr>prev := x\<rparr>"
    "\<forall>q\<in>live t. q \<noteq> left \<longrightarrow> q \<noteq> node \<longrightarrow> nd t' q = nd t q"
    "disk t' = nxt_upd (prev (nd t node)) x (disk t)"
    using left_node_add_spec [OF d(1) rep_room [OF r(1,2)] al mem r(7)] r(8) n d(4) by metis
  let ?V = "V(left \<mapsto> (the (V left))\<lparr>self := x, prev := prev (the (V node)), nxt := self (the (V node))\<rparr>,
        node \<mapsto> (the (V node))\<lparr>prev := x\<rparr>)"
  have "rep t' t' ?V (disk t')"
  proof (rule rep_self)
    show "slots_wf t'" using t'(4) by (simp add: calm_def)
    show "live t' = dom ?V" using t'(5) d(3) r(5,6) by auto
    show "nd t' p = the (?V p)" if "p \<in> dom ?V" for p
      using that t'(6-8) n d(3,6) r(5,6,7) by (auto split: if_splits)
  qed
  moreover have "calm t0 t'" using d(5) t'(4) quiet_calm calm_trans by blast
  ultimately show ?thesis using t'(1-3,9) n d(4) Q by (simp add: wp_def)
qed

lemma wp_right_node_add:
  assumes r: "rep t0 t V D" "room V" "alloc_ok t0 S" "cfg_ok t0" "node \<in> dom V" "right \<in> dom V" "node \<noteq> right"
    "nxt (the (V node)) = INVALID_OFFSET \<or> on_disk D (nxt (the (V node)))"
    and Q: "\<And>t' x. x \<notin> S \<Longrightarrow> alloc_ok t' (insert x S) \<Longrightarrow> calm t0 t' \<Longrightarrow>
      rep t' t' (V(right \<mapsto> (the (V right))\<lparr>self := x, nxt := nxt (the (V node)), prev := self (the (V node))\<rparr>,
        node \<mapsto> (the (V node))\<lparr>nxt := x\<rparr>)) (prev_upd (nxt (the (V node))) x D) \<Longrightarrow> Q t'"
  shows "wp (right_node_add t node right) Q"
proof -
  note d = repD [OF r(1)]
  have n: "nd t node = the (V node)" "nd t right = the (V right)" using d(6) r(5,6) by auto
  have al: "alloc_ok t S" "cfg_ok t"
    using r(3,4) d(5) alloc_ok_quiet cfg_ok_calm quiet_calm by blast+
  have mem: "node \<in> live t" "right \<in> live t" using r(5,6) d(3) by auto
  obtain t' x where t': "right_node_add t node right = Some t'" "x \<notin> S" "alloc_ok t' (insert x S)"
    "calm t t'" "live t' = live t"
    "nd t' right = (nd t right)\<lparr>self := x, nxt := nxt (nd t node), prev := self (nd t node)\<rparr>"
    "nd t' node = (nd t node)\<lparr>nxt := x\<rparr>"
    "\<forall>q\<in>live t. q \<noteq> right \<longrightarrow> q \<noteq> node \<longrightarrow> nd t' q = nd t q"
    "disk t' = prev_upd (nxt (nd t node)) x (disk t)"
    using right_node_add_spec [OF d(1) rep_room [OF r(1,2)] al mem r(7)] r(8) n d(4) by metis
  let ?V = "V(right \<mapsto> (the (V right))\<lparr>self := x, nxt := nxt (the (V node)), prev := self (the (V node))\<rparr>,
        node \<mapsto> (the (V node))\<lparr>nxt := x\<rparr>)"
  have "rep t' t' ?V (disk t')"
  proof (rule rep_self)
    show "slots_wf t'" using t'(4) by (simp add: calm_def)
    show "live t' = dom ?V" using t'(5) d(3) r(5,6) by auto
    show "nd t' p = the (?V p)" if "p \<in> dom ?V" for p
      using that t'(6-8) n d(3,6) r(5,6,7) by (auto split: if_splits)
  qed
  moreover have "calm t0 t'" using d(5) t'(4) quiet_calm calm_trans by blast
  ultimately show ?thesis using t'(1-3,9) n d(4) Q by (simp add: wp_def)
qed

lemma wp_flush_subs:
  assumes r: "rep t0 t V D" "room V" "p \<in> dom V"
    and i: "\<forall>i\<in>set is. 0 \<le> i \<and> nat i < length (subs (the (V p))) \<and> on_disk D (subs (the (V p)) ! nat i)"
    and Q: "\<And>t'. rep t0 t' V (set_par (self (the (V p))) ((\<lambda>i. subs (the (V p)) ! nat i) ` set is) D) \<Longrightarrow> Q t'"
  shows "wp (flush_subs t p is) Q"
proof -
  note d = repD [OF r(1)]
  have n: "nd t p = the (V p)" using d(6) r(3) by auto
  have m: "p \<in> live t" using r(3) d(3) by simp
  obtain cs where cs: "flush_subs t p is = Some (t\<lparr>caches := cs,
      disk := set_par (self (nd t p)) ((\<lambda>i. subs (nd t p) ! nat i) ` set is) (disk t)\<rparr>)"
    "length cs = MIN_CACHE_NUM" "\<forall>q\<in>live t. cs ! q = nd t q"
    using flush_subs_spec [OF d(1) rep_room [OF r(1,2)] m, of "is"] i n d(4) by auto
  let ?t = "t\<lparr>caches := cs, disk := set_par (self (nd t p)) ((\<lambda>i. subs (nd t p) ! nat i) ` set is) (disk t)\<rparr>"
  have "quiet t0 ?t" using quiet_trans [OF d(5) quiet_caches_disk [OF d(1) cs(2)]] .
  then have "rep t0 ?t V (set_par (self (the (V p))) ((\<lambda>i. subs (the (V p)) ! nat i) ` set is) D)"
    using r(1) cs(3) n d(4) by (auto simp: rep_def live_def nd_def dom_def)
  with cs(1) Q show ?thesis by (simp add: wp_def)
qed

lemma wp_new_node_append:
  assumes r: "rep t0 t V D" "alloc_ok t0 S" "cfg_ok t0" "p \<in> dom V"
    and Q: "\<And>t' x. x \<notin> S \<Longrightarrow> alloc_ok t' (insert x S) \<Longrightarrow> calm t0 t' \<Longrightarrow>
      rep t' t' (V(p \<mapsto> (the (V p))\<lparr>self := x\<rparr>)) D \<Longrightarrow> wp (g (x, t')) Q"
  shows "wp (let y = new_node_append t p in g y) Q"
proof -
  note d = repD [OF r(1)]
  have al: "alloc_ok t S" "cfg_ok t"
    using r(2,3) d(5) alloc_ok_quiet cfg_ok_calm quiet_calm by blast+
  obtain x fs fb where x: "new_node_append t p =
      (x, upd (t\<lparr>file_size := fs, free_blocks := fb\<rparr>) p (\<lambda>n. n\<lparr>self := x\<rparr>))"
    "x \<notin> S" "alloc_ok (t\<lparr>file_size := fs, free_blocks := fb\<rparr>) (insert x S)"
    using new_node_append_spec [OF al] .
  let ?t = "t\<lparr>file_size := fs, free_blocks := fb\<rparr>"
  have "rep ?t ?t V D"
    using r(1) d(1) by (auto simp: rep_def quiet_refl slot_simps)
  from rep_upd [OF this r(4), of "\<lambda>n. n\<lparr>self := x\<rparr>"]
  have "rep (upd ?t p (\<lambda>n. n\<lparr>self := x\<rparr>)) (upd ?t p (\<lambda>n. n\<lparr>self := x\<rparr>)) (V(p \<mapsto> (the (V p))\<lparr>self := x\<rparr>)) D"
    using d(1) by (simp add: rep_def quiet_refl)
  moreover have "calm t0 (upd ?t p (\<lambda>n. n\<lparr>self := x\<rparr>))" "alloc_ok (upd ?t p (\<lambda>n. n\<lparr>self := x\<rparr>)) (insert x S)"
    using d(5) x(3) by (simp_all add: quiet_def calm_def env_def alloc_ok_def)
  ultimately show ?thesis using Q [OF x(2)] x(1) by simp
qed

end
