(* ===== verification/BPlus_Split.thy ===== *)
theory BPlus_Split
  imports BPlus_Store
begin

section \<open>What the splits and plain insertions compute\<close>

text \<open>
  One rule per split routine. All of them cut the same virtual lists: \<open>ins_at i key ks\<close>, the
  keys with the new one in place, and \<open>ins_two i l r ss\<close>, the sub-nodes with the split child
  replaced by its two halves. The left part keeps the first \<open>s\<close> keys, the key at \<open>s\<close> moves up
  (in a leaf it is also kept on the right), the right part gets the rest. The new node
  always receives the moved sub-nodes, whose parent offsets are rewritten on disk.
\<close>

subsection \<open>Inner nodes\<close>

lemma calm_order: "calm t0 t1 \<Longrightarrow> max_order t1 = max_order t0 \<and> max_entries t1 = max_entries t0"
  by (simp add: calm_def env_def)

definition ins_at :: "nat \<Rightarrow> 'a \<Rightarrow> 'a list \<Rightarrow> 'a list" where
  "ins_at i k ks = take i ks @ k # drop i ks"

definition ins_two :: "nat \<Rightarrow> 'a \<Rightarrow> 'a \<Rightarrow> 'a list \<Rightarrow> 'a list" where
  "ins_two i l r ss = take i ss @ l # r # drop (Suc i) ss"

lemma length_ins [simp]:
  "length (ins_at i k ks) = Suc (length ks)" "i < length ss \<Longrightarrow> length (ins_two i l r ss) = Suc (length ss)"
  by (auto simp: ins_at_def ins_two_def)

lemma nth_ins_at: "i \<le> length ks \<Longrightarrow> j \<le> length ks \<Longrightarrow>
    ins_at i k ks ! j = (if j < i then ks ! j else if j = i then k else ks ! (j - 1))"
  by (auto simp: ins_at_def nth_append min_def nth_Cons')

lemma nth_ins_two: "i < length ss \<Longrightarrow> j \<le> length ss \<Longrightarrow>
    ins_two i l r ss ! j = (if j < i then ss ! j else if j = i then l else if j = Suc i then r else ss ! (j - 1))"
  by (auto simp: ins_two_def nth_append min_def nth_Cons' Suc_diff_Suc numeral_2_eq_2)

lemma rep_nd: "rep t0 t V D \<Longrightarrow> p \<in> dom V \<Longrightarrow> nd t p = the (V p)"
  by (rule repD)

lemma blit_ins:
  assumes "i \<le> n" "n < length ks"
  shows "take (Suc n) ((blit ks (Suc i) ks i (n - i))[i := k]) = ins_at i k (take n ks)"
  using assms by (intro nth_equalityI) (auto simp: blit_simps nth_ins_at nth_list_update)

lemma blit_ins_two:
  assumes "i \<le> n" "Suc n < length ss"
  shows "take (Suc (Suc n)) ((blit ss (Suc (Suc i)) ss (Suc i) (n - i))[i := l, Suc i := r]) =
    ins_two i l r (take (Suc n) ss)"
  using assms by (intro nth_equalityI) (auto simp: blit_simps nth_ins_two nth_list_update)

lemma simple_insert_body:
  assumes "inner_body Om m nb" "i \<le> length (lkeys m)" "length (lsubs m) < Om"
  shows "inner_body Om (LN x (ins_at i key (lkeys m)) (ins_two i l r (lsubs m)) []) (nb\<lparr>
      keys := (blit (keys nb) (Suc i) (keys nb) i (length (lkeys m) - i))[i := key],
      subs := (blit (subs nb) (Suc (Suc i)) (subs nb) (Suc i) (length (lkeys m) - i))[i := l, Suc i := r],
      children := int (Suc (length (lkeys m))) + 1\<rparr>)"
proof -
  let ?n = "length (lkeys m)"
  have b: "ntype nb = BPLUS_TREE_NON_LEAF" "Suc (length (keys nb)) = Om" "length (subs nb) = Om"
    "length (lsubs m) = Suc ?n" "Suc ?n < Om" "take ?n (keys nb) = lkeys m" "take (Suc ?n) (subs nb) = lsubs m"
    using assms by (auto simp: inner_body_def)
  have "take (Suc ?n) ((blit (keys nb) (Suc i) (keys nb) i (?n - i))[i := key]) = ins_at i key (lkeys m)"
    "take (Suc (Suc ?n)) ((blit (subs nb) (Suc (Suc i)) (subs nb) (Suc i) (?n - i))[i := l, Suc i := r])
      = ins_two i l r (lsubs m)"
    using b assms(2) by (simp_all add: blit_ins blit_ins_two)
  with b assms(2) show ?thesis
    by (simp add: inner_body_def length_blit)
qed

lemma wp_non_leaf_simple_insert:
  assumes r: "rep t0 t V D" "node \<in> dom V" "l \<in> dom V" "r \<in> dom V" "node \<noteq> l" "node \<noteq> r" "l \<noteq> r"
    and b: "inner_body Om m (the (V node))" "i \<le> length (lkeys m)" "length (lsubs m) < Om"
    and s: "self (the (V l)) \<noteq> INVALID_OFFSET" "self (the (V r)) \<noteq> INVALID_OFFSET"
    and Q: "\<And>t' b. inner_body Om (LN x (ins_at i key (lkeys m)) (ins_two i (self (the (V l))) (self (the (V r))) (lsubs m)) []) b \<Longrightarrow>
      header b (self (the (V node))) (parent (the (V node))) (prev (the (V node))) (nxt (the (V node))) \<Longrightarrow>
      rep t0 t' (V(node \<mapsto> b, l := None, r := None))
       (D(self (the (V l)) \<mapsto> (the (V l))\<lparr>parent := self (the (V node))\<rparr>,
          self (the (V r)) \<mapsto> (the (V r))\<lparr>parent := self (the (V node))\<rparr>)) \<Longrightarrow> Q t'"
  shows "wp (non_leaf_simple_insert t node l r key (int i)) Q"
proof -
  obtain K where K: "Om = Suc K" using b(3) by (cases Om) auto
  have k: "length (keys (the (V node))) = K" "length (subs (the (V node))) = Suc K"
    "children (the (V node)) = int (Suc (length (lkeys m)))" "length (lkeys m) < K"
    using b K by (auto simp: inner_body_def)
  have n: "nat (int i + 1) = Suc i" "nat (int i + 2) = Suc (Suc i)"
    "nat (int (length (lkeys m)) - int i) = length (lkeys m) - i"
    by auto
  note [simp] = n r(2-7) r(5-7) [symmetric] s k(1-3) rep_nd rep_nd [OF r(1)]
  let ?b = "(the (V node))\<lparr>
      keys := (blit (keys (the (V node))) (Suc i) (keys (the (V node))) i (length (lkeys m) - i))[i := key],
      subs := (blit (subs (the (V node))) (Suc (Suc i)) (subs (the (V node))) (Suc i) (length (lkeys m) - i))
        [i := self (the (V l)), Suc i := self (the (V r))],
      children := int (Suc (length (lkeys m))) + 1\<rparr>"
  have ib: "inner_body Om (LN x (ins_at i key (lkeys m))
      (ins_two i (self (the (V l))) (self (the (V r))) (lsubs m)) []) ?b"
    by (rule simple_insert_body [OF b])
  have hb: "header ?b (self (the (V node))) (parent (the (V node))) (prev (the (V node))) (nxt (the (V node)))"
    by (simp add: header_def)
  show ?thesis
    unfolding non_leaf_simple_insert_def
    apply (insert r(1) b(2) k(4))
    apply simp
    apply (rule wp_bind, erule wp_move_key, (simp; fail)+, simp)
    apply (rule wp_bind, erule wp_move_sub, (simp add: blit_simps; fail)+, simp)
    apply (rule wp_bind, erule wp_set(1), (simp add: blit_simps; fail)+, simp)
    apply (rule wp_bind, erule wp_sub_node_update, (simp add: blit_simps; fail)+, simp)
    apply (rule wp_bind, erule wp_sub_node_update, (simp add: blit_simps; fail)+, simp)
    apply (rule wp_Some)
    apply (drule rep_upd [where p = node and f = "\<lambda>n. n\<lparr>children := children n + 1\<rparr>"], simp)
    apply (rule Q [OF ib hb], simp add: fun_upd_twist)
    done
qed

lemma on_disk_upd [simp]:
  "on_disk (nxt_upd y x D) z = on_disk D z" "on_disk (prev_upd y x D) z = on_disk D z"
  "on_disk (set_par x A D) z = on_disk D z"
  by (auto simp: on_disk_def nxt_upd_def prev_upd_def set_par_def)

lemma set_par_two:
  "(set_par x A D)(a \<mapsto> ab\<lparr>parent := x\<rparr>, b \<mapsto> bb\<lparr>parent := x\<rparr>) =
     set_par x (insert a (insert b A)) (D(a \<mapsto> ab, b \<mapsto> bb))"
  by (auto simp: set_par_def fun_eq_iff)

lemma set_except_two:
  assumes "Suc i \<le> n" "length xs = Suc n"
  shows "insert (xs ! i) (insert (xs ! Suc i)
    ((\<lambda>j. xs ! nat j) ` set (filter (\<lambda>j. j \<noteq> int i \<and> j \<noteq> int i + 1) [0..int n]))) = set xs"
proof -
  let ?J = "set (filter (\<lambda>j. j \<noteq> int i \<and> j \<noteq> int i + 1) [0..int n])"
  have J: "?J = int ` ({..n} - {i, Suc i})"
  proof (rule set_eqI)
    fix x show "x \<in> ?J \<longleftrightarrow> x \<in> int ` ({..n} - {i, Suc i})"
      by (cases x rule: int_cases) (auto simp: image_iff)
  qed
  have "(\<lambda>j. xs ! nat j) ` ?J = (!) xs ` ({..n} - {i, Suc i})"
    unfolding J image_image by simp
  moreover have "set xs = (!) xs ` {..n}"
    using assms(2) by (auto simp: in_set_conv_nth less_Suc_eq_le)
  moreover have "{..n} = insert i (insert (Suc i) ({..n} - {i, Suc i}))"
    using assms by auto
  ultimately show ?thesis by (metis image_insert)
qed

lemma split_left_arrays:
  assumes "length ks = K" "length ss = Suc K" "length lk = K" "length ls = Suc K" "i < s" "Suc s \<le> K"
  shows "take s ((blit (blit lk 0 ks 0 i) (Suc i) ks i (s - i))[i := key]) = take s (ins_at i key ks)"
    "take (Suc s) ((blit (blit ls 0 ss 0 i) (Suc i) ss i (s - i))[i := l, Suc i := r]) =
       take (Suc s) (ins_two i l r ss)"
    "take (K - s) (blit ks 0 ks s (K - s)) = drop (Suc s) (ins_at i key ks)"
    "take (Suc (K - s)) (blit (ss[0 := ss ! s]) (Suc 0) (ss[0 := ss ! s]) (Suc s) (K - s)) =
       drop (Suc s) (ins_two i l r ss)"
    "ins_at i key ks ! s = ks ! (s - 1)"
proof -
  show "take s ((blit (blit lk 0 ks 0 i) (Suc i) ks i (s - i))[i := key]) = take s (ins_at i key ks)"
    using assms by (intro nth_equalityI) (auto simp: blit_simps nth_ins_at nth_list_update)
  show "take (Suc s) ((blit (blit ls 0 ss 0 i) (Suc i) ss i (s - i))[i := l, Suc i := r]) =
       take (Suc s) (ins_two i l r ss)"
    using assms by (intro nth_equalityI) (auto simp: blit_simps nth_ins_two nth_list_update)
  show "take (K - s) (blit ks 0 ks s (K - s)) = drop (Suc s) (ins_at i key ks)"
    using assms by (intro nth_equalityI) (auto simp: blit_simps nth_ins_at)
  show "take (Suc (K - s)) (blit (ss[0 := ss ! s]) (Suc 0) (ss[0 := ss ! s]) (Suc s) (K - s)) =
       drop (Suc s) (ins_two i l r ss)"
    using assms by (intro nth_equalityI) (auto simp: blit_simps nth_ins_two nth_list_update Suc_le_eq)
  show "ins_at i key ks ! s = ks ! (s - 1)"
    using assms by (simp add: nth_ins_at)
qed

lemma split_right1_arrays:
  assumes "length ks = K" "length ss = Suc K" "length rk = K" "length rs = Suc K" "1 \<le> s" "s \<le> K"
  shows "take (Suc K - s) (blit (rk[0 := key]) (Suc 0) ks s (K - s)) = drop s (ins_at s key ks)"
    "take (Suc (Suc K) - s) (blit (rs[0 := l, Suc 0 := r]) 2 ss (Suc s) (K - s)) = drop s (ins_two s l r ss)"
    "take (s - 1) ks = take (s - 1) (ins_at s key ks)" "take s ss = take s (ins_two s l r ss)"
    "ins_at s key ks ! (s - 1) = ks ! (s - 1)"
proof -
  show "take (Suc K - s) (blit (rk[0 := key]) (Suc 0) ks s (K - s)) = drop s (ins_at s key ks)"
    using assms by (intro nth_equalityI) (auto simp: blit_simps nth_ins_at nth_list_update Suc_le_eq)
  show "take (Suc (Suc K) - s) (blit (rs[0 := l, Suc 0 := r]) 2 ss (Suc s) (K - s)) = drop s (ins_two s l r ss)"
    using assms by (intro nth_equalityI) (auto simp: blit_simps nth_ins_two nth_list_update)
qed (use assms in \<open>auto simp: ins_at_def ins_two_def nth_append\<close>)

lemma split_right2_arrays:
  assumes "length ks = K" "length ss = Suc K" "length rk = K" "length rs = Suc K" "i = s + p + 1" "i \<le> K"
  shows "take (K - s) (blit ((blit rk 0 ks (Suc s) p)[p := key]) (Suc p) ks i (K - i)) = drop (Suc s) (ins_at i key ks)"
    "take (Suc K - s) (blit ((blit rs 0 ss (Suc s) p)[p := l, Suc p := r]) (Suc (Suc p)) ss (Suc i) (K - i)) =
       drop (Suc s) (ins_two i l r ss)"
    "take s ks = take s (ins_at i key ks)" "take (Suc s) ss = take (Suc s) (ins_two i l r ss)"
    "ins_at i key ks ! s = ks ! s"
proof -
  show "take (K - s) (blit ((blit rk 0 ks (Suc s) p)[p := key]) (Suc p) ks i (K - i)) = drop (Suc s) (ins_at i key ks)"
    using assms by (intro nth_equalityI) (auto simp: blit_simps nth_ins_at nth_list_update)
  show "take (Suc K - s) (blit ((blit rs 0 ss (Suc s) p)[p := l, Suc p := r]) (Suc (Suc p)) ss (Suc i) (K - i)) =
       drop (Suc s) (ins_two i l r ss)"
    using assms by (intro nth_equalityI) (auto simp: blit_simps nth_ins_two nth_list_update)
qed (use assms in \<open>auto simp: ins_at_def ins_two_def nth_append take_append\<close>)

lemma set_par_set_par: "set_par x A (set_par x B D) = set_par x (A \<union> B) D"
  by (auto simp: set_par_def fun_eq_iff option.map_comp comp_def)

lemma set_par_two': "set_par x A (D(a \<mapsto> ab\<lparr>parent := x\<rparr>, b \<mapsto> bb\<lparr>parent := x\<rparr>)) =
     set_par x (insert a (insert b A)) (D(a \<mapsto> ab, b \<mapsto> bb))"
  by (auto simp: set_par_def fun_eq_iff)

lemma on_disk_put: "on_disk D z \<Longrightarrow> self b = y \<Longrightarrow> on_disk (D(y \<mapsto> b)) z"
  by (auto simp: on_disk_def)

definition fresh_inner :: "nat \<Rightarrow> bplus_node \<Rightarrow> bool" where
  "fresh_inner Om b \<longleftrightarrow> header b INVALID_OFFSET INVALID_OFFSET INVALID_OFFSET INVALID_OFFSET \<and>
     ntype b = BPLUS_TREE_NON_LEAF \<and> Suc (length (keys b)) = Om \<and> length (subs b) = Om"

lemma wp_non_leaf_split_left:
  assumes r: "rep t0 t V D" "node \<in> dom V" "left \<in> dom V" "l \<in> dom V" "r \<in> dom V"
    "node \<noteq> left" "node \<noteq> l" "node \<noteq> r" "left \<noteq> l" "left \<noteq> r" "l \<noteq> r" "room V"
    and al: "alloc_ok t0 S" "cfg_ok t0" and Om: "int Om = max_order t0"
    and b: "inner_body Om m (the (V node))" "length (lsubs m) = Om" "fresh_inner Om (the (V left))"
    and i: "i < s" "s = Om div 2"
    and s: "self (the (V l)) \<noteq> INVALID_OFFSET" "self (the (V r)) \<noteq> INVALID_OFFSET"
    and pv: "prev (the (V node)) = INVALID_OFFSET \<or> on_disk D (prev (the (V node)))"
    and ch: "\<And>j. j < Om \<Longrightarrow> j \<noteq> i \<Longrightarrow> on_disk D (lsubs m ! j)"
    and Q: "\<And>t1 t' x b1 b2. x \<notin> S \<Longrightarrow> alloc_ok t1 (insert x S) \<Longrightarrow> calm t0 t1 \<Longrightarrow>
      inner_body Om (LN x1 (take s (ins_at i key (lkeys m)))
        (take (Suc s) (ins_two i (self (the (V l))) (self (the (V r))) (lsubs m))) []) b1 \<Longrightarrow>
      header b1 x INVALID_OFFSET (prev (the (V node))) (self (the (V node))) \<Longrightarrow>
      inner_body Om (LN x2 (drop (Suc s) (ins_at i key (lkeys m)))
        (drop (Suc s) (ins_two i (self (the (V l))) (self (the (V r))) (lsubs m))) []) b2 \<Longrightarrow>
      header b2 (self (the (V node))) (parent (the (V node))) x (nxt (the (V node))) \<Longrightarrow>
      rep t1 t' (V(left \<mapsto> b1, node \<mapsto> b2, l := None, r := None))
        (set_par x (set (take (Suc s) (ins_two i (self (the (V l))) (self (the (V r))) (lsubs m))))
          ((nxt_upd (prev (the (V node))) x D)(self (the (V l)) \<mapsto> the (V l), self (the (V r)) \<mapsto> the (V r)))) \<Longrightarrow>
      Q (ins_at i key (lkeys m) ! s, t')"
  shows "wp (non_leaf_split_left t node left l r key (int i) (int s)) Q"
proof -
  let ?nb = "the (V node)" and ?sb = "the (V left)" and ?lb = "the (V l)" and ?rb = "the (V r)"
  obtain K where K: "Om = Suc K" using al(2) Om by (cases Om) (auto simp: cfg_ok_def)
  have sK: "Suc s \<le> K" using al(2) Om K i(2) by (auto simp: cfg_ok_def)
  have k: "keys ?nb = lkeys m" "subs ?nb = lsubs m" "length (lkeys m) = K" "length (lsubs m) = Suc K"
    "ntype ?nb = BPLUS_TREE_NON_LEAF"
    using b(1,2) K by (auto simp: inner_body_def)
  have kl: "length (keys ?sb) = K" "length (subs ?sb) = Suc K" "ntype ?sb = BPLUS_TREE_NON_LEAF"
      "parent ?sb = INVALID_OFFSET"
    using b(3) K by (auto simp: fresh_inner_def header_def)
  note arr = split_left_arrays [OF k(3,4) kl(1,2) i(1) sK]
  define lks where "lks = (blit (blit (keys ?sb) 0 (lkeys m) 0 i) (Suc i) (lkeys m) i (s - i))[i := key]"
  define lss where "lss = blit (blit (subs ?sb) 0 (lsubs m) 0 i) (Suc i) (lsubs m) i (s - i)"
  have n: "nat (int i + 1) = Suc i" "nat (int s - int i) = s - i" "nat (int s - 1) = s - 1"
      "nat (int K - int s) = K - s" "nat (int s + 1) = Suc s"
    by auto
  have lssn: "lss ! j = (if j < i then lsubs m ! j else lsubs m ! (j - 1))" if "j \<le> s" "j \<noteq> i" for j
    using that k kl i(1) sK by (auto simp: lss_def blit_simps)
  have lenl: "length lks = K" "length lss = Suc K" using k kl i(1) sK by (simp_all add: lks_def lss_def blit_simps)
  have fl: "\<forall>j\<in>set (filter (\<lambda>j. j \<noteq> int i \<and> j \<noteq> int i + 1) [0..int s]).
      0 \<le> j \<and> nat j < Suc K \<and> on_disk D (lss ! nat j)"
  proof
    fix j assume "j \<in> set (filter (\<lambda>j. j \<noteq> int i \<and> j \<noteq> int i + 1) [0..int s])"
    then have j: "0 \<le> j" "nat j \<le> s" "nat j \<noteq> i" "nat j \<noteq> Suc i" by auto
    then have "on_disk D (lss ! nat j)" using lssn [of "nat j"] ch [of "nat j"] ch [of "nat j - 1"] sK K by auto
    then show "0 \<le> j \<and> nat j < Suc K \<and> on_disk D (lss ! nat j)" using j sK by simp
  qed
  define SS where "SS = ins_two i (self ?lb) (self ?rb) (lsubs m)"
  have J: "insert (self ?lb) (insert (self ?rb)
      ((\<lambda>j. lss ! nat j) ` set (filter (\<lambda>j. j \<noteq> int i \<and> j \<noteq> int i + 1) [0..int s]))) = set (take (Suc s) SS)"
  proof -
    have "(\<lambda>j. lss ! nat j) ` set (filter (\<lambda>j. j \<noteq> int i \<and> j \<noteq> int i + 1) [0..int s]) =
        (\<lambda>j. take (Suc s) SS ! nat j) ` set (filter (\<lambda>j. j \<noteq> int i \<and> j \<noteq> int i + 1) [0..int s])"
    proof (rule image_cong [OF refl])
      fix j assume "j \<in> set (filter (\<lambda>j. j \<noteq> int i \<and> j \<noteq> int i + 1) [0..int s])"
      then have j: "0 \<le> j" "nat j \<le> s" "nat j \<noteq> i" "nat j \<noteq> Suc i" by auto
      then show "lss ! nat j = take (Suc s) SS ! nat j"
        using lssn [of "nat j"] sK k i(1) by (simp add: SS_def nth_ins_two)
    qed
    moreover have "take (Suc s) SS ! i = self ?lb" "take (Suc s) SS ! Suc i = self ?rb"
      using k i(1) sK by (simp_all add: SS_def nth_ins_two)
    moreover have "length (take (Suc s) SS) = Suc s" using k i(1) sK by (simp add: SS_def)
    ultimately show ?thesis using set_except_two [of i s "take (Suc s) SS"] i(1) by simp
  qed
  have B1: "inner_body Om (LN x1 (take s (ins_at i key (lkeys m))) (take (Suc s) SS) [])
      (?sb\<lparr>self := x, prev := pv, nxt := nx, children := int s + 1, keys := lks,
        subs := lss[i := self ?lb, Suc i := self ?rb]\<rparr>)" for x pv nx
    using K sK k kl lenl i(1) arr(1,2) by (simp add: inner_body_def lks_def lss_def SS_def)
  have B2: "inner_body Om (LN x2 (drop (Suc s) (ins_at i key (lkeys m))) (drop (Suc s) SS) [])
      (?nb\<lparr>prev := x, children := 1 + int K - int s, keys := blit (lkeys m) 0 (lkeys m) s (K - s),
         subs := blit ((lsubs m)[0 := lsubs m ! s]) (Suc 0) ((lsubs m)[0 := lsubs m ! s]) (Suc s) (K - s)\<rparr>)" for x
    using K sK k i(1) arr(3,4) by (simp add: inner_body_def SS_def blit_simps)
  have J2: "insert (self ?lb) (insert (self ?rb)
      ((\<lambda>j. lss ! nat j) ` {j. 0 \<le> j \<and> j \<le> int s \<and> j \<noteq> int i \<and> j \<noteq> int i + 1})) = set (take (Suc s) SS)"
    using J by simp
  have e5: "lkeys m ! (s - Suc 0) = ins_at i key (lkeys m) ! s" using arr(5) by simp
  note [simp] = n r(2-11) r(6-11) [symmetric] s k kl r(12) rep_nd rep_nd [OF r(1)] lenl
  show ?thesis
    unfolding non_leaf_split_left_def
    apply (insert r(1) i(1) sK)
    apply simp
    apply (rule wp_bind, erule wp_left_node_add [OF _ _ al], (simp add: pv; fail)+)
    apply (frule repD(8))
    apply (frule calm_order)
    apply (simp add: Om [symmetric] K del: of_nat_Suc)
    apply (drule rep_upd [where p = left and f = "\<lambda>n. n\<lparr>children := int s + 1\<rparr>"], simp)
    apply (drule rep_upd [where p = node and f = "\<lambda>n. n\<lparr>children := int (Suc K) - int s\<rparr>"], simp)
    apply (simp add: Let_def)
    apply (rule wp_bind, erule wp_move_key, (simp; fail)+, simp)
    apply (rule wp_bind, erule wp_move_sub, (simp add: blit_simps; fail)+, simp)
    apply (rule wp_bind, erule wp_move_key, (simp add: blit_simps; fail)+, simp)
    apply (rule wp_bind, erule wp_move_sub, (simp add: blit_simps; fail)+)
    apply (simp add: lss_def [symmetric])
    apply (rule wp_bind, erule wp_flush_subs, simp, simp, use fl in simp)
    apply simp
    apply (rule wp_bind, erule wp_set(1), (simp add: blit_simps; fail)+)
    apply (simp add: lks_def [symmetric])
    apply (rule wp_bind, erule wp_sub_node_update, (simp; fail)+, simp)
    apply (rule wp_bind, erule wp_sub_node_update, (simp; fail)+, simp)
    apply (rule wp_bind, rule wp_get(2), assumption, (simp; fail)+, simp)
    apply (rule wp_bind, erule wp_set(2), (simp; fail)+, simp)
    apply (rule wp_bind, rule wp_get(1), assumption, (simp; fail)+, simp)
    apply (rule wp_bind, erule wp_move_key, (simp; fail)+, simp)
    apply (rule wp_bind, erule wp_move_sub, (simp; fail)+, simp)
    apply (rule wp_Some)
    apply (subst e5)
    apply (rule Q [OF _ _ _ B1 [unfolded SS_def] _ B2 [unfolded SS_def]], assumption+)
      apply (simp_all add: header_def set_par_two J2 SS_def [symmetric] fun_upd_twist)
    done
qed

lemma set_range:
  assumes "b < length xs"
  shows "(\<lambda>j. xs ! nat j) ` {int a..int b} = set (drop a (take (Suc b) xs))"
proof -
  have "(\<lambda>j. xs ! nat j) ` {int a..int b} = (!) xs ` {a..b}"
    by (simp add: image_int_atLeastAtMost [symmetric] image_image)
  also have "\<dots> = set (map ((!) xs) [a..<Suc b])"
    by (simp only: set_map set_upt atLeastLessThanSuc_atLeastAtMost)
  also have "map ((!) xs) [a..<Suc b] = drop a (take (Suc b) xs)"
    using assms by (intro nth_equalityI) (auto simp del: upt_Suc)
  finally show ?thesis .
qed

lemma wp_non_leaf_split_right1:
  assumes r: "rep t0 t V D" "node \<in> dom V" "right \<in> dom V" "l \<in> dom V" "r \<in> dom V"
    "node \<noteq> right" "node \<noteq> l" "node \<noteq> r" "right \<noteq> l" "right \<noteq> r" "l \<noteq> r" "room V"
    and al: "alloc_ok t0 S" "cfg_ok t0" and Om: "int Om = max_order t0"
    and b: "inner_body Om m (the (V node))" "length (lsubs m) = Om" "fresh_inner Om (the (V right))"
    and i: "s = Om div 2" "Suc u = s"
    and s: "self (the (V l)) \<noteq> INVALID_OFFSET" "self (the (V r)) \<noteq> INVALID_OFFSET"
    and pv: "nxt (the (V node)) = INVALID_OFFSET \<or> on_disk D (nxt (the (V node)))"
    and ch: "\<And>j. j < Om \<Longrightarrow> j \<noteq> s \<Longrightarrow> on_disk D (lsubs m ! j)"
    and Q: "\<And>t1 t' x b1 b2. x \<notin> S \<Longrightarrow> alloc_ok t1 (insert x S) \<Longrightarrow> calm t0 t1 \<Longrightarrow>
      inner_body Om (LN x1 (take u (ins_at s key (lkeys m)))
        (take (Suc u) (ins_two s (self (the (V l))) (self (the (V r))) (lsubs m))) []) b1 \<Longrightarrow>
      header b1 (self (the (V node))) (parent (the (V node))) (prev (the (V node))) x \<Longrightarrow>
      inner_body Om (LN x2 (drop (Suc u) (ins_at s key (lkeys m)))
        (drop (Suc u) (ins_two s (self (the (V l))) (self (the (V r))) (lsubs m))) []) b2 \<Longrightarrow>
      header b2 x INVALID_OFFSET (self (the (V node))) (nxt (the (V node))) \<Longrightarrow>
      rep t1 t' (V(node \<mapsto> b1, right \<mapsto> b2, l := None, r := None))
        (set_par x (set (drop (Suc u) (ins_two s (self (the (V l))) (self (the (V r))) (lsubs m))))
          ((prev_upd (nxt (the (V node))) x D)(self (the (V l)) \<mapsto> the (V l), self (the (V r)) \<mapsto> the (V r)))) \<Longrightarrow>
      Q (ins_at s key (lkeys m) ! u, t')"
  shows "wp (non_leaf_split_right1 t node right l r key (int s) (int s)) Q"
proof -
  let ?nb = "the (V node)" and ?sb = "the (V right)" and ?lb = "the (V l)" and ?rb = "the (V r)"
  obtain K where K: "Om = Suc K" using al(2) Om by (cases Om) (auto simp: cfg_ok_def)
  have sK: "1 \<le> s" "Suc s \<le> K" using al(2) Om K i(1) by (auto simp: cfg_ok_def)
  have k: "keys ?nb = lkeys m" "subs ?nb = lsubs m" "length (lkeys m) = K" "length (lsubs m) = Suc K"
    "ntype ?nb = BPLUS_TREE_NON_LEAF"
    using b(1,2) K by (auto simp: inner_body_def)
  have kl: "length (keys ?sb) = K" "length (subs ?sb) = Suc K" "ntype ?sb = BPLUS_TREE_NON_LEAF"
      "parent ?sb = INVALID_OFFSET"
    using b(3) K by (auto simp: fresh_inner_def header_def)
  have sK': "s \<le> K" using sK by simp
  note arr = split_right1_arrays [OF k(3,4) kl(1,2) sK(1) sK']
  define rks where "rks = blit ((keys ?sb)[0 := key]) (Suc 0) (lkeys m) s (K - s)"
  define rss where "rss = blit ((subs ?sb)[0 := self ?lb, Suc 0 := self ?rb]) 2 (lsubs m) (Suc s) (K - s)"
  define SS where "SS = ins_two s (self ?lb) (self ?rb) (lsubs m)"
  have n: "nat (int s - 1) = u" "nat (int K - int s) = K - s" "nat (int s + 1) = Suc s"
    using i by auto
  have lenr: "length rks = K" "length rss = Suc K" using k kl sK by (simp_all add: rks_def rss_def blit_simps)
  have dSS: "drop s SS = self ?lb # self ?rb # drop (Suc s) (lsubs m)"
    using k sK by (simp add: SS_def ins_two_def)
  have dr: "take (Suc (Suc K - s)) rss = drop s SS"
    using arr(2) sK by (simp add: rss_def SS_def Suc_diff_le)
  have J: "(\<lambda>j. rss ! nat j) ` {2..1 + (int K - int s)} = set (drop (Suc s) (lsubs m))"
    using set_range [of "Suc K - s" rss 2] lenr sK by (simp add: dr dSS of_nat_diff add_diff_eq)
  have fl: "\<forall>j\<in>{2..1 + (int K - int s)}. 0 \<le> j \<and> nat j < Suc K \<and> on_disk D (rss ! nat j)"
  proof
    fix j assume j: "j \<in> {2..1 + (int K - int s)}"
    then have "rss ! nat j \<in> set (drop (Suc s) (lsubs m))" using J by blast
    then obtain h where "h < K - s" "rss ! nat j = lsubs m ! (Suc s + h)"
      using k by (auto simp: in_set_conv_nth)
    then have "on_disk D (rss ! nat j)" using ch [of "Suc s + h"] K by simp
    with j sK show "0 \<le> j \<and> nat j < Suc K \<and> on_disk D (rss ! nat j)" by auto
  qed
  have su: "s - 1 = u" "s - Suc 0 = u" using i(2) by simp_all
  have B1: "inner_body Om (LN x1 (take u (ins_at s key (lkeys m))) (take (Suc u) SS) [])
      (?nb\<lparr>nxt := x, children := int s\<rparr>)" for x
    using K sK k i(2) arr(3,4) su by (simp add: inner_body_def SS_def)
  have B2: "inner_body Om (LN x2 (drop (Suc u) (ins_at s key (lkeys m))) (drop (Suc u) SS) [])
      (?sb\<lparr>self := x, nxt := nx, prev := pv, children := 2 + (int K - int s), keys := rks, subs := rss\<rparr>)" for x nx pv
    using K sK kl k lenr i(2) dr arr(1) by (simp add: inner_body_def rks_def SS_def Suc_diff_le of_nat_diff)
  have e5: "lkeys m ! u = ins_at s key (lkeys m) ! u" using arr(5) su by simp
  note [simp] = n r(2-11) r(6-11) [symmetric] s k kl r(12) rep_nd rep_nd [OF r(1)] lenr
  show ?thesis
    unfolding non_leaf_split_right1_def
    apply (insert r(1) i(2) sK)
    apply simp
    apply (rule wp_bind, erule wp_right_node_add [OF _ _ al], (simp add: pv; fail)+)
    apply (frule repD(8))
    apply (frule calm_order)
    apply (simp add: Om [symmetric] K del: of_nat_Suc)
    apply (rule wp_bind, rule wp_get(1), assumption, (simp; fail)+)
    apply (drule rep_upd [where p = node and f = "\<lambda>n. n\<lparr>children := int s\<rparr>"], simp)
    apply (drule rep_upd [where p = right and f = "\<lambda>n. n\<lparr>children := int (Suc K) - int s + 1\<rparr>"], simp)
    apply (simp add: Let_def)
    apply (rule wp_bind, erule wp_set(1), (simp; fail)+, simp)
    apply (rule wp_bind, erule wp_sub_node_update, (simp; fail)+, simp)
    apply (rule wp_bind, erule wp_sub_node_update, (simp; fail)+, simp)
    apply (rule wp_bind, erule wp_move_key, (simp; fail)+, simp add: rks_def [symmetric])
    apply (rule wp_bind, erule wp_move_sub, (simp add: blit_simps; fail)+)
    apply (simp add: rss_def [symmetric])
    apply (rule wp_bind, erule wp_flush_subs, simp, simp, use fl in \<open>simp add: on_disk_put\<close>)
    apply (rule wp_Some)
    apply (subst e5)
    apply (rule Q [OF _ _ _ B1 [unfolded SS_def] _ B2 [unfolded SS_def]], assumption+)
      apply (simp_all add: header_def set_par_two' J SS_def [symmetric] dSS fun_upd_twist)
    done
qed

lemma wp_non_leaf_split_right2:
  assumes r: "rep t0 t V D" "node \<in> dom V" "right \<in> dom V" "l \<in> dom V" "r \<in> dom V"
    "node \<noteq> right" "node \<noteq> l" "node \<noteq> r" "right \<noteq> l" "right \<noteq> r" "l \<noteq> r" "room V"
    and al: "alloc_ok t0 S" "cfg_ok t0" and Om: "int Om = max_order t0"
    and b: "inner_body Om m (the (V node))" "length (lsubs m) = Om" "fresh_inner Om (the (V right))"
    and i: "u < i" "i < Om"
    and s: "self (the (V l)) \<noteq> INVALID_OFFSET" "self (the (V r)) \<noteq> INVALID_OFFSET"
    and pv: "nxt (the (V node)) = INVALID_OFFSET \<or> on_disk D (nxt (the (V node)))"
    and ch: "\<And>j. j < Om \<Longrightarrow> j \<noteq> i \<Longrightarrow> on_disk D (lsubs m ! j)"
    and Q: "\<And>t1 t' x b1 b2. x \<notin> S \<Longrightarrow> alloc_ok t1 (insert x S) \<Longrightarrow> calm t0 t1 \<Longrightarrow>
      inner_body Om (LN x1 (take u (ins_at i key (lkeys m)))
        (take (Suc u) (ins_two i (self (the (V l))) (self (the (V r))) (lsubs m))) []) b1 \<Longrightarrow>
      header b1 (self (the (V node))) (parent (the (V node))) (prev (the (V node))) x \<Longrightarrow>
      inner_body Om (LN x2 (drop (Suc u) (ins_at i key (lkeys m)))
        (drop (Suc u) (ins_two i (self (the (V l))) (self (the (V r))) (lsubs m))) []) b2 \<Longrightarrow>
      header b2 x INVALID_OFFSET (self (the (V node))) (nxt (the (V node))) \<Longrightarrow>
      rep t1 t' (V(node \<mapsto> b1, right \<mapsto> b2, l := None, r := None))
        (set_par x (set (drop (Suc u) (ins_two i (self (the (V l))) (self (the (V r))) (lsubs m))))
          ((prev_upd (nxt (the (V node))) x D)(self (the (V l)) \<mapsto> the (V l), self (the (V r)) \<mapsto> the (V r)))) \<Longrightarrow>
      Q (ins_at i key (lkeys m) ! u, t')"
  shows "wp (non_leaf_split_right2 t node right l r key (int i) (int u)) Q"
proof -
  let ?nb = "the (V node)" and ?sb = "the (V right)" and ?lb = "the (V l)" and ?rb = "the (V r)"
  obtain K where K: "Om = Suc K" using al(2) Om by (cases Om) (auto simp: cfg_ok_def)
  obtain p where p: "i = u + p + 1" using i(1) less_imp_Suc_add by fastforce
  have iK: "i \<le> K" "u + p < K" "u < K" using i(2) K p by auto
  have k: "keys ?nb = lkeys m" "subs ?nb = lsubs m" "length (lkeys m) = K" "length (lsubs m) = Suc K"
    "ntype ?nb = BPLUS_TREE_NON_LEAF"
    using b(1,2) K by (auto simp: inner_body_def)
  have kl: "length (keys ?sb) = K" "length (subs ?sb) = Suc K" "ntype ?sb = BPLUS_TREE_NON_LEAF"
      "parent ?sb = INVALID_OFFSET"
    using b(3) K by (auto simp: fresh_inner_def header_def)
  note arr = split_right2_arrays [OF k(3,4) kl(1,2) p iK(1)]
  define rks where "rks = blit ((blit (keys ?sb) 0 (lkeys m) (Suc u) p)[p := key]) (Suc p) (lkeys m) i (K - i)"
  define rss where "rss = blit ((blit (subs ?sb) 0 (lsubs m) (Suc u) p)[p := self ?lb, Suc p := self ?rb])
     (Suc (Suc p)) (lsubs m) (Suc i) (K - i)"
  define SS where "SS = ins_two i (self ?lb) (self ?rb) (lsubs m)"
  have n: "nat (int u + 1) = Suc u" "nat (int p + 1) = Suc p" "nat (int p + 2) = Suc (Suc p)"
      "int i = int u + int p + 1" "nat (int u + int p + 1) = i" "nat (int u + int p + 2) = Suc i"
      "nat (int K - (int u + int p + 1)) = K - i" "nat (int K + (- int u - int p) - 1) = K - i"
      "nat (2 + (int u + int p)) = Suc i"
    using p by auto
  have lenr: "length rks = K" "length rss = Suc K" using k kl iK p by (simp_all add: rks_def rss_def blit_simps)
  have dr: "take (Suc (K - u)) rss = drop (Suc u) SS"
    using arr(2) iK(3) by (simp add: rss_def SS_def Suc_diff_le)
  have lSS: "length (drop (Suc u) SS) = Suc (K - u)" using k iK by (simp add: SS_def Suc_diff_le)
  let ?J = "{j. 0 \<le> j \<and> j \<le> int K - int u \<and> j \<noteq> int p \<and> j \<noteq> int p + 1}"
  have rssn: "rss ! nat j = drop (Suc u) SS ! nat j" if "j \<in> ?J" for j
  proof -
    have "nat j < Suc (K - u)" using that iK by auto
    then show ?thesis by (simp add: dr [symmetric])
  qed
  have J: "insert (self ?lb) (insert (self ?rb) ((\<lambda>j. rss ! nat j) ` ?J)) = set (drop (Suc u) SS)"
  proof -
    have "drop (Suc u) SS ! p = self ?lb" "drop (Suc u) SS ! Suc p = self ?rb"
      using k p iK by (simp_all add: SS_def nth_ins_two)
    then show ?thesis
      using set_except_two [of p "K - u" "drop (Suc u) SS"] lSS iK rssn by (simp add: of_nat_diff)
  qed
  have fl: "\<forall>j. 0 \<le> j \<and> j \<le> int K - int u \<and> j \<noteq> int p \<and> j \<noteq> int p + 1 \<longrightarrow> nat j < Suc K \<and> on_disk D (rss ! nat j)"
  proof (intro allI impI)
    fix j assume j: "0 \<le> j \<and> j \<le> int K - int u \<and> j \<noteq> int p \<and> j \<noteq> int p + 1"
    then have "Suc u + nat j \<noteq> i" "Suc u + nat j \<noteq> Suc i" "Suc u + nat j \<le> Suc K" using p by auto
    then have "on_disk D (drop (Suc u) SS ! nat j)"
      using ch [of "Suc u + nat j"] ch [of "u + nat j"] k iK K by (auto simp: SS_def nth_ins_two)
    with rssn j show "nat j < Suc K \<and> on_disk D (rss ! nat j)" by auto
  qed
  have B1: "inner_body Om (LN x1 (take u (ins_at i key (lkeys m))) (take (Suc u) SS) [])
      (?nb\<lparr>nxt := x, children := int u + 1\<rparr>)" for x
    using K k iK arr(3,4) by (simp add: inner_body_def SS_def)
  have B2: "inner_body Om (LN x2 (drop (Suc u) (ins_at i key (lkeys m))) (drop (Suc u) SS) [])
      (?sb\<lparr>self := x, nxt := nx, prev := pv, children := 1 + int K - int u, keys := rks, subs := rss\<rparr>)" for x nx pv
    using K iK kl k lenr dr lSS arr(1) by (simp add: inner_body_def rks_def SS_def Suc_diff_le of_nat_diff)
  have e5: "lkeys m ! u = ins_at i key (lkeys m) ! u" using arr(5) by simp
  note [simp] = n r(2-11) r(6-11) [symmetric] s k kl r(12) rep_nd rep_nd [OF r(1)] lenr
  show ?thesis
    unfolding non_leaf_split_right2_def
    apply (insert r(1) iK)
    apply simp
    apply (rule wp_bind, erule wp_right_node_add [OF _ _ al], (simp add: pv; fail)+)
    apply (frule repD(8))
    apply (frule calm_order)
    apply (simp add: Om [symmetric] K del: of_nat_Suc)
    apply (rule wp_bind, rule wp_get(1), assumption, (simp; fail)+)
    apply (drule rep_upd [where p = node and f = "\<lambda>n. n\<lparr>children := int u + 1\<rparr>"], simp)
    apply (drule rep_upd [where p = right and f = "\<lambda>n. n\<lparr>children := int (Suc K) - int u\<rparr>"], simp)
    apply (simp add: Let_def)
    apply (rule wp_bind, erule wp_move_key, (simp; fail)+, simp)
    apply (rule wp_bind, erule wp_move_sub, (simp add: blit_simps; fail)+, simp)
    apply (rule wp_bind, erule wp_set(1), (simp add: blit_simps; fail)+, simp)
    apply (rule wp_bind, erule wp_sub_node_update, (simp add: blit_simps; fail)+, simp)
    apply (rule wp_bind, erule wp_sub_node_update, (simp add: blit_simps; fail)+)
    apply (frule repD(8))
    apply simp
    apply (rule wp_bind, erule wp_move_key, (simp add: blit_simps; fail)+)
    apply (frule repD(8))
    apply (simp add: rks_def [symmetric])
    apply (rule wp_bind, erule wp_move_sub, (simp add: blit_simps; fail)+)
    apply (simp add: rss_def [symmetric])
    apply (rule wp_bind, erule wp_flush_subs, simp, simp, use fl in \<open>simp add: on_disk_put\<close>)
    apply (rule wp_Some)
    apply (subst e5)
    apply (rule Q [OF _ _ _ B1 [unfolded SS_def] _ B2 [unfolded SS_def]], assumption+)
      apply (simp_all add: header_def set_par_two' J SS_def [symmetric] fun_upd_twist)
    done
qed

subsection \<open>Leaves\<close>

lemma simple_leaf_body:
  assumes "leaf_body E n b" "i \<le> length (lkeys n)" "length (lkeys n) < E"
  shows "leaf_body E (LN x (ins_at i key (lkeys n)) [] (ins_at i v (lvals n))) (b\<lparr>
      keys := (blit (keys b) (Suc i) (keys b) i (length (lkeys n) - i))[i := key],
      datas := (blit (datas b) (Suc i) (datas b) i (length (lkeys n) - i))[i := v],
      children := int (length (lkeys n)) + 1\<rparr>)"
proof -
  let ?n = "length (lkeys n)"
  have b: "ntype b = BPLUS_TREE_LEAF" "length (keys b) = E" "length (datas b) = E" "length (lvals n) = ?n"
    "take ?n (keys b) = lkeys n" "take ?n (datas b) = lvals n"
    using assms by (auto simp: leaf_body_def)
  have "take (Suc ?n) ((blit (keys b) (Suc i) (keys b) i (?n - i))[i := key]) = ins_at i key (lkeys n)"
    "take (Suc ?n) ((blit (datas b) (Suc i) (datas b) i (?n - i))[i := v]) = ins_at i v (lvals n)"
    using b assms(2,3) by (simp_all add: blit_ins)
  with b assms(2,3) show ?thesis
    by (simp add: leaf_body_def length_blit)
qed

lemma wp_leaf_simple_insert:
  assumes r: "rep t0 t V D" "leaf \<in> dom V"
    and b: "leaf_body E n (the (V leaf))" "i \<le> length (lkeys n)" "length (lkeys n) < E"
    and Q: "\<And>t' b. leaf_body E (LN x (ins_at i key (lkeys n)) [] (ins_at i v (lvals n))) b \<Longrightarrow>
      header b (self (the (V leaf))) (parent (the (V leaf))) (prev (the (V leaf))) (nxt (the (V leaf))) \<Longrightarrow>
      rep t0 t' (V(leaf \<mapsto> b)) D \<Longrightarrow> Q t'"
  shows "wp (leaf_simple_insert t leaf key v (int i)) Q"
proof -
  let ?b = "the (V leaf)"
  have k: "length (keys ?b) = E" "length (datas ?b) = E" "children ?b = int (length (lkeys n))"
    using b by (auto simp: leaf_body_def)
  have n: "nat (int i + 1) = Suc i" "nat (int (length (lkeys n)) - int i) = length (lkeys n) - i"
    by auto
  note [simp] = n r(2) k rep_nd rep_nd [OF r(1)]
  show ?thesis
    unfolding leaf_simple_insert_def
    apply (insert r(1) b(2,3))
    apply simp
    apply (rule wp_bind, erule wp_move_key, (simp; fail)+, simp)
    apply (rule wp_bind, erule wp_move_data, (simp add: blit_simps; fail)+, simp)
    apply (rule wp_bind, erule wp_set(1), (simp add: blit_simps; fail)+, simp)
    apply (rule wp_bind, erule wp_set(3), (simp add: blit_simps; fail)+, simp)
    apply (rule wp_Some)
    apply (drule rep_upd [where p = leaf and f = "\<lambda>n. n\<lparr>children := children n + 1\<rparr>"], simp)
    apply (rule Q [OF simple_leaf_body [OF b]], simp_all add: header_def)
    done
qed

lemma leaf_left_arrays:
  assumes "length ks = E" "length lk = E" "i < s" "s \<le> E"
  shows "take s (blit ((blit lk 0 ks 0 i)[i := key]) (Suc i) ks i (s - Suc i)) = take s (ins_at i key ks)"
    "take (Suc E - s) (blit ks 0 ks (s - 1) (Suc E - s)) = drop s (ins_at i key ks)"
proof -
  show "take s (blit ((blit lk 0 ks 0 i)[i := key]) (Suc i) ks i (s - Suc i)) = take s (ins_at i key ks)"
    using assms by (intro nth_equalityI) (auto simp: blit_simps nth_ins_at nth_list_update)
  show "take (Suc E - s) (blit ks 0 ks (s - 1) (Suc E - s)) = drop s (ins_at i key ks)"
    using assms by (intro nth_equalityI) (auto simp: blit_simps nth_ins_at)
qed

lemma leaf_right_arrays:
  assumes "length ks = E" "length rk = E" "i = s + p" "i \<le> E" "1 \<le> s"
  shows "take (Suc E - s) (blit ((blit rk 0 ks s p)[p := key]) (Suc p) ks i (E - i)) = drop s (ins_at i key ks)"
    "take s ks = take s (ins_at i key ks)"
proof -
  show "take (Suc E - s) (blit ((blit rk 0 ks s p)[p := key]) (Suc p) ks i (E - i)) = drop s (ins_at i key ks)"
    using assms by (intro nth_equalityI) (auto simp: blit_simps nth_ins_at nth_list_update)
qed (use assms in \<open>simp add: ins_at_def\<close>)

definition fresh_leaf :: "nat \<Rightarrow> bplus_node \<Rightarrow> bool" where
  "fresh_leaf E b \<longleftrightarrow> header b INVALID_OFFSET INVALID_OFFSET INVALID_OFFSET INVALID_OFFSET \<and>
     ntype b = BPLUS_TREE_LEAF \<and> length (keys b) = E \<and> length (datas b) = E"

lemma wp_leaf_split_left:
  assumes r: "rep t0 t V D" "leaf \<in> dom V" "left \<in> dom V" "leaf \<noteq> left" "room V"
    and al: "alloc_ok t0 S" "cfg_ok t0" and E: "int E = max_entries t0"
    and b: "leaf_body E n (the (V leaf))" "length (lkeys n) = E" "fresh_leaf E (the (V left))"
    and i: "i < s" "s = (E + 1) div 2"
    and pv: "prev (the (V leaf)) = INVALID_OFFSET \<or> on_disk D (prev (the (V leaf)))"
    and Q: "\<And>t1 t' x b1 b2. x \<notin> S \<Longrightarrow> alloc_ok t1 (insert x S) \<Longrightarrow> calm t0 t1 \<Longrightarrow>
      leaf_body E (LN x1 (take s (ins_at i key (lkeys n))) [] (take s (ins_at i v (lvals n)))) b1 \<Longrightarrow>
      header b1 x INVALID_OFFSET (prev (the (V leaf))) (self (the (V leaf))) \<Longrightarrow>
      leaf_body E (LN x2 (drop s (ins_at i key (lkeys n))) [] (drop s (ins_at i v (lvals n)))) b2 \<Longrightarrow>
      header b2 (self (the (V leaf))) (parent (the (V leaf))) x (nxt (the (V leaf))) \<Longrightarrow>
      rep t1 t' (V(left \<mapsto> b1, leaf \<mapsto> b2)) (nxt_upd (prev (the (V leaf))) x D) \<Longrightarrow>
      Q (ins_at i key (lkeys n) ! s, t')"
  shows "wp (leaf_split_left t leaf left key v (int i)) Q"
proof -
  let ?nb = "the (V leaf)" and ?sb = "the (V left)"
  have E2: "2 \<le> E" using al(2) E by (simp add: cfg_ok_def)
  have sE: "1 \<le> s" "s \<le> E" using E2 i(2) by auto
  have k: "keys ?nb = lkeys n" "datas ?nb = lvals n" "length (lkeys n) = E" "length (lvals n) = E"
    "ntype ?nb = BPLUS_TREE_LEAF" "children ?nb = int E"
    using b(1,2) by (auto simp: leaf_body_def)
  have kl: "length (keys ?sb) = E" "length (datas ?sb) = E" "ntype ?sb = BPLUS_TREE_LEAF"
      "parent ?sb = INVALID_OFFSET"
    using b(3) by (auto simp: fresh_leaf_def header_def)
  note arr = leaf_left_arrays [OF k(3) kl(1) i(1) sE(2)] leaf_left_arrays [OF k(4) kl(2) i(1) sE(2)]
  define lks where "lks = blit ((blit (keys ?sb) 0 (lkeys n) 0 i)[i := key]) (Suc i) (lkeys n) i (s - Suc i)"
  define lds where "lds = blit ((blit (datas ?sb) 0 (lvals n) 0 i)[i := v]) (Suc i) (lvals n) i (s - Suc i)"
  have n: "nat (int i + 1) = Suc i" "nat (int s - int i - 1) = s - Suc i" "nat (int s - 1) = s - 1"
      "nat (int E - int s + 1) = Suc E - s" "(int E + 1) div 2 = int s"
    using i(2) sE(2) by auto
  have B1: "leaf_body E (LN x1 (take s (ins_at i key (lkeys n))) [] (take s (ins_at i v (lvals n))))
      (?sb\<lparr>self := x, prev := pv, nxt := nx, children := int s, keys := lks, datas := lds\<rparr>)" for x pv nx
    using sE k kl i(1) arr by (simp add: leaf_body_def lks_def lds_def blit_simps)
  have B2: "leaf_body E (LN x2 (drop s (ins_at i key (lkeys n))) [] (drop s (ins_at i v (lvals n))))
      (?nb\<lparr>prev := x, children := int E - int s + 1, keys := blit (lkeys n) 0 (lkeys n) (s - 1) (Suc E - s),
         datas := blit (lvals n) 0 (lvals n) (s - 1) (Suc E - s)\<rparr>)" for x
    using sE k arr by (simp add: leaf_body_def blit_simps of_nat_diff)
  have e5: "blit (lkeys n) 0 (lkeys n) (s - Suc 0) (Suc E - s) ! 0 = ins_at i key (lkeys n) ! s"
    using sE k i(1) by (simp add: blit_simps nth_ins_at)
  note [simp] = n r(2-4) r(4) [symmetric] k kl r(5) rep_nd rep_nd [OF r(1)]
  show ?thesis
    unfolding leaf_split_left_def
    apply (insert r(1) i(1) sE)
    apply (simp add: Let_def)
    apply (rule wp_bind, erule wp_left_node_add [OF _ _ al], (simp add: pv; fail)+)
    apply (frule repD(9))
    apply (frule calm_order)
    apply (simp add: E [symmetric])
    apply (drule rep_upd [where p = left and f = "\<lambda>n. n\<lparr>children := int s\<rparr>"], simp)
    apply (drule rep_upd [where p = leaf and f = "\<lambda>n. n\<lparr>children := int E - int s + 1\<rparr>"], simp)
    apply simp
    apply (rule wp_bind, erule wp_move_key, (simp; fail)+, simp)
    apply (rule wp_bind, erule wp_move_data, (simp add: blit_simps; fail)+, simp)
    apply (rule wp_bind, erule wp_set(1), (simp add: blit_simps; fail)+, simp)
    apply (rule wp_bind, erule wp_set(3), (simp add: blit_simps; fail)+, simp)
    apply (rule wp_bind, erule wp_move_key, (simp add: blit_simps; fail)+)
    apply (simp add: lks_def [symmetric])
    apply (rule wp_bind, erule wp_move_data, (simp add: blit_simps; fail)+)
    apply (simp add: lds_def [symmetric])
    apply (rule wp_bind, erule wp_move_key, (simp; fail)+, simp)
    apply (rule wp_bind, erule wp_move_data, (simp add: blit_simps; fail)+, simp)
    apply (rule wp_bind, rule wp_get(1), assumption, (simp add: blit_simps; fail)+)
    apply (rule wp_Some)
    apply (simp add: e5)
    apply (rule Q [OF _ _ _ B1 _ B2], assumption+)
      apply (simp_all add: header_def fun_upd_twist)
    done
qed

lemma wp_leaf_split_right:
  assumes r: "rep t0 t V D" "leaf \<in> dom V" "right \<in> dom V" "leaf \<noteq> right" "room V"
    and al: "alloc_ok t0 S" "cfg_ok t0" and E: "int E = max_entries t0"
    and b: "leaf_body E n (the (V leaf))" "length (lkeys n) = E" "fresh_leaf E (the (V right))"
    and i: "s \<le> i" "i \<le> E" "s = (E + 1) div 2"
    and pv: "nxt (the (V leaf)) = INVALID_OFFSET \<or> on_disk D (nxt (the (V leaf)))"
    and Q: "\<And>t1 t' x b1 b2. x \<notin> S \<Longrightarrow> alloc_ok t1 (insert x S) \<Longrightarrow> calm t0 t1 \<Longrightarrow>
      leaf_body E (LN x1 (take s (ins_at i key (lkeys n))) [] (take s (ins_at i v (lvals n)))) b1 \<Longrightarrow>
      header b1 (self (the (V leaf))) (parent (the (V leaf))) (prev (the (V leaf))) x \<Longrightarrow>
      leaf_body E (LN x2 (drop s (ins_at i key (lkeys n))) [] (drop s (ins_at i v (lvals n)))) b2 \<Longrightarrow>
      header b2 x INVALID_OFFSET (self (the (V leaf))) (nxt (the (V leaf))) \<Longrightarrow>
      rep t1 t' (V(leaf \<mapsto> b1, right \<mapsto> b2)) (prev_upd (nxt (the (V leaf))) x D) \<Longrightarrow>
      Q (ins_at i key (lkeys n) ! s, t')"
  shows "wp (leaf_split_right t leaf right key v (int i)) Q"
proof -
  let ?nb = "the (V leaf)" and ?sb = "the (V right)"
  have E2: "2 \<le> E" using al(2) E by (simp add: cfg_ok_def)
  have sE: "1 \<le> s" "s \<le> E" using E2 i(3) by auto
  obtain p where p: "i = s + p" using i(1) le_Suc_ex by blast
  have k: "keys ?nb = lkeys n" "datas ?nb = lvals n" "length (lkeys n) = E" "length (lvals n) = E"
    "ntype ?nb = BPLUS_TREE_LEAF" "children ?nb = int E"
    using b(1,2) by (auto simp: leaf_body_def)
  have kl: "length (keys ?sb) = E" "length (datas ?sb) = E" "ntype ?sb = BPLUS_TREE_LEAF"
      "parent ?sb = INVALID_OFFSET"
    using b(3) by (auto simp: fresh_leaf_def header_def)
  note arr = leaf_right_arrays [OF k(3) kl(1) p i(2) sE(1)] leaf_right_arrays [OF k(4) kl(2) p i(2) sE(1)]
  define rks where "rks = blit ((blit (keys ?sb) 0 (lkeys n) s p)[p := key]) (Suc p) (lkeys n) i (E - i)"
  define rds where "rds = blit ((blit (datas ?sb) 0 (lvals n) s p)[p := v]) (Suc p) (lvals n) i (E - i)"
  have n: "nat (int p + 1) = Suc p" "nat (int E - int i) = E - i" "(int E + 1) div 2 = int s"
      "int i - int s = int p"
    using i(3) p by auto
  have ip: "p + s \<le> E" "Suc p \<le> E" using p sE i(2) by auto
  have B1: "leaf_body E (LN x1 (take s (ins_at i key (lkeys n))) [] (take s (ins_at i v (lvals n))))
      (?nb\<lparr>nxt := x, children := int s\<rparr>)" for x
    using sE k arr by (simp add: leaf_body_def)
  have B2: "leaf_body E (LN x2 (drop s (ins_at i key (lkeys n))) [] (drop s (ins_at i v (lvals n))))
      (?sb\<lparr>self := x, nxt := nx, prev := pv, children := int E - int s + 1, keys := rks, datas := rds\<rparr>)" for x nx pv
    using sE k kl ip p arr by (simp add: leaf_body_def rks_def rds_def blit_simps of_nat_diff)
  have e5: "rks ! 0 = ins_at i key (lkeys n) ! s"
  proof -
    have "take (Suc E - s) rks ! 0 = drop s (ins_at i key (lkeys n)) ! 0" using arr(1) by (simp add: rks_def)
    then show ?thesis using k sE by (simp add: Suc_diff_le)
  qed
  have lenr: "length rks = E" using k kl ip p sE by (simp add: rks_def blit_simps)
  note [simp] = n r(2-4) r(4) [symmetric] k kl r(5) rep_nd rep_nd [OF r(1)] lenr
  show ?thesis
    unfolding leaf_split_right_def
    apply (insert r(1) i(2) ip sE)
    apply (simp add: Let_def)
    apply (rule wp_bind, erule wp_right_node_add [OF _ _ al], (simp add: pv; fail)+)
    apply (frule repD(9))
    apply (frule calm_order)
    apply (simp add: E [symmetric])
    apply (drule rep_upd [where p = leaf and f = "\<lambda>n. n\<lparr>children := int s\<rparr>"], simp)
    apply (drule rep_upd [where p = right and f = "\<lambda>n. n\<lparr>children := int E - int s + 1\<rparr>"], simp)
    apply simp
    apply (rule wp_bind, erule wp_move_key, (simp; fail)+, simp)
    apply (rule wp_bind, erule wp_move_data, (simp add: blit_simps; fail)+, simp)
    apply (rule wp_bind, erule wp_set(1), (simp add: blit_simps; fail)+, simp)
    apply (rule wp_bind, erule wp_set(3), (simp add: blit_simps; fail)+)
    apply (frule repD(9), simp)
    apply (rule wp_bind, erule wp_move_key, (simp add: blit_simps p; fail)+)
    apply (frule repD(9), simp add: rks_def [symmetric])
    apply (rule wp_bind, erule wp_move_data, (simp add: blit_simps p; fail)+)
    apply (simp add: rds_def [symmetric])
    apply (rule wp_bind, rule wp_get(1), assumption, (simp; fail)+)
    apply (rule wp_Some)
    apply (simp add: e5)
    apply (rule Q [OF _ _ _ B1 _ B2], assumption+)
      apply (simp_all add: header_def fun_upd_twist)
    done
qed

end
