(* ===== verification/BPlus_Chain.thy ===== *)
theory BPlus_Chain
  imports BPlus_Split
begin

section \<open>Chains of a level under updates\<close>

text \<open>
  How the doubly linked chain of a level changes when links, parents or the contents of
  single blocks are rewritten, and where the parent of a node is found in the level above.
\<close>

subsection \<open>Chains under link, parent and content updates\<close>

definition par_ok :: "(lnode \<Rightarrow> bplus_node \<Rightarrow> bool) \<Rightarrow> bool" where
  "par_ok R \<longleftrightarrow> (\<forall>n b x. R n b \<longrightarrow> R n (b\<lparr>parent := x\<rparr>) \<and> R n (b\<lparr>prev := x\<rparr>) \<and> R n (b\<lparr>nxt := x\<rparr>))"

lemma par_ok_body [simp]: "par_ok (body E Om lf)"
  unfolding par_ok_def body_def leaf_body_def inner_body_def by auto

definition reparent :: "int \<Rightarrow> int set \<Rightarrow> int list \<Rightarrow> int list \<Rightarrow> int list" where
  "reparent x S os ps = map2 (\<lambda>y p. if y \<in> S then x else p) os ps"

lemma reparent_Cons [simp]:
  "reparent x S (y # os) (p # ps) = (if y \<in> S then x else p) # reparent x S os ps"
  "reparent x S [] ps = []"
  by (simp_all add: reparent_def)

lemma reparent_append:
  "length os = length ps \<Longrightarrow> reparent x S (os @ os') (ps @ qs) = reparent x S os ps @ reparent x S os' qs"
  by (simp add: reparent_def)

lemma reparent_none: "set os \<inter> S = {} \<Longrightarrow> length os = length ps \<Longrightarrow> reparent x S os ps = ps"
  by (induction os ps rule: list_induct2') auto

lemma reparent_all: "set os \<subseteq> S \<Longrightarrow> length os = length ps \<Longrightarrow> reparent x S os ps = replicate (length os) x"
  by (induction os ps rule: list_induct2') auto

lemma chain_reparent:
  "chain R D X pv ns ps nx \<Longrightarrow> par_ok R \<Longrightarrow>
     chain R (set_par x S D) X pv ns (reparent x S (map off ns) ps) nx"
proof (induction R D X pv ns ps nx rule: chain.induct)
  case (2 R D X pv n ns ps nx)
  then obtain p ps' where "ps = p # ps'" by auto
  with 2 show ?case
    by (auto simp: set_par_def header_def par_ok_def)
qed simp

lemma chain_link_right:
  assumes "chain R D X pv ns ps nx" "par_ok R" "distinct (map off ns)" "INVALID_OFFSET \<notin> off ` set ns"
    "nx = INVALID_OFFSET"
  shows "chain R (prev_upd (hd_off ns nx) x D) X x ns ps nx"
proof (cases ns)
  case (Cons n ns')
  then obtain p ps' where ps: "ps = p # ps'"
    "off n \<in> X \<or> (\<exists>b. D (off n) = Some b \<and> header b (off n) p pv (hd_off ns' nx) \<and> R n b)"
    "chain R D X (off n) ns' ps' nx"
    using assms(1) by auto
  have "chain R (prev_upd (off n) x D) X (off n) ns' ps' nx"
    by (rule chain_cong [OF ps(3)]) (use assms(3) Cons in \<open>auto simp: prev_upd_def image_iff\<close>)
  then show ?thesis
    using ps assms(2,4) Cons by (auto simp: prev_upd_def header_def par_ok_def)
qed (use assms in simp)

lemma chain_link_left:
  assumes "chain R D X pv ns ps nx" "par_ok R" "distinct (map off ns)" "INVALID_OFFSET \<notin> off ` set ns"
    "pv = INVALID_OFFSET"
  shows "chain R (nxt_upd (last_off pv ns) x D) X pv ns ps x"
proof (cases ns rule: rev_cases)
  case (snoc ns' n)
  obtain qs rs where s: "ps = qs @ rs" "length qs = length ns'" "length rs = length [n]"
    "chain R D X pv ns' qs (hd_off [n] nx)" "chain R D X (last_off pv ns') [n] rs nx"
    using chain_split [OF assms(1) [unfolded snoc]] .
  have "chain R (nxt_upd (off n) x D) X pv ns' qs (off n)"
    by (rule chain_cong [OF s(4) [simplified]]) (use assms(3) snoc in \<open>auto simp: nxt_upd_def image_iff\<close>)
  moreover have "chain R (nxt_upd (off n) x D) X (last_off pv ns') [n] rs x"
    using s(5) assms(2,4) snoc by (auto simp: nxt_upd_def header_def par_ok_def)
  ultimately show ?thesis
    using s(1,2) snoc by (simp add: chain_append)
qed (use assms in simp)

lemma chain_fill_two:
  assumes "chain R D {off l, off r} pv (A @ l # r # B) (P1 @ q # q' # P2) nx"
    and "length P1 = length A" "distinct (map off (A @ l # r # B))"
    and "header lb (off l) p (last_off pv A) (off r)" "R l lb"
    and "header rb (off r) p' (off l) (hd_off B nx)" "R r rb"
  shows "chain R (D(off l \<mapsto> lb, off r \<mapsto> rb)) {} pv (A @ l # r # B) (P1 @ p # p' # P2) nx"
proof -
  have c: "chain R D {off l, off r} pv A P1 (off l)" "chain R D {off l, off r} (off r) B P2 nx"
    using assms(1,2) by (auto simp: chain_append)
  have "chain R (D(off l \<mapsto> lb, off r \<mapsto> rb)) {} pv A P1 (off l)"
    by (rule chain_cong [OF c(1)]) (use assms(3) in \<open>auto simp: image_iff\<close>)
  moreover have "chain R (D(off l \<mapsto> lb, off r \<mapsto> rb)) {} (off r) B P2 nx"
    by (rule chain_cong [OF c(2)]) (use assms(3) in \<open>auto simp: image_iff\<close>)
  ultimately show ?thesis using assms by (auto simp: chain_append)
qed

lemma stored_cong:
  "stored E Om D lf ls \<Longrightarrow> (\<And>x. x \<in> set (offs ls) \<Longrightarrow> D' x = D x) \<Longrightarrow> stored E Om D' lf ls"
proof (induction ls arbitrary: lf)
  case (Cons L ls)
  have "chain (body E Om lf) D' {} INVALID_OFFSET L (parents ls) INVALID_OFFSET"
    using Cons.prems by (auto simp: offs_def intro: chain_cong)
  with Cons show ?case by (auto simp: offs_def)
qed simp

subsection \<open>Finding the parent of a split node\<close>

definition pars :: "lnode list \<Rightarrow> int list" where
  "pars M = concat (map (\<lambda>m. replicate (length (lsubs m)) (off m)) M)"

lemma pars_simps [simp]:
  "pars [] = []" "pars (m # M) = replicate (length (lsubs m)) (off m) @ pars M" "pars (M @ N) = pars M @ pars N"
  by (simp_all add: pars_def)

lemma parents_pars: "parents (M # up) = pars M"
  by (simp add: pars_def)

lemma length_pars: "length (pars M) = length (concat (map lsubs M))"
  by (induction M) simp_all

lemma concat_split:
  assumes "concat (map f M) = xs @ y # ys"
  obtains MA m MB s1 s2 where "M = MA @ m # MB" "f m = s1 @ y # s2"
    "xs = concat (map f MA) @ s1" "ys = s2 @ concat (map f MB)"
  using assms
proof (induction M arbitrary: xs thesis)
  case (Cons m M)
  show ?case
  proof (cases "length xs < length (f m)")
    case True
    have "f m @ concat (map f M) = xs @ y # ys" using Cons.prems(2) by simp
    with True obtain s2 where "f m = xs @ y # s2" "ys = s2 @ concat (map f M)"
      by (auto simp: append_eq_append_conv2 append_eq_Cons_conv Cons_eq_append_conv)
    then show ?thesis by (intro Cons.prems(1) [of "[]" m M xs s2]) simp_all
  next
    case False
    have "f m @ concat (map f M) = xs @ y # ys" using Cons.prems(2) by simp
    with False obtain xs' where x: "xs = f m @ xs'" "concat (map f M) = xs' @ y # ys"
      by (auto simp: append_eq_append_conv2)
    obtain MA n MB s1 s2 where "M = MA @ n # MB" "f n = s1 @ y # s2"
      "xs' = concat (map f MA) @ s1" "ys = s2 @ concat (map f MB)"
      using Cons.IH [OF _ x(2)] by blast
    with x(1) show ?thesis by (intro Cons.prems(1) [of "m # MA" n MB s1 s2]) simp_all
  qed
qed simp

lemma parent_locate:
  assumes ch: "map off A @ y # map off B = concat (map lsubs M)"
    and sub: "\<forall>m\<in>set M. length (lsubs m) = Suc (length (lkeys m))"
    and P: "parents (M # up) = P1 @ p # P2" "length P1 = length A" "length P2 = length B"
    and b: "bnds (M # up) = b1 @ b2" "length b1 = length A" "length b2 = length B"
    and len: "length M = Suc (length (bnds up))"
  obtains MA m MB s1 s2 c1 c2 where "M = MA @ m # MB" "lsubs m = s1 @ y # s2"
    "map off A = concat (map lsubs MA) @ s1" "map off B = s2 @ concat (map lsubs MB)"
    "p = off m" "P1 = pars MA @ replicate (length s1) (off m)" "P2 = replicate (length s2) (off m) @ pars MB"
    "bnds up = c1 @ c2" "length c1 = length MA" "length c2 = length MB"
    "b1 = wpre (map lkeys MA) c1 @ take (length s1) (lkeys m)"
    "b2 = drop (length s1) (lkeys m) @ wpost (map lkeys MB) c2"
proof -
  obtain MA m MB s1 s2 where M: "M = MA @ m # MB" "lsubs m = s1 @ y # s2"
    "map off A = concat (map lsubs MA) @ s1" "map off B = s2 @ concat (map lsubs MB)"
    using concat_split [OF ch [symmetric]] .
  define c1 c2 where "c1 = take (length MA) (bnds up)" and "c2 = drop (length MA) (bnds up)"
  have c: "bnds up = c1 @ c2" "length c1 = length MA" "length c2 = length MB"
    using len by (simp_all add: c1_def c2_def M(1))
  have lA: "length A = length (concat (map lsubs MA)) + length s1"
    using arg_cong [OF M(3), of length] by simp
  have e: "P1 @ p # P2 = (pars MA @ replicate (length s1) (off m)) @ off m # (replicate (length s2) (off m) @ pars MB)"
    using P(1) [unfolded parents_pars] by (simp add: M(1,2) replicate_add replicate_app_Cons_same)
  have "length P1 = length (pars MA @ replicate (length s1) (off m))"
    using P(2) lA by (simp add: length_pars)
  with e have p: "p = off m" "P1 = pars MA @ replicate (length s1) (off m)" "P2 = replicate (length s2) (off m) @ pars MB"
    by (simp_all only: append_eq_append_conv list.inject simp_thms)
  have lw: "length (wpre (map lkeys MA) c1) = length (concat (map lsubs MA))"
    using c(2) sub M(1) by (simp add: length_wpre length_concat_subs)
  have "length s1 \<le> length (lkeys m)" using sub M(1,2) by simp
  moreover have "b1 @ b2 = wpre (map lkeys MA) c1 @ lkeys m @ wpost (map lkeys MB) c2"
    using b(1) c by (simp add: M(1) weave_mid)
  ultimately have "b1 = wpre (map lkeys MA) c1 @ take (length s1) (lkeys m)"
    "b2 = drop (length s1) (lkeys m) @ wpost (map lkeys MB) c2"
    using b(2) lA lw by (simp_all add: append_eq_conv_conj)
  with M p c show ?thesis by (rule that)
qed

end
