(* ===== verification/BPlus_Climb.thy ===== *)
theory BPlus_Climb
  imports BPlus_Chain
begin

section \<open>Climbing from a split node to the root\<close>

text \<open>
  \<open>parent_node_build\<close> and \<open>non_leaf_insert\<close> seen from the levels of the tree: the climb from a
  split node ends, with every level in order again. The theorem \<open>climb\<close> is by induction on
  the levels above; its two cases (the parent has room, the parent is split in turn) are
  \<open>climb_simple_levels\<close> and \<open>split_climbing\<close> / \<open>split_climbed\<close>.
\<close>

subsection \<open>A new root\<close>

lemma rep_root: "rep t1 t V D \<Longrightarrow> rep (t1\<lparr>root := x\<rparr>) (t\<lparr>root := x\<rparr>) V D"
  by (auto simp: rep_def quiet_def calm_def env_def slot_simps)

lemma rep_level: "rep t1 t V D \<Longrightarrow> rep (t1\<lparr>level := x\<rparr>) (t\<lparr>level := x\<rparr>) V D"
  by (auto simp: rep_def quiet_def calm_def env_def slot_simps)

lemma alloc_ok_sel [simp]:
  "alloc_ok (t\<lparr>root := x\<rparr>) S = alloc_ok t S" "alloc_ok (t\<lparr>level := y\<rparr>) S = alloc_ok t S"
  by (simp_all add: alloc_ok_def)

lemma wp_append_case:
  assumes "rep t0 t V D" "alloc_ok t0 S" "cfg_ok t0" "p \<in> dom V"
    "\<And>t' x. x \<notin> S \<Longrightarrow> alloc_ok t' (insert x S) \<Longrightarrow> calm t0 t' \<Longrightarrow>
      rep t' t' (V(p \<mapsto> (the (V p))\<lparr>self := x\<rparr>)) D \<Longrightarrow> wp (g x t') Q"
  shows "wp (case new_node_append t p of (x, t) \<Rightarrow> g x t) Q"
  using wp_new_node_append [OF assms(1-4), where g = "\<lambda>(x, t). g x t"] assms(5) by simp

lemma wp_root_links:
  assumes r: "rep t1 t [pl \<mapsto> lb, pr \<mapsto> rb, q \<mapsto> b] D" "pl \<noteq> pr" "q \<noteq> pl" "q \<noteq> pr" "self b = x"
    and Q: "\<And>t' lv. rep (t1\<lparr>root := x, level := lv\<rparr>) t' Map.empty
      (D(self lb \<mapsto> lb\<lparr>parent := x\<rparr>, self rb \<mapsto> rb\<lparr>parent := x\<rparr>, x \<mapsto> b)) \<Longrightarrow> Q (0, t')"
  shows "wp (node_flush ((upd (upd (t\<lparr>root := x\<rparr>) pl (\<lambda>n. n\<lparr>parent := x\<rparr>)) pr
        (\<lambda>n. n\<lparr>parent := self (nd (upd (t\<lparr>root := x\<rparr>) pl (\<lambda>n. n\<lparr>parent := x\<rparr>)) q)\<rparr>))
          \<lparr>level := level t + 1\<rparr>) (Some pl) \<bind>
      (\<lambda>t. node_flush t (Some pr) \<bind> (\<lambda>t. node_flush t (Some q) \<bind> (\<lambda>t. Some (0, t))))) Q"
proof -
  note [simp] = r(2-5) r(2-4) [symmetric]
  have r1: "rep (t1\<lparr>root := x\<rparr>) (upd (t\<lparr>root := x\<rparr>) pl (\<lambda>n. n\<lparr>parent := x\<rparr>))
      [pl \<mapsto> lb\<lparr>parent := x\<rparr>, pr \<mapsto> rb, q \<mapsto> b] D"
    using rep_upd [OF rep_root [OF r(1), of x], of pl "\<lambda>n. n\<lparr>parent := x\<rparr>"] by (simp add: fun_upd_twist)
  have r2: "rep (t1\<lparr>root := x\<rparr>) (upd (upd (t\<lparr>root := x\<rparr>) pl (\<lambda>n. n\<lparr>parent := x\<rparr>)) pr (\<lambda>n. n\<lparr>parent := x\<rparr>))
      [pl \<mapsto> lb\<lparr>parent := x\<rparr>, pr \<mapsto> rb\<lparr>parent := x\<rparr>, q \<mapsto> b] D"
    using rep_upd [OF r1, of pr "\<lambda>n. n\<lparr>parent := x\<rparr>"] by (simp add: fun_upd_twist)
  have n2: "nd (upd (t\<lparr>root := x\<rparr>) pl (\<lambda>n. n\<lparr>parent := x\<rparr>)) q = b"
    using rep_nd [OF r1, of q] by simp
  from rep_level [OF r2, of "level t + 1"] show ?thesis
    apply (simp add: n2)
    apply (rule wp_bind, erule wp_flush, simp, simp)
    apply (rule wp_bind, erule wp_flush, simp, simp)
    apply (rule wp_bind, erule wp_flush, simp, simp)
    apply (rule wp_Some, rule Q, simp)
    done
qed

lemma new_root_body:
  assumes "length (keys b) = Om - Suc 0" "length (subs b) = Om" "4 \<le> Om" "ntype b = BPLUS_TREE_NON_LEAF"
  shows "inner_body Om (LN x [key] [l, r] [])
    (b\<lparr>keys := (keys b)[0 := key], subs := (subs b)[0 := l, Suc 0 := r], children := 2, self := x\<rparr>)"
proof -
  obtain k ks where k: "keys b = k # ks" using assms by (cases "keys b") auto
  obtain s1 s2 ss where s: "subs b = s1 # s2 # ss" using assms by (cases "subs b"; cases "tl (subs b)") auto
  show ?thesis using assms k s by (simp add: inner_body_def)
qed

lemma wp_new_root:
  assumes r: "rep t0 t [pl \<mapsto> lb, pr \<mapsto> rb] D" "pl \<noteq> pr"
    and al: "alloc_ok t0 S" "cfg_ok t0" and Om: "int Om = max_order t0"
    and p: "parent lb = INVALID_OFFSET" "parent rb = INVALID_OFFSET"
    and Q: "\<And>t1 t' x b. x \<notin> S \<Longrightarrow> alloc_ok t1 (insert x S) \<Longrightarrow> env t1 = env t0 \<Longrightarrow> root t1 = x \<Longrightarrow>
      inner_body Om (LN x [key] [self lb, self rb] []) b \<Longrightarrow>
      header b x INVALID_OFFSET INVALID_OFFSET INVALID_OFFSET \<Longrightarrow>
      rep t1 t' Map.empty (D(self lb \<mapsto> lb\<lparr>parent := x\<rparr>, self rb \<mapsto> rb\<lparr>parent := x\<rparr>, x \<mapsto> b)) \<Longrightarrow> Q (0, t')"
  shows "wp (parent_node_build f t pl pr key) Q"
proof -
  have m: "pl < MIN_CACHE_NUM" "pr < MIN_CACHE_NUM" "nd t pl = lb" "nd t pr = rb"
    using repD(6,7) [OF r(1), of pl] repD(6,7) [OF r(1), of pr] r(2) by auto
  have room: "room [pl \<mapsto> lb, pr \<mapsto> rb]" by (rule room_le_4 [of _ pl pr pl pl]) auto
  have Om4: "4 \<le> Om" using al(2) Om by (simp add: cfg_ok_def)
  note [simp] = r(2) r(2) [symmetric] p m(3,4) rep_nd
  show ?thesis
    unfolding parent_node_build_def
    apply (insert r(1) Om4)
    apply simp
    apply (rule wp_bind, erule wp_non_leaf_new [OF _ room])
    apply (simp add: Om [symmetric] not_sym nat_diff_distrib)
    apply (rule wp_bind, erule wp_set(1), (simp; fail)+, simp)
    apply (rule wp_bind, erule wp_set(2), (simp; fail)+, simp)
    apply (rule wp_bind, erule wp_set(2), (simp; fail)+, simp)
    apply (drule_tac p = q and f = "\<lambda>n. n\<lparr>children := 2\<rparr>" in rep_upd, simp)
    apply (erule wp_append_case [OF _ al], simp)
    apply (simp add: Let_def nd_record)
    apply (rule wp_root_links, assumption, simp_all)
    apply (rule_tac x = off and b = "b\<lparr>keys := (keys b)[0 := key], subs := (subs b)[0 := self lb, Suc 0 := self rb],
        children := 2, self := off\<rparr>" in Q [rotated 6], assumption)
         apply (simp_all add: env_def calm_def header_def new_root_body)
    done
qed

subsection \<open>One level of the climb\<close>

lemma wp_non_leaf_insert_split:
  assumes r: "rep t0 t [l \<mapsto> lb, r \<mapsto> rb, node \<mapsto> nb] D" "l \<noteq> r" "node \<noteq> l" "node \<noteq> r"
    and al: "alloc_ok t0 S" "cfg_ok t0" and Om: "int Om = max_order t0"
    and b: "inner_body Om m nb" "length (lsubs m) = Om"
    and i: "key_binary_search nb key = Some (- int i - 1)" "i < Om"
    and s: "self lb \<noteq> INVALID_OFFSET" "self rb \<noteq> INVALID_OFFSET"
    and nbr: "prev nb = INVALID_OFFSET \<or> on_disk D (prev nb)" "nxt nb = INVALID_OFFSET \<or> on_disk D (nxt nb)"
    and ch: "\<And>j. j < Om \<Longrightarrow> j \<noteq> i \<Longrightarrow> on_disk D (lsubs m ! j)"
    and Q: "\<And>t1 t' x p1 p2 c1 c2 u lft. x \<notin> S \<Longrightarrow> alloc_ok t1 (insert x S) \<Longrightarrow> calm t0 t1 \<Longrightarrow> p1 \<noteq> p2 \<Longrightarrow>
      u < Om \<Longrightarrow> (if lft then i < u else u < i) \<Longrightarrow> Om div 2 \<le> Suc u \<Longrightarrow> Om div 2 \<le> Om - u \<Longrightarrow>
      inner_body Om (LN 0 (take u (ins_at i key (lkeys m))) (take (Suc u) (ins_two i (self lb) (self rb) (lsubs m))) []) c1 \<Longrightarrow>
      header c1 (if lft then x else self nb) (if lft then INVALID_OFFSET else parent nb) (prev nb) (if lft then self nb else x) \<Longrightarrow>
      inner_body Om (LN 0 (drop (Suc u) (ins_at i key (lkeys m))) (drop (Suc u) (ins_two i (self lb) (self rb) (lsubs m))) []) c2 \<Longrightarrow>
      header c2 (if lft then self nb else x) (if lft then parent nb else INVALID_OFFSET) (if lft then x else self nb) (nxt nb) \<Longrightarrow>
      rep t1 t' [p1 \<mapsto> c1, p2 \<mapsto> c2]
        (set_par x (set (if lft then take (Suc u) (ins_two i (self lb) (self rb) (lsubs m))
                         else drop (Suc u) (ins_two i (self lb) (self rb) (lsubs m))))
          ((if lft then nxt_upd (prev nb) x D else prev_upd (nxt nb) x D)(self lb \<mapsto> lb, self rb \<mapsto> rb))) \<Longrightarrow>
      wp (parent_node_build (non_leaf_insert f) t' p1 p2 (ins_at i key (lkeys m) ! u)) Q"
  shows "wp (non_leaf_insert (Suc f) t node l r key) Q"
proof -
  define V where "V = [l \<mapsto> lb, r \<mapsto> rb, node \<mapsto> nb]"
  have V: "l \<in> dom V" "r \<in> dom V" "node \<in> dom V" "the (V l) = lb" "the (V r) = rb" "the (V node) = nb"
    using r(2-4) by (auto simp: V_def)
  have room: "room V" by (rule room_le_4 [of _ l r node node]) (auto simp: V_def)
  have n: "nd t node = nb" "max_order t = int Om"
    using rep_nd [OF r(1), of node] repD(8) [OF r(1)] r Om by auto
  have c: "children nb = int Om" using b by (simp add: inner_body_def)
  have Om4: "4 \<le> Om" using al(2) Om by (simp add: cfg_ok_def)
  let ?s = "Om div 2"
  have sib: "wp (case ps of (sibling, t) \<Rightarrow>
         (if int i < int ?s then non_leaf_split_left t node sibling l r key (int i) (int ?s)
          else if int i = int ?s then non_leaf_split_right1 t node sibling l r key (int i) (int ?s)
          else non_leaf_split_right2 t node sibling l r key (int i) (int ?s)) \<bind>
        (\<lambda>(split_key, t).
         if int i < int ?s then parent_node_build (non_leaf_insert f) t sibling node split_key
         else parent_node_build (non_leaf_insert f) t node sibling split_key)) Q"
    if ps: "ps = (q, t2)" "q \<notin> dom V" "rep t0 t2 (V(q \<mapsto> sb)) D" "fresh_inner Om sb" for ps q t2 sb
  proof -
    let ?W = "V(q \<mapsto> sb)"
    have q: "q \<noteq> l" "q \<noteq> r" "q \<noteq> node" using ps(2) V by auto
    have W: "l \<in> dom ?W" "r \<in> dom ?W" "node \<in> dom ?W" "q \<in> dom ?W" "the (?W l) = lb" "the (?W r) = rb"
      "the (?W node) = nb" "the (?W q) = sb"
      using V q by auto
    have roomW: "room ?W" by (rule room_le_4 [of _ l r node q]) (auto simp: V_def)
    have W': "V(q \<mapsto> b1, node \<mapsto> b2, l := None, r := None) = [q \<mapsto> b1, node \<mapsto> b2]" for b1 b2
      using r(2-4) q by (auto simp: V_def fun_eq_iff)
    have W'': "V(node \<mapsto> b1, q \<mapsto> b2, l := None, r := None) = [node \<mapsto> b1, q \<mapsto> b2]" for b1 b2
      using r(2-4) q by (auto simp: V_def fun_eq_iff)
    note [simp] = r(2-4) r(2-4) [symmetric] q q [symmetric]
    consider "i < ?s" | "i = ?s" | "?s < i" by linarith
    then show ?thesis
    proof cases
      case 1
      then show ?thesis
        apply (simp add: ps(1))
        apply (rule wp_bind)
        apply (rule wp_non_leaf_split_left [OF ps(3) W(3,4,1,2) _ _ _ _ _ _ roomW al Om, where m = m and s = ?s and ?x1.0 = 0 and ?x2.0 = 0])
                     apply (simp_all add: W b ps(4) s nbr ch del: fun_upd_apply)
        apply (rule Q [where lft = True], assumption+)
               apply (use Om4 in \<open>simp_all add: W'\<close>)
        done
    next
      case 2
      obtain u where u: "Suc u = i" using 2 Om4 by (cases i) auto
      have u': "u < Om" "i \<le> Om - u" "u < i" using u 2 by auto
      show ?thesis
        apply (simp add: ps(1) 2 [symmetric])
        apply (rule wp_bind)
        apply (rule wp_non_leaf_split_right1 [OF ps(3) W(3,4,1,2) _ _ _ _ _ _ roomW al Om,
              where m = m and u = u and ?x1.0 = 0 and ?x2.0 = 0])
                     apply (simp_all add: W b ps(4) s nbr ch 2 [symmetric] del: fun_upd_apply)
         apply (rule u)
        apply (rule Q [where lft = False and u = u], assumption+)
               apply (use u' in \<open>simp_all add: u W'' 2 [symmetric] del: fun_upd_apply\<close>)
        done
    next
      case 3
      then show ?thesis
        apply (simp add: ps(1))
        apply (rule wp_bind)
        apply (rule wp_non_leaf_split_right2 [OF ps(3) W(3,4,1,2) _ _ _ _ _ _ roomW al Om,
              where m = m and ?x1.0 = 0 and ?x2.0 = 0])
                     apply (use Om4 i(2) in \<open>simp_all add: W b ps(4) s nbr ch del: fun_upd_apply\<close>)
        apply (rule Q [where lft = False], assumption+)
               apply (use Om4 in \<open>simp_all add: W'' del: fun_upd_apply\<close>)
        done
    qed
  qed
  have d: "int Om div 2 = int ?s" by simp
  show ?thesis
    apply (simp add: non_leaf_insert.simps n i(1) c Let_def)
    apply (rule wp_bind)
    apply (rule wp_non_leaf_new [OF r(1) [folded V_def] room])
    apply (unfold d)
    apply (rule sib, rule refl)
    using Om4 apply (auto simp: fresh_inner_def Om [symmetric] simp del: fun_upd_apply)
    done
qed

subsection \<open>The climb from a split level to the root\<close>

text \<open>
  \<open>climbing\<close>: a node of a level was split into \<open>l\<close> and \<open>r\<close>, which are in the slots \<open>pl\<close> and \<open>pr\<close>
  and not yet known to the level above; one of them still names the old parent \<open>p\<close>, the
  other has none. \<open>b1 @ b2\<close> are the separators of the level before the split and \<open>key\<close> is
  the separator to add. \<open>climbed\<close>: the levels \<open>up'\<close> above have taken it in.
\<close>

definition climbing where
  "climbing E Om t lf pl pr lb rb key p A l r B up P1 P2 b1 b2 S \<longleftrightarrow>
     rep t t [pl \<mapsto> lb, pr \<mapsto> rb] (disk t) \<and> pl \<noteq> pr \<and>
     cfg_ok t \<and> int E = max_entries t \<and> int Om = max_order t \<and> alloc_ok t S \<and>
     off ` set (A @ l # r # B) \<union> set (offs up) \<subseteq> S \<and> distinct (map off (A @ l # r # B) @ offs up) \<and>
     body E Om lf l lb \<and> self lb = off l \<and> prev lb = last_off INVALID_OFFSET A \<and> nxt lb = off r \<and>
     body E Om lf r rb \<and> self rb = off r \<and> prev rb = off l \<and> nxt rb = hd_off B INVALID_OFFSET \<and>
     (parent lb = p \<and> parent rb = INVALID_OFFSET \<or> parent lb = INVALID_OFFSET \<and> parent rb = p) \<and>
     parents up = P1 @ p # P2 \<and> length P1 = length A \<and> length P2 = length B \<and>
     chain (body E Om lf) (disk t) {off l, off r} INVALID_OFFSET (A @ l # r # B)
       (P1 @ parent lb # parent rb # P2) INVALID_OFFSET \<and>
     stored E Om (disk t) False up \<and>
     (up \<noteq> [] \<longrightarrow> linked up \<and> root t = off (hd (last up)) \<and> filled E Om False up \<and>
        (\<exists>y\<in>{off l, off r}. map off A @ y # map off B = concat (map lsubs (hd up)))) \<and>
     length b1 = length A \<and> length b2 = length B \<and> bnds up = b1 @ b2 \<and> sorted_wrt (<) (b1 @ key # b2)"

definition climbed where
  "climbed E Om t t' lf key L up up' b1 b2 S \<longleftrightarrow>
     slots_wf t' \<and> live t' = {} \<and> env t' = env t \<and> alloc_ok t' (S \<union> set (offs up')) \<and>
     set (offs up) \<subseteq> set (offs up') \<and> set (offs up') \<inter> S \<subseteq> set (offs up) \<and> distinct (offs up') \<and>
     up' \<noteq> [] \<and> linked (L # up') \<and>
     chain (body E Om lf) (disk t') {} INVALID_OFFSET L (parents up') INVALID_OFFSET \<and>
     stored E Om (disk t') False up' \<and> filled E Om False up' \<and> bnds up' = b1 @ key # b2 \<and>
     root t' = off (hd (last up')) \<and>
     (\<forall>x\<in>S - off ` set L - set (offs up). disk t' x = disk t x)"

lemma rep_empty: "rep t0 t Map.empty D \<Longrightarrow> slots_wf t \<and> live t = {} \<and> disk t = D \<and> env t = env t0 \<and>
    root t = root t0 \<and> (alloc_ok t S = alloc_ok t0 S)"
  using repD [of t0 t Map.empty D] alloc_ok_quiet [of t0 t]
  by (auto simp: quiet_def calm_def)

lemma climb_root:
  assumes c: "climbing E Om t lf pl pr lb rb key p A l r B [] P1 P2 b1 b2 S"
  shows "wp (parent_node_build f t pl pr key)
    (\<lambda>(rv, t'). rv = 0 \<and> (\<exists>up'. climbed E Om t t' lf key (A @ l # r # B) [] up' b1 b2 S))"
proof -
  note c' = c [unfolded climbing_def]
  have e: "A = []" "B = []" "P1 = []" "P2 = []" "p = INVALID_OFFSET" "b1 = []" "b2 = []"
    using c' by (auto simp: append_eq_Cons_conv Cons_eq_append_conv)
  have INV: "off l \<in> S" "off r \<in> S" "off l \<noteq> off r" using c' by auto
  have "rep t t [pl \<mapsto> lb, pr \<mapsto> rb] (disk t)" "pl \<noteq> pr" "alloc_ok t S" "cfg_ok t" "int Om = max_order t"
    "parent lb = INVALID_OFFSET" "parent rb = INVALID_OFFSET" "4 \<le> Om"
    using c' e by (auto simp: cfg_ok_def)
  then show ?thesis
  proof (intro wp_new_root [where key = key and S = S and Om = Om])
    fix t1 t' x b
    assume x: "x \<notin> S" "alloc_ok t1 (insert x S)" "env t1 = env t" "root t1 = x"
      "inner_body Om (LN x [key] [self lb, self rb] []) b"
      "header b x INVALID_OFFSET INVALID_OFFSET INVALID_OFFSET"
      "rep t1 t' Map.empty ((disk t)(self lb \<mapsto> lb\<lparr>parent := x\<rparr>, self rb \<mapsto> rb\<lparr>parent := x\<rparr>, x \<mapsto> b))"
    let ?m = "LN x [key] [off l, off r] []"
    have t': "slots_wf t'" "live t' = {}" "env t' = env t" "root t' = x" "alloc_ok t' (insert x S)"
      "disk t' = (disk t)(off l \<mapsto> lb\<lparr>parent := x\<rparr>, off r \<mapsto> rb\<lparr>parent := x\<rparr>, x \<mapsto> b)"
      using rep_empty [OF x(7)] x c' by auto
    have "climbed E Om t t' lf key [l, r] [] [[?m]] [] [] S"
      unfolding climbed_def
      using t' x(1,5,6) c' e INV par_ok_body [of E Om lf] \<open>4 \<le> Om\<close>
      by (auto simp: offs_def header_def body_def par_ok_def)
    then show "case (0, t') of (rv, t') \<Rightarrow> rv = 0 \<and> (\<exists>up'. climbed E Om t t' lf key (A @ l # r # B) [] up' b1 b2 S)"
      using e by auto
  qed
qed

lemma cnt_lt_ins:
  assumes "sorted_wrt (<) (ins_at i k ks)" "i \<le> length ks"
  shows "cnt_lt ks k = i" "k \<notin> set ks" "sorted_wrt (<) ks"
proof -
  have s: "sorted_wrt (<) (take i ks @ drop i ks)" "\<forall>x\<in>set (take i ks). x < k" "\<forall>x\<in>set (drop i ks). k < x"
    using assms(1) by (auto simp: ins_at_def sorted_wrt_append simp del: append_take_drop_id)
  then show "sorted_wrt (<) ks" by simp
  have ks: "ks = take i ks @ drop i ks" by simp
  show "k \<notin> set ks" by (subst ks, subst set_append) (use s in auto)
  have "filter (\<lambda>x. x < k) (take i ks @ drop i ks) = take i ks"
    using s(2,3) by (subst filter_append) (auto simp: filter_empty_conv filter_id_conv)
  then show "cnt_lt ks k = i" using assms(2) by (simp add: cnt_lt_def)
qed

lemma chain_header:
  assumes "chain R D {} pv (MA @ m # MB) ps nx"
  obtains R1 q R2 b where "ps = R1 @ q # R2" "length R1 = length MA" "length R2 = length MB"
    "D (off m) = Some b" "header b (off m) q (last_off pv MA) (hd_off MB nx)" "R m b"
proof -
  obtain qs rs where s: "ps = qs @ rs" "length qs = length MA" "length rs = length (m # MB)"
    "chain R D {} pv MA qs (hd_off (m # MB) nx)" "chain R D {} (last_off pv MA) (m # MB) rs nx"
    using chain_split [OF assms] .
  from s(5) obtain q rs' b where "rs = q # rs'" "D (off m) = Some b"
    "header b (off m) q (last_off pv MA) (hd_off MB nx)" "R m b"
    by auto
  with s(1-3) show ?thesis by (intro that [of qs q rs' b]) auto
qed

text \<open>Where the parent \<open>m\<close> of the split node is in its level, and the block \<open>nb\<close> it is stored in.\<close>

definition located where
  "located Om t key l r p A B M up P1 P2 b1 b2 MA m MB s1 s2 y c1 c2 nb R1 R2 \<longleftrightarrow>
    y \<in> {off l, off r} \<and> M = MA @ m # MB \<and> lsubs m = s1 @ y # s2 \<and>
    map off A = concat (map lsubs MA) @ s1 \<and> map off B = s2 @ concat (map lsubs MB) \<and>
    p = off m \<and> P1 = pars MA @ replicate (length s1) (off m) \<and> P2 = replicate (length s2) (off m) @ pars MB \<and>
    bnds up = c1 @ c2 \<and> length c1 = length MA \<and> length c2 = length MB \<and>
    b1 = wpre (map lkeys MA) c1 @ take (length s1) (lkeys m) \<and>
    b2 = drop (length s1) (lkeys m) @ wpost (map lkeys MB) c2 \<and>
    disk t (off m) = Some nb \<and>
    header nb (off m) (parent nb) (last_off INVALID_OFFSET MA) (hd_off MB INVALID_OFFSET) \<and>
    inner_body Om m nb \<and> key_binary_search nb key = Some (- int (length s1) - 1) \<and>
    parents up = R1 @ parent nb # R2 \<and> length R1 = length MA \<and> length R2 = length MB \<and>
    (\<forall>m\<in>set M. length (lsubs m) = Suc (length (lkeys m)))"

lemma climb_parent:
  assumes c: "climbing E Om t lf pl pr lb rb key p A l r B (M # up) P1 P2 b1 b2 S"
  obtains MA m MB s1 s2 y c1 c2 nb R1 R2 where
    "located Om t key l r p A B M up P1 P2 b1 b2 MA m MB s1 s2 y c1 c2 nb R1 R2"
proof -
  note c' = c [unfolded climbing_def]
  obtain y where y: "y \<in> {off l, off r}" "map off A @ y # map off B = concat (map lsubs M)"
    using c' by auto
  have ch: "chain (body E Om False) (disk t) {} INVALID_OFFSET M (parents up) INVALID_OFFSET"
    and st: "stored E Om (disk t) False (M # up)" and lk: "linked (M # up)"
    using c' by auto
  have sub: "\<forall>m\<in>set M. length (lsubs m) = Suc (length (lkeys m))"
    using chain_member [OF ch] by (auto simp: body_def inner_body_def)
  have len: "length M = Suc (length (bnds up))"
    using length_bnds [OF lk stored_all_subs [OF st]] .
  obtain MA m MB s1 s2 c1 c2 where M: "M = MA @ m # MB" "lsubs m = s1 @ y # s2"
    "map off A = concat (map lsubs MA) @ s1" "map off B = s2 @ concat (map lsubs MB)"
    "p = off m" "P1 = pars MA @ replicate (length s1) (off m)" "P2 = replicate (length s2) (off m) @ pars MB"
    "bnds up = c1 @ c2" "length c1 = length MA" "length c2 = length MB"
    "b1 = wpre (map lkeys MA) c1 @ take (length s1) (lkeys m)"
    "b2 = drop (length s1) (lkeys m) @ wpost (map lkeys MB) c2"
    by (rule parent_locate [OF y(2) sub, of up P1 p P2 b1 b2]) (use c' len in simp_all)
  obtain R1 q R2 nb where R: "parents up = R1 @ q # R2" "length R1 = length MA" "length R2 = length MB"
    "disk t (off m) = Some nb" "header nb (off m) q (last_off INVALID_OFFSET MA) (hd_off MB INVALID_OFFSET)"
    "body E Om False m nb"
    using chain_header [OF ch [unfolded M(1)]] .
  have ib: "inner_body Om m nb" using R(6) by (simp add: body_def)
  have i: "length s1 \<le> length (lkeys m)" using sub M(1,2) by simp
  have "sorted_wrt (<) (b1 @ key # b2)" using c' by simp
  then have "sorted_wrt (<) (ins_at (length s1) key (lkeys m))"
    by (simp add: M(11,12) ins_at_def sorted_wrt_append)
  note k = cnt_lt_ins [OF this i]
  have "key_binary_search nb key = Some (- int (length s1) - 1)"
    using inner_body_search(2) [OF ib k(3), of key] k by simp
  moreover have "q = parent nb" using R(5) by (simp add: header_def)
  ultimately have "located Om t key l r p A B M up P1 P2 b1 b2 MA m MB s1 s2 y c1 c2 nb R1 R2"
    unfolding located_def using y(1) M R(1-5) ib sub by (intro conjI) simp_all
  then show ?thesis by (rule that)
qed

lemma locatedD:
  assumes "located Om t key l r p A B M up P1 P2 b1 b2 MA m MB s1 s2 y c1 c2 nb R1 R2"
  shows "y \<in> {off l, off r}" "M = MA @ m # MB" "lsubs m = s1 @ y # s2"
    "map off A = concat (map lsubs MA) @ s1" "map off B = s2 @ concat (map lsubs MB)"
    "p = off m" "P1 = pars MA @ replicate (length s1) (off m)" "P2 = replicate (length s2) (off m) @ pars MB"
    "bnds up = c1 @ c2" "length c1 = length MA" "length c2 = length MB"
    "b1 = wpre (map lkeys MA) c1 @ take (length s1) (lkeys m)"
    "b2 = drop (length s1) (lkeys m) @ wpost (map lkeys MB) c2"
    "disk t (off m) = Some nb" "header nb (off m) (parent nb) (last_off INVALID_OFFSET MA) (hd_off MB INVALID_OFFSET)"
    "inner_body Om m nb" "key_binary_search nb key = Some (- int (length s1) - 1)"
    "parents up = R1 @ parent nb # R2" "length R1 = length MA" "length R2 = length MB"
    "\<forall>m\<in>set M. length (lsubs m) = Suc (length (lkeys m))"
  using assms unfolding located_def by - (elim conjE, assumption)+

text \<open>The facts about both levels that the two cases of the climb share.\<close>

lemma climb_facts:
  assumes c: "climbing E Om t lf pl pr lb rb key p A l r B (M # up) P1 P2 b1 b2 S"
    and loc: "located Om t key l r p A B M up P1 P2 b1 b2 MA m MB s1 s2 y c1 c2 nb R1 R2"
  shows "filled E Om False (M # up)" "linked (M # up)" "root t = off (hd (last (M # up)))" "alloc_ok t S"
    "set (offs (M # up)) \<subseteq> S" "off ` set (A @ l # r # B) \<subseteq> S"
    "chain (body E Om False) (disk t) {} INVALID_OFFSET (MA @ m # MB) (parents up) INVALID_OFFSET"
    "stored E Om (disk t) False up" "distinct (map off (A @ l # r # B))"
    "distinct (map off M)" "distinct (offs (M # up))" "off ` set (A @ l # r # B) \<inter> set (offs (M # up)) = {}"
    "off ` set M \<inter> set (offs up) = {}" "cfg_ok t" "INVALID_OFFSET \<notin> S"
    "chain (body E Om lf) ((disk t)(off l \<mapsto> lb\<lparr>parent := off m\<rparr>, off r \<mapsto> rb\<lparr>parent := off m\<rparr>)) {} INVALID_OFFSET
       (A @ l # r # B) (P1 @ off m # off m # P2) INVALID_OFFSET"
proof -
  note c' = c [unfolded climbing_def]
  have dis: "distinct (map off (A @ l # r # B) @ offs (M # up))" using c' by (simp only: simp_thms)
  then show dl: "distinct (map off (A @ l # r # B))" and "distinct (offs (M # up))"
    "off ` set (A @ l # r # B) \<inter> set (offs (M # up)) = {}"
    by (simp_all only: distinct_append set_map simp_thms)
  then show "distinct (map off M)" "off ` set M \<inter> set (offs up) = {}"
    by (simp_all add: offs_def)
  show "filled E Om False (M # up)" "linked (M # up)" "root t = off (hd (last (M # up)))" "alloc_ok t S" "cfg_ok t"
    "set (offs (M # up)) \<subseteq> S" "off ` set (A @ l # r # B) \<subseteq> S"
    using c' by simp_all
  show "INVALID_OFFSET \<notin> S" using alloc_ok_INVALID(1) [of t S] c' by simp
  have "stored E Om (disk t) False (M # up)" using c' by simp
  then show "chain (body E Om False) (disk t) {} INVALID_OFFSET (MA @ m # MB) (parents up) INVALID_OFFSET"
    "stored E Om (disk t) False up"
    using locatedD(2) [OF loc] by simp_all
  show "chain (body E Om lf) ((disk t)(off l \<mapsto> lb\<lparr>parent := off m\<rparr>, off r \<mapsto> rb\<lparr>parent := off m\<rparr>)) {} INVALID_OFFSET
       (A @ l # r # B) (P1 @ off m # off m # P2) INVALID_OFFSET"
  proof (rule chain_fill_two)
    show "chain (body E Om lf) (disk t) {off l, off r} INVALID_OFFSET (A @ l # r # B)
       (P1 @ parent lb # parent rb # P2) INVALID_OFFSET" using c' by simp
  qed (use c' dl par_ok_body [of E Om lf] in \<open>simp_all add: header_def par_ok_def\<close>)
qed

subsection \<open>The parent has room\<close>

lemma chain_replace:
  assumes "chain R D {} pv (MA @ m # MB) ps nx" "off m' = off m" "distinct (map off (MA @ m # MB))"
    and "D (off m) = Some b0" "header b (off m) (parent b0) (prev b0) (nxt b0)" "R m' b"
    and "\<And>x. x \<in> off ` (set MA \<union> set MB) \<Longrightarrow> D' x = D x" "D' (off m) = Some b"
  shows "chain R D' {} pv (MA @ m' # MB) ps nx"
proof -
  obtain qs rs where s: "ps = qs @ rs" "length qs = length MA" "length rs = length (m # MB)"
    "chain R D {} pv MA qs (hd_off (m # MB) nx)" "chain R D {} (last_off pv MA) (m # MB) rs nx"
    using chain_split [OF assms(1)] .
  have "chain R D' {} pv MA qs (off m)"
    by (rule chain_cong [OF s(4) [simplified]]) (use assms(7) in auto)
  moreover obtain q rs' where rs: "rs = q # rs'" "header b0 (off m) q (last_off pv MA) (hd_off MB nx)"
      "chain R D {} (off m) MB rs' nx"
    using s(5) assms(4) by auto
  moreover have "chain R D' {} (off m) MB rs' nx"
    by (rule chain_cong [OF rs(3)]) (use assms(7) in auto)
  ultimately show ?thesis
    using s(1,2) assms(2,5,6,8) by (auto simp: chain_append header_def)
qed

lemma filled_replace:
  assumes "filled E Om False ((MA @ m # MB) # up)" "length (lsubs m) \<le> length (lsubs m')"
  shows "filled E Om False ((MA @ m' # MB) # up)"
  using assms by (cases up) auto

lemma linked_replace:
  assumes "linked ((MA @ m # MB) # up)" "off m' = off m"
  shows "linked ((MA @ m' # MB) # up)"
  using assms by (cases up) auto

lemma ins_two_mid: "i = length s1 \<Longrightarrow> ins_two i l r (s1 @ y # s2) = s1 @ l # r # s2"
  by (simp add: ins_two_def)

lemma climb_simple_levels:
  assumes c: "climbing E Om t lf pl pr lb rb key p A l r B (M # up) P1 P2 b1 b2 S"
    and loc: "located Om t key l r p A B M up P1 P2 b1 b2 MA m MB s1 s2 y c1 c2 nb R1 R2"
    and m': "m' = LN (off m) (ins_at (length s1) key (lkeys m)) (ins_two (length s1) (off l) (off r) (lsubs m)) []"
    and b: "inner_body Om m' b" "header b (off m) (parent nb) (prev nb) (nxt nb)"
    and t': "rep t t' Map.empty ((disk t)(off l \<mapsto> lb\<lparr>parent := off m\<rparr>, off r \<mapsto> rb\<lparr>parent := off m\<rparr>, off m \<mapsto> b))"
  shows "climbed E Om t t' lf key (A @ l # r # B) (M # up) ((MA @ m' # MB) # up) b1 b2 S"
proof -
  note M = locatedD [OF loc] and g = climb_facts [OF c loc]
  let ?D = "(disk t)(off l \<mapsto> lb\<lparr>parent := off m\<rparr>, off r \<mapsto> rb\<lparr>parent := off m\<rparr>)"
  have s: "slots_wf t'" "live t' = {}" "disk t' = ?D(off m \<mapsto> b)" "env t' = env t" "root t' = root t"
    "alloc_ok t' S" using rep_empty [OF t', of S] g(4) by simp_all
  have o: "off m' = off m" by (simp add: m')
  have ofs: "offs ((MA @ m' # MB) # up) = offs (M # up)" by (simp add: offs_def M(2) o)
  have out: "off l \<notin> set (offs (M # up))" "off r \<notin> set (offs (M # up))" "off m \<notin> set (offs up)"
    "off m \<notin> off ` set (A @ l # r # B)"
    using g(12,13) by (auto simp: offs_def M(2))
  have ne: "off n \<noteq> off m" if "n \<in> set (A @ l # r # B)" for n
    using that out(4) by (metis imageI)
  have sub: "lsubs m' = s1 @ off l # off r # s2" by (simp add: m' M(3) ins_two_mid)
  have par: "parents ((MA @ m' # MB) # up) = P1 @ off m # off m # P2"
    unfolding parents_pars by (simp add: sub M(7,8) o replicate_add replicate_app_Cons_same)
  have "chain (body E Om lf) (disk t') {} INVALID_OFFSET (A @ l # r # B) (parents ((MA @ m' # MB) # up)) INVALID_OFFSET"
    unfolding par s(3) by (rule chain_cong [OF g(16)]) (use ne in simp)
  moreover have "chain (body E Om False) (disk t') {} INVALID_OFFSET (MA @ m' # MB) (parents up) INVALID_OFFSET"
  proof (rule chain_replace [OF g(7) o])
    show "distinct (map off (MA @ m # MB))" using g(10) by (simp only: M(2))
    show "disk t' x = disk t x" if "x \<in> off ` (set MA \<union> set MB)" for x
    proof -
      have "off m \<notin> off ` (set MA \<union> set MB)" using g(10) by (simp add: M(2) image_Un)
      then have "x \<noteq> off m" using that by metis
      moreover have "x \<in> set (offs (M # up))" using that by (auto simp: offs_def M(2))
      ultimately show ?thesis using out by (auto simp: s(3))
    qed
  qed (use b M(14) in \<open>simp_all add: s(3) body_def\<close>)
  moreover have "stored E Om (disk t') False up"
  proof (rule stored_cong [OF g(8)])
    show "disk t' x = disk t x" if "x \<in> set (offs up)" for x
    proof -
      have "x \<in> set (offs (M # up))" using that by (auto simp: offs_def)
      then show ?thesis using that out by (auto simp: s(3))
    qed
  qed
  moreover have "filled E Om False ((MA @ m' # MB) # up)"
    by (rule filled_replace [of _ _ _ m]) (use g(1) in \<open>simp_all add: M(2,3) sub\<close>)
  moreover have "linked ((A @ l # r # B) # (MA @ m' # MB) # up)"
    using linked_replace [of MA m MB up m'] g(2) o by (simp add: M(2,4,5) sub)
  moreover have "bnds ((MA @ m' # MB) # up) = b1 @ key # b2"
    by (simp add: m' weave_mid ins_at_def M(9-13))
  moreover have "root t' = off (hd (last ((MA @ m' # MB) # up)))"
    using g(3) s(5) o by (cases up; cases MA) (simp_all add: M(2))
  moreover have "\<forall>x\<in>S - off ` set (A @ l # r # B) - set (offs (M # up)). disk t' x = disk t x"
    by (auto simp: s(3) offs_def M(2))
  ultimately show ?thesis
    unfolding climbed_def ofs using s(1,2,4,6) g(5,11) by (simp add: Un_absorb2)
qed

subsection \<open>The parent is split in turn\<close>

lemma reparent_pars:
  assumes "distinct (concat (map lsubs MA) @ S1 @ S2 @ concat (map lsubs MB))"
  shows "reparent x (set (if lft then S1 else S2)) (concat (map lsubs MA) @ S1 @ S2 @ concat (map lsubs MB))
      (pars MA @ replicate (length S1 + length S2) y @ pars MB) =
    pars MA @ replicate (length S1) (if lft then x else y) @ replicate (length S2) (if lft then y else x) @ pars MB"
proof -
  let ?X = "set (if lft then S1 else S2)"
  have "reparent x ?X (concat (map lsubs MA)) (pars MA) = pars MA"
    "reparent x ?X (concat (map lsubs MB)) (pars MB) = pars MB"
    by (rule reparent_none; use assms in \<open>auto simp: length_pars\<close>)+
  moreover have "reparent x ?X S1 (replicate (length S1) y) = replicate (length S1) (if lft then x else y)"
    using assms by (cases lft) (auto intro: reparent_none simp: reparent_all)
  moreover have "reparent x ?X S2 (replicate (length S2) y) = replicate (length S2) (if lft then y else x)"
    using assms by (cases lft) (auto intro: reparent_none simp: reparent_all)
  ultimately show ?thesis
    by (simp add: replicate_add reparent_append length_pars del: if_image_distrib)
qed

lemma split_level_chain:
  assumes lev: "chain R ((D::int \<rightharpoonup> bplus_node)(off l \<mapsto> lb\<lparr>parent := y\<rparr>, off r \<mapsto> rb\<lparr>parent := y\<rparr>)) {} INVALID_OFFSET L
      (pars MA @ replicate (length (S1 @ S2)) y @ pars MB) INVALID_OFFSET"
    and R: "par_ok R" and L: "map off L = concat (map lsubs MA) @ S1 @ S2 @ concat (map lsubs MB)" "distinct (map off L)"
    and lr: "{off l, off r} \<subseteq> set (if lft then S1 else S2)"
    and N: "\<And>z. z \<in> off ` set L \<Longrightarrow> D' z = D z"
  shows "chain R (set_par x (set (if lft then S1 else S2)) (D'(off l \<mapsto> lb, off r \<mapsto> rb))) {} INVALID_OFFSET L
     (pars MA @ replicate (length S1) (if lft then x else y) @ replicate (length S2) (if lft then y else x) @ pars MB)
     INVALID_OFFSET"
proof -
  let ?X = "set (if lft then S1 else S2)"
  have "chain R (set_par x ?X (D(off l \<mapsto> lb\<lparr>parent := y\<rparr>, off r \<mapsto> rb\<lparr>parent := y\<rparr>))) {} INVALID_OFFSET L
     (reparent x ?X (map off L) (pars MA @ replicate (length (S1 @ S2)) y @ pars MB)) INVALID_OFFSET"
    by (rule chain_reparent [OF lev R])
  then have "chain R (set_par x ?X (D(off l \<mapsto> lb\<lparr>parent := y\<rparr>, off r \<mapsto> rb\<lparr>parent := y\<rparr>))) {} INVALID_OFFSET L
     (pars MA @ replicate (length S1) (if lft then x else y) @ replicate (length S2) (if lft then y else x) @ pars MB)
     INVALID_OFFSET"
    using reparent_pars [OF L(2) [unfolded L(1)], of x lft y] by (simp only: L(1) length_append)
  then show ?thesis
  proof (rule chain_cong)
    fix n assume n: "n \<in> set L" "off n \<notin> {}"
    have "set_par x ?X (D'(off l \<mapsto> lb, off r \<mapsto> rb)) (off n) =
        set_par x ?X (D(off l \<mapsto> lb\<lparr>parent := y\<rparr>, off r \<mapsto> rb\<lparr>parent := y\<rparr>)) (off n)"
      using lr N [of "off n"] n(1) by (auto simp: set_par_def simp del: if_image_distrib)
    then show "off n \<notin> {} \<and> set_par x ?X (D'(off l \<mapsto> lb, off r \<mapsto> rb)) (off n) =
        set_par x ?X (D(off l \<mapsto> lb\<lparr>parent := y\<rparr>, off r \<mapsto> rb\<lparr>parent := y\<rparr>)) (off n)"
      by simp
  qed
qed

lemma chain_split_node:
  assumes ch: "chain R D {} INVALID_OFFSET (MA @ m # MB) (R1 @ q # R2) INVALID_OFFSET" "length R1 = length MA"
    and R: "par_ok R" and dis: "distinct (map off (MA @ m # MB))" "INVALID_OFFSET \<notin> off ` set (MA @ m # MB)"
    and x: "x \<notin> off ` set (MA @ m # MB)"
    and o: "off m1 = (if lft then x else off m)" "off m2 = (if lft then off m else x)"
    and D': "\<And>z. z \<in> off ` set (MA @ MB) \<Longrightarrow>
      D' z = (if lft then nxt_upd (last_off INVALID_OFFSET MA) x D else prev_upd (hd_off MB INVALID_OFFSET) x D) z"
  shows "chain R D' {off m1, off m2} INVALID_OFFSET (MA @ m1 # m2 # MB) (R1 @ q1 # q2 # R2) INVALID_OFFSET"
proof -
  have cA: "chain R D {} INVALID_OFFSET MA R1 (off m)" and cB: "chain R D {} (off m) MB R2 INVALID_OFFSET"
    using ch by (auto simp: chain_append)
  have "chain R D' {off m1, off m2} INVALID_OFFSET MA R1 (off m1)"
  proof (cases lft)
    case True
    have "chain R (nxt_upd (last_off INVALID_OFFSET MA) x D) {} INVALID_OFFSET MA R1 x"
      by (rule chain_link_left [OF cA R]) (use dis in auto)
    then show ?thesis using True o D' by (auto elim!: chain_cong)
  next
    case False
    have "D' (off n) = D (off n)" if "n \<in> set MA" for n
    proof -
      have "off n \<noteq> hd_off MB INVALID_OFFSET" using that dis by (cases MB) (auto simp: image_iff)
      then show ?thesis using that False D' [of "off n"] by (simp add: prev_upd_def)
    qed
    then show ?thesis using False o cA by (auto elim!: chain_cong)
  qed
  moreover have "chain R D' {off m1, off m2} (off m2) MB R2 INVALID_OFFSET"
  proof (cases lft)
    case True
    have "D' (off n) = D (off n)" if "n \<in> set MB" for n
    proof -
      have "last_off INVALID_OFFSET MA = INVALID_OFFSET \<or> last_off INVALID_OFFSET MA \<in> off ` set MA"
        by (cases MA rule: rev_cases) auto
      moreover have "off n \<in> off ` set MB" using that by simp
      moreover have "off ` set MA \<inter> off ` set MB = {}" "INVALID_OFFSET \<notin> off ` set MB" using dis by auto
      ultimately have "off n \<noteq> last_off INVALID_OFFSET MA" by (metis disjoint_iff)
      then show ?thesis using that True D' [of "off n"] by (simp add: nxt_upd_def)
    qed
    then show ?thesis using True o cB by (auto elim!: chain_cong)
  next
    case False
    have "chain R (prev_upd (hd_off MB INVALID_OFFSET) x D) {} x MB R2 INVALID_OFFSET"
      by (rule chain_link_right [OF cB R]) (use dis in auto)
    then show ?thesis using False o D' by (auto elim!: chain_cong)
  qed
  ultimately show ?thesis using ch(2) by (simp add: chain_append)
qed

lemma set_wpost: "length bs = length kss \<Longrightarrow> set (wpost kss bs) = \<Union>(set ` set kss) \<union> set bs"
  by (induction kss bs rule: list_induct2') auto

lemma sorted_wpre_wpost:
  "length bs = length kss \<Longrightarrow> sorted_wrt (<) (wpre kss bs) \<Longrightarrow> sorted_wrt (<) bs"
  "length bs = length kss \<Longrightarrow> sorted_wrt (<) (wpost kss bs) \<Longrightarrow> sorted_wrt (<) bs"
  by (induction kss bs rule: list_induct2') (auto simp: sorted_wrt_append set_wpre set_wpost)

lemma sorted_separators:
  assumes "sorted_wrt (<) (wpre A c1 @ ks @ wpost B c2)" "length c1 = length A" "length c2 = length B" "k \<in> set ks"
  shows "sorted_wrt (<) (c1 @ k # c2)"
  using assms sorted_wpre_wpost(1) [of c1 A] sorted_wpre_wpost(2) [of c2 B]
  by (auto simp: sorted_wrt_append set_wpre set_wpost)

lemma rep_rebase: "rep t0 t V D \<Longrightarrow> rep t t V D"
  by (auto simp: rep_def quiet_def calm_def)

text \<open>What a split of the parent leaves behind: the two halves \<open>m1\<close>, \<open>m2\<close> in slots and the disk.\<close>

definition split_done where
  "split_done E Om t t' S x u lft p1 p2 d1 d2 m1 m2 key l r lb rb m nb i \<longleftrightarrow>
     x \<notin> S \<and> alloc_ok t' (insert x S) \<and> calm t t' \<and> p1 \<noteq> p2 \<and> u < Om \<and> (if lft then i < u else u < i) \<and>
     m1 = LN (if lft then x else off m) (take u (ins_at i key (lkeys m))) (take (Suc u) (ins_two i (off l) (off r) (lsubs m))) [] \<and>
     m2 = LN (if lft then off m else x) (drop (Suc u) (ins_at i key (lkeys m))) (drop (Suc u) (ins_two i (off l) (off r) (lsubs m))) [] \<and>
     inner_body Om m1 d1 \<and> inner_body Om m2 d2 \<and>
     header d1 (off m1) (if lft then INVALID_OFFSET else parent nb) (prev nb) (off m2) \<and>
     header d2 (off m2) (if lft then parent nb else INVALID_OFFSET) (off m1) (nxt nb) \<and>
     rep t' t' [p1 \<mapsto> d1, p2 \<mapsto> d2] (disk t') \<and>
     disk t' = set_par x (set (if lft then lsubs m1 else lsubs m2))
       ((if lft then nxt_upd (prev nb) x (disk t) else prev_upd (nxt nb) x (disk t))(off l \<mapsto> lb, off r \<mapsto> rb))"

lemma split_doneD:
  assumes "split_done E Om t t' S x u lft p1 p2 d1 d2 m1 m2 key l r lb rb m nb i"
  shows "x \<notin> S" "alloc_ok t' (insert x S)" "calm t t'" "p1 \<noteq> p2" "u < Om" "if lft then i < u else u < i"
    "m1 = LN (if lft then x else off m) (take u (ins_at i key (lkeys m))) (take (Suc u) (ins_two i (off l) (off r) (lsubs m))) []"
    "m2 = LN (if lft then off m else x) (drop (Suc u) (ins_at i key (lkeys m))) (drop (Suc u) (ins_two i (off l) (off r) (lsubs m))) []"
    "inner_body Om m1 d1" "inner_body Om m2 d2"
    "header d1 (off m1) (if lft then INVALID_OFFSET else parent nb) (prev nb) (off m2)"
    "header d2 (off m2) (if lft then parent nb else INVALID_OFFSET) (off m1) (nxt nb)"
    "rep t' t' [p1 \<mapsto> d1, p2 \<mapsto> d2] (disk t')"
    "disk t' = set_par x (set (if lft then lsubs m1 else lsubs m2))
       ((if lft then nxt_upd (prev nb) x (disk t) else prev_upd (nxt nb) x (disk t))(off l \<mapsto> lb, off r \<mapsto> rb))"
  using assms unfolding split_done_def by - (elim conjE, assumption)+

lemma split_disk:
  assumes c: "climbing E Om t lf pl pr lb rb key p A l r B (M # up) P1 P2 b1 b2 S"
    and loc: "located Om t key l r p A B M up P1 P2 b1 b2 MA m MB s1 s2 y c1 c2 nb R1 R2"
    and d: "split_done E Om t t' S x u lft p1 p2 d1 d2 m1 m2 key l r lb rb m nb (length s1)"
    and full: "length (lsubs m) = Om"
  shows "chain (body E Om lf) (disk t') {} INVALID_OFFSET (A @ l # r # B) (pars (MA @ m1 # m2 # MB)) INVALID_OFFSET"
    "map off (A @ l # r # B) = concat (map lsubs (MA @ m1 # m2 # MB))"
    "z \<notin> off ` set (A @ l # r # B) \<Longrightarrow>
      disk t' z = (if lft then nxt_upd (prev nb) x (disk t) else prev_upd (nxt nb) x (disk t)) z"
    "z \<notin> off ` set (A @ l # r # B) \<Longrightarrow> z \<notin> off ` set M \<Longrightarrow> disk t' z = disk t z"
proof -
  note M = locatedD [OF loc] and g = climb_facts [OF c loc] and d' = split_doneD [OF d]
  let ?L = "A @ l # r # B"
  let ?N = "if lft then nxt_upd (prev nb) x (disk t) else prev_upd (nxt nb) x (disk t)"
  let ?X = "set (if lft then lsubs m1 else lsubs m2)"
  let ?SS = "s1 @ off l # off r # s2"
  have sm: "lsubs m1 = take (Suc u) ?SS" "lsubs m2 = drop (Suc u) ?SS" "off m1 = (if lft then x else off m)"
    "off m2 = (if lft then off m else x)"
    by (simp_all only: d'(7,8) lnode.sel M(3) ins_two_mid)
  have ss: "lsubs m1 @ lsubs m2 = ?SS" by (simp only: sm append_take_drop_id)
  show L: "map off ?L = concat (map lsubs (MA @ m1 # m2 # MB))"
    using ss by (simp add: M(4,5))
  have lr: "{off l, off r} \<subseteq> ?X"
  proof (cases lft)
    case True
    then obtain k where "Suc u = length s1 + Suc (Suc k)"
      using d'(6) less_imp_Suc_add by fastforce
    with True show ?thesis by (simp add: sm(1))
  next
    case False
    then have "Suc u \<le> length s1" using d'(6) by simp
    with False show ?thesis by (simp add: sm(2))
  qed
  have X: "?X \<subseteq> off ` set ?L"
  proof -
    have "set (lsubs m1) \<union> set (lsubs m2) \<subseteq> set (map off ?L)" unfolding L by auto
    then show ?thesis by (cases lft) auto
  qed
  have nbr: "prev nb = INVALID_OFFSET \<or> prev nb \<in> off ` set M" "nxt nb = INVALID_OFFSET \<or> nxt nb \<in> off ` set M"
    using M(15) by (cases MA rule: rev_cases; cases MB; simp add: header_def M(2))+
  show N: "disk t' z = ?N z" if "z \<notin> off ` set ?L" for z
    using that lr X by (auto simp: d'(14) set_par_def)
  show "disk t' z = disk t z" if "z \<notin> off ` set ?L" "z \<notin> off ` set M" for z
    using N [OF that(1)] that(2) nbr by (auto simp: nxt_upd_def prev_upd_def)
  have NL: "?N z = disk t z" if "z \<in> off ` set ?L" for z
  proof -
    have "off ` set M \<subseteq> set (offs (M # up))" by (simp add: offs_def image_Un)
    then have "z \<notin> off ` set M" "z \<noteq> INVALID_OFFSET" using that g(6,12,15) by blast+
    then show ?thesis using nbr by (auto simp: nxt_upd_def prev_upd_def)
  qed
  have P: "P1 @ off m # off m # P2 = pars MA @ replicate (length (lsubs m1 @ lsubs m2)) (off m) @ pars MB"
    unfolding ss by (simp add: M(7,8) replicate_add replicate_app_Cons_same)
  have "chain (body E Om lf) (set_par x ?X (?N(off l \<mapsto> lb, off r \<mapsto> rb))) {} INVALID_OFFSET ?L
     (pars MA @ replicate (length (lsubs m1)) (if lft then x else off m) @
      replicate (length (lsubs m2)) (if lft then off m else x) @ pars MB) INVALID_OFFSET"
    by (rule split_level_chain [OF g(16) [unfolded P] par_ok_body _ g(9) lr NL]) (use L in simp)
  then show "chain (body E Om lf) (disk t') {} INVALID_OFFSET ?L (pars (MA @ m1 # m2 # MB)) INVALID_OFFSET"
    by (simp only: d'(14) pars_simps sm(3,4))
qed

lemma split_climbing:
  assumes c: "climbing E Om t lf pl pr lb rb key p A l r B (M # up) P1 P2 b1 b2 S"
    and loc: "located Om t key l r p A B M up P1 P2 b1 b2 MA m MB s1 s2 y c1 c2 nb R1 R2"
    and d: "split_done E Om t t' S x u lft p1 p2 d1 d2 m1 m2 key l r lb rb m nb (length s1)"
    and full: "length (lsubs m) = Om"
  shows "climbing E Om t' False p1 p2 d1 d2 (ins_at (length s1) key (lkeys m) ! u) (parent nb)
    MA m1 m2 MB up R1 R2 c1 c2 (insert x S)"
proof -
  note M = locatedD [OF loc] and g = climb_facts [OF c loc] and d' = split_doneD [OF d]
  note sd = split_disk [OF c loc d full]
  let ?L = "A @ l # r # B"
  have o: "off m1 = (if lft then x else off m)" "off m2 = (if lft then off m else x)"
    by (simp_all only: d'(7,8) lnode.sel)
  have subM: "off ` set M \<subseteq> set (offs (M # up))" "set (offs up) \<subseteq> set (offs (M # up))"
    by (simp_all add: offs_def image_Un)
  have xM: "x \<notin> off ` set M" "x \<notin> set (offs up)" using d'(1) g(5) subM by blast+
  have dM: "distinct (map off MA)" "distinct (map off MB)" "off m \<notin> off ` set MA" "off m \<notin> off ` set MB"
      "off ` set MA \<inter> off ` set MB = {}" "x \<notin> off ` set MA" "x \<notin> off ` set MB" "x \<noteq> off m"
    using g(10) xM by (auto simp: M(2))
  have LM: "off ` set M \<inter> off ` set ?L = {}" "set (offs up) \<inter> off ` set ?L = {}" using subM g(12) by blast+
  have "chain (body E Om False) (disk t') {off m1, off m2} INVALID_OFFSET (MA @ m1 # m2 # MB)
      (R1 @ parent d1 # parent d2 # R2) INVALID_OFFSET"
  proof (rule chain_split_node [OF _ M(19) par_ok_body _ _ _ o])
    show "chain (body E Om False) (disk t) {} INVALID_OFFSET (MA @ m # MB) (R1 @ parent nb # R2) INVALID_OFFSET"
      using g(7) by (simp add: M(18))
    show "distinct (map off (MA @ m # MB))" "x \<notin> off ` set (MA @ m # MB)" using g(10) xM(1) unfolding M(2) by blast+
    show "INVALID_OFFSET \<notin> off ` set (MA @ m # MB)" using g(5,15) subM(1) unfolding M(2) by blast
    show "disk t' z = (if lft then nxt_upd (last_off INVALID_OFFSET MA) x (disk t)
        else prev_upd (hd_off MB INVALID_OFFSET) x (disk t)) z" if "z \<in> off ` set (MA @ MB)" for z
    proof -
      have "z \<in> off ` set M" using that by (auto simp: M(2))
      then have "z \<notin> off ` set ?L" using LM(1) by blast
      then show ?thesis using sd(3) [of z] M(15) by (simp add: header_def)
    qed
  qed
  moreover have "stored E Om (disk t') False up"
    by (rule stored_cong [OF g(8)]) (use sd(4) LM(2) g(13) in blast)
  moreover have "sorted_wrt (<) (c1 @ ins_at (length s1) key (lkeys m) ! u # c2)"
  proof (rule sorted_separators)
    have "sorted_wrt (<) (b1 @ key # b2)" using c by (simp add: climbing_def)
    then show "sorted_wrt (<) (wpre (map lkeys MA) c1 @ ins_at (length s1) key (lkeys m) @ wpost (map lkeys MB) c2)"
      by (simp add: M(12,13) ins_at_def)
    have "length (lsubs m) = Suc (length (lkeys m))" using M(2,21) by simp
    then show "ins_at (length s1) key (lkeys m) ! u \<in> set (ins_at (length s1) key (lkeys m))"
      using d'(5) full by (intro nth_mem) simp
  qed (use M(10,11) in simp_all)
  moreover have "linked up" "root t' = off (hd (last up))" "filled E Om False up"
      "map off MA @ off m # map off MB = concat (map lsubs (hd up))" if "up \<noteq> []"
    using that g(1,2,3) d'(3) by (cases up; simp add: M(2) calm_def)+
  moreover have "int E = max_entries t'" "int Om = max_order t'" "cfg_ok t'"
    using c d'(3) cfg_ok_calm [OF d'(3)] by (simp_all add: climbing_def calm_def env_def)
  moreover have "off ` set (MA @ m1 # m2 # MB) \<union> set (offs up) \<subseteq> insert x S"
    using g(5) subM by (auto simp: o M(2) split: if_splits)
  moreover have "distinct (map off (MA @ m1 # m2 # MB) @ offs up)"
  proof -
    have "distinct (map off (MA @ m1 # m2 # MB))" using dM by (cases lft) (simp_all add: o)
    moreover have "off ` set (MA @ m1 # m2 # MB) \<inter> set (offs up) = {}"
      using g(13) xM(2) by (cases lft) (auto simp: o M(2))
    moreover have "distinct (offs up)" using g(11) by (simp add: offs_def)
    ultimately show ?thesis by (simp only: distinct_append set_map simp_thms)
  qed
  ultimately show ?thesis
    unfolding climbing_def
    using d' M(9,10,11,15,18,19,20) by (cases lft) (simp_all add: header_def body_def o)
qed

lemma offs_Cons: "offs (L # ls) = map off L @ offs ls"
  by (simp add: offs_def)

lemma set_offs_Cons: "set (offs (L # ls)) = off ` set L \<union> set (offs ls)"
  by (simp add: offs_Cons)

lemma filled_split:
  assumes "filled E Om False ((MA @ m # MB) # up)" "linked ((MA @ m # MB) # up)"
    "Om div 2 \<le> length (lsubs m1)" "Om div 2 \<le> length (lsubs m2)" "filled E Om False up'" "up' \<noteq> []"
  shows "filled E Om False ((MA @ m1 # m2 # MB) # up')"
proof -
  have "\<forall>n\<in>set MA \<union> set MB. Om div 2 \<le> length (lsubs n)"
    using assms(1,2) by (cases up) auto
  then show ?thesis using assms(3-6) by (cases up') auto
qed

lemma climbedD:
  assumes "climbed E Om t t' lf key L up up' b1 b2 S"
  shows "slots_wf t'" "live t' = {}" "env t' = env t" "alloc_ok t' (S \<union> set (offs up'))"
    "set (offs up) \<subseteq> set (offs up')" "set (offs up') \<inter> S \<subseteq> set (offs up)" "distinct (offs up')"
    "up' \<noteq> []" "linked (L # up')" "chain (body E Om lf) (disk t') {} INVALID_OFFSET L (parents up') INVALID_OFFSET"
    "stored E Om (disk t') False up'" "filled E Om False up'" "bnds up' = b1 @ key # b2"
    "root t' = off (hd (last up'))" "\<forall>x\<in>S - off ` set L - set (offs up). disk t' x = disk t x"
  using assms unfolding climbed_def by - (elim conjE, assumption)+

lemma split_climbed:
  assumes c: "climbing E Om t lf pl pr lb rb key p A l r B (M # up) P1 P2 b1 b2 S"
    and loc: "located Om t key l r p A B M up P1 P2 b1 b2 MA m MB s1 s2 y c1 c2 nb R1 R2"
    and d: "split_done E Om t t' S x u lft p1 p2 d1 d2 m1 m2 key l r lb rb m nb (length s1)"
    and full: "length (lsubs m) = Om" and fl: "Om div 2 \<le> Suc u" "Om div 2 \<le> Om - u"
    and k: "climbed E Om t' t'' False (ins_at (length s1) key (lkeys m) ! u) (MA @ m1 # m2 # MB) up up' c1 c2 (insert x S)"
  shows "climbed E Om t t'' lf key (A @ l # r # B) (M # up) ((MA @ m1 # m2 # MB) # up') b1 b2 S"
proof -
  note M = locatedD [OF loc] and g = climb_facts [OF c loc] and d' = split_doneD [OF d] and k' = climbedD [OF k]
  note sd = split_disk [OF c loc d full]
  let ?L = "A @ l # r # B" and ?M = "MA @ m1 # m2 # MB" and ?KS = "ins_at (length s1) key (lkeys m)"
  have o: "off m1 = (if lft then x else off m)" "off m2 = (if lft then off m else x)"
    by (simp_all only: d'(7,8) lnode.sel)
  have offM: "off ` set ?M = insert x (off ` set M)" by (cases lft) (auto simp: o M(2))
  have ofs: "set (offs (?M # up')) = insert x (off ` set M) \<union> set (offs up')"
    "set (offs (M # up)) = off ` set M \<union> set (offs up)" "set (offs up) \<subseteq> S" "off ` set M \<subseteq> S"
    using g(5) by (simp_all only: set_offs_Cons offM Un_subset_iff simp_thms)
  have LM: "off ` set M \<inter> off ` set ?L = {}" "set (offs up) \<inter> off ` set ?L = {}" using ofs(2) g(12) by blast+
  have "S \<union> set (offs (?M # up')) = insert x S \<union> set (offs up')" using ofs(1,4) by blast
  then have "alloc_ok t'' (S \<union> set (offs (?M # up')))" using k'(4) by (simp only:)
  moreover have "set (offs (M # up)) \<subseteq> set (offs (?M # up'))" unfolding ofs(1,2) using k'(5) by blast
  moreover have "set (offs (?M # up')) \<inter> S \<subseteq> set (offs (M # up))" unfolding ofs(1,2) using k'(6) d'(1) by blast
  moreover have "distinct (offs (?M # up'))"
  proof -
    have "distinct (map off ?M @ offs up)" using split_climbing [OF c loc d full] by (simp only: climbing_def simp_thms)
    then have "distinct (map off ?M)" "off ` set ?M \<inter> set (offs up) = {}"
      by (simp_all only: distinct_append set_map simp_thms)
    moreover from this(2) have "off ` set ?M \<inter> set (offs up') = {}"
      using k'(6) offM ofs(4) by blast
    ultimately show ?thesis using k'(7) by (simp only: offs_Cons distinct_append set_map simp_thms)
  qed
  moreover have "linked (?L # ?M # up')" using k'(9) sd(2) by simp
  moreover have "chain (body E Om lf) (disk t'') {} INVALID_OFFSET ?L (parents (?M # up')) INVALID_OFFSET"
    unfolding parents_pars
  proof (rule chain_cong [OF sd(1)])
    fix n assume "n \<in> set ?L"
    then have n: "off n \<in> off ` set ?L" by (rule imageI)
    have "off n \<in> S" using n g(6) by (rule subsetD [rotated])
    moreover have "off n \<notin> off ` set M" "off n \<notin> set (offs up)" using n LM by (meson disjoint_iff)+
    moreover have "off n \<noteq> x" using \<open>off n \<in> S\<close> d'(1) by blast
    ultimately have "off n \<in> insert x S - off ` set ?M - set (offs up)" unfolding offM by blast
    then show "off n \<notin> {} \<and> disk t'' (off n) = disk t' (off n)" using k'(15) by simp
  qed
  moreover have "filled E Om False (?M # up')"
  proof (rule filled_split [OF g(1,2) [unfolded M(2)] _ _ k'(12,8)])
    have "length (ins_two (length s1) (off l) (off r) (lsubs m)) = Suc Om"
      using full M(3) by simp
    then show "Om div 2 \<le> length (lsubs m1)" "Om div 2 \<le> length (lsubs m2)"
      using fl d'(5) by (simp_all add: d'(7,8))
  qed
  moreover have "bnds (?M # up') = b1 @ key # b2"
  proof -
    have "u < length ?KS" using d'(5) full M(2,21) by simp
    then have "take u ?KS @ ?KS ! u # drop (Suc u) ?KS = ?KS" by (rule id_take_nth_drop [symmetric])
    moreover have "bnds (?M # up') = wpre (map lkeys MA) c1 @ lkeys m1 @ ?KS ! u # lkeys m2 @ wpost (map lkeys MB) c2"
      using weave_mid [of c1 "map lkeys MA" "?KS ! u # c2" "lkeys m2 # map lkeys MB" "lkeys m1"] M(10,11) k'(13)
      by simp
    ultimately show ?thesis by (simp add: d'(7,8) M(12,13) ins_at_def)
  qed
  moreover have "\<forall>z\<in>S - off ` set ?L - set (offs (M # up)). disk t'' z = disk t z"
  proof
    fix z assume z: "z \<in> S - off ` set ?L - set (offs (M # up))"
    then have "z \<in> S" "z \<notin> off ` set M" "z \<notin> set (offs up)" unfolding ofs(2) by blast+
    then have "z \<in> insert x S - off ` set ?M - set (offs up)" unfolding offM using d'(1) by blast
    then have "disk t'' z = disk t' z" using k'(15) by blast
    also have "\<dots> = disk t z" using z \<open>z \<notin> off ` set M\<close> by (intro sd(4)) simp_all
    finally show "disk t'' z = disk t z" .
  qed
  ultimately show ?thesis
    unfolding climbed_def using k' d'(3) by (simp add: calm_def)
qed

subsection \<open>The whole climb\<close>

lemma wp_parent_fetch:
  assumes r: "rep t t [l \<mapsto> lb, r \<mapsto> rb] D" "l \<noteq> r"
    and p: "parent lb = p \<and> parent rb = INVALID_OFFSET \<or> parent lb = INVALID_OFFSET \<and> parent rb = p"
      "p \<noteq> INVALID_OFFSET" "D p = Some nb"
    and Q: "\<And>node t'. node \<noteq> l \<Longrightarrow> node \<noteq> r \<Longrightarrow> rep t t' [l \<mapsto> lb, r \<mapsto> rb, node \<mapsto> nb] D \<Longrightarrow>
      wp (f t' node l r key) Q"
  shows "wp (parent_node_build f t l r key) Q"
proof -
  have n: "nd t l = lb" "nd t r = rb"
    using rep_nd [OF r(1), of l] rep_nd [OF r(1), of r] r(2) by auto
  have room: "room [l \<mapsto> lb, r \<mapsto> rb]" by (rule room_le_4 [of _ l r l l]) auto
  have *: "wp (node_fetch t p \<bind> (\<lambda>(p, t). p \<bind> (\<lambda>node. f t node l r key))) Q"
    by (rule wp_bind, rule wp_fetch [OF r(1) room p(3,2)]) (auto intro: Q)
  show ?thesis
    using p(1,2) * by (auto simp: parent_node_build_def n)
qed

lemma wp_non_leaf_insert_simple:
  assumes r: "rep t0 t [l \<mapsto> lb, r \<mapsto> rb, node \<mapsto> nb] D" "l \<noteq> r" "node \<noteq> l" "node \<noteq> r"
    and Om: "int Om = max_order t0"
    and b: "inner_body Om m nb" "length (lsubs m) < Om"
    and i: "key_binary_search nb key = Some (- int i - 1)" "i \<le> length (lkeys m)"
    and s: "self lb \<noteq> INVALID_OFFSET" "self rb \<noteq> INVALID_OFFSET"
    and Q: "\<And>t' b. inner_body Om (LN x (ins_at i key (lkeys m)) (ins_two i (self lb) (self rb) (lsubs m)) []) b \<Longrightarrow>
      header b (self nb) (parent nb) (prev nb) (nxt nb) \<Longrightarrow>
      rep t0 t' Map.empty (D(self lb \<mapsto> lb\<lparr>parent := self nb\<rparr>, self rb \<mapsto> rb\<lparr>parent := self nb\<rparr>, self nb \<mapsto> b)) \<Longrightarrow>
      Q (0, t')"
  shows "wp (non_leaf_insert (Suc f) t node l r key) Q"
proof -
  have n: "nd t node = nb" "max_order t = int Om"
    using rep_nd [OF r(1), of node] repD(8) [OF r(1)] r Om by auto
  have c: "children nb \<noteq> int Om" using b by (simp add: inner_body_def)
  note [simp] = r(2-4) r(2-4) [symmetric]
  show ?thesis
    apply (simp add: non_leaf_insert.simps n i(1) c Let_def)
    apply (rule wp_bind)
    apply (rule wp_non_leaf_simple_insert [OF r(1) _ _ _ _ _ _ _ i(2) b(2), where x = x])
            apply (simp_all add: b(1) s)
    apply (rule wp_bind)
    apply (erule wp_flush, simp)
    apply (rule wp_Some)
    apply (rule Q, assumption, assumption)
    apply (simp add: header_def)
    done
qed

lemma inner_body_off: "inner_body Om (LN a ks ss vs) b \<Longrightarrow> inner_body Om (LN a' ks ss vs) b"
  unfolding inner_body_def lnode.sel .

lemma chain_on_disk:
  "chain R D X pv ns ps nx \<Longrightarrow> z \<in> off ` set ns \<Longrightarrow> z \<notin> X \<Longrightarrow> z \<noteq> INVALID_OFFSET \<Longrightarrow> on_disk D z"
  using chain_member [of R D X pv ns ps nx] by (force simp: on_disk_def)

lemma climb_on_disk:
  assumes c: "climbing E Om t lf pl pr lb rb key p A l r B (M # up) P1 P2 b1 b2 S"
    and loc: "located Om t key l r p A B M up P1 P2 b1 b2 MA m MB s1 s2 y c1 c2 nb R1 R2"
  shows "prev nb = INVALID_OFFSET \<or> on_disk (disk t) (prev nb)"
    "nxt nb = INVALID_OFFSET \<or> on_disk (disk t) (nxt nb)"
    "j < length (lsubs m) \<Longrightarrow> j \<noteq> length s1 \<Longrightarrow> on_disk (disk t) (lsubs m ! j)"
proof -
  note M = locatedD [OF loc] and g = climb_facts [OF c loc]
  have "prev nb = INVALID_OFFSET \<or> prev nb \<in> off ` set (MA @ m # MB)"
    "nxt nb = INVALID_OFFSET \<or> nxt nb \<in> off ` set (MA @ m # MB)"
    using M(15) by (cases MA rule: rev_cases; cases MB; simp add: header_def)+
  then show "prev nb = INVALID_OFFSET \<or> on_disk (disk t) (prev nb)"
    "nxt nb = INVALID_OFFSET \<or> on_disk (disk t) (nxt nb)"
    using chain_on_disk [OF g(7)] by blast+
  have ch: "chain (body E Om lf) (disk t) {off l, off r} INVALID_OFFSET (A @ l # r # B)
      (P1 @ parent lb # parent rb # P2) INVALID_OFFSET"
    using c by (simp only: climbing_def simp_thms)
  assume j: "j < length (lsubs m)" "j \<noteq> length s1"
  have "lsubs m ! j \<in> set s1 \<union> set s2"
    using j by (cases "j < length s1") (auto simp: M(3) nth_append nth_Cons')
  then have z: "lsubs m ! j \<in> set (map off A) \<union> set (map off B)" unfolding M(4,5) by auto
  show "on_disk (disk t) (lsubs m ! j)"
  proof (rule chain_on_disk [OF ch])
    show "lsubs m ! j \<in> off ` set (A @ l # r # B)" using z by auto
    then have "lsubs m ! j \<in> S" using g(6) by (rule subsetD [rotated])
    then show "lsubs m ! j \<noteq> INVALID_OFFSET" using g(15) by metis
    have "off l \<notin> set (map off A) \<union> set (map off B)" "off r \<notin> set (map off A) \<union> set (map off B)"
      using g(9) by simp_all
    with z show "lsubs m ! j \<notin> {off l, off r}" by (auto simp only: insert_iff empty_iff)
  qed
qed

theorem climb:
  assumes "climbing E Om t lf pl pr lb rb key p A l r B up P1 P2 b1 b2 S" "length up \<le> f"
  shows "wp (parent_node_build (non_leaf_insert f) t pl pr key)
    (\<lambda>(rv, t'). rv = 0 \<and> (\<exists>up'. climbed E Om t t' lf key (A @ l # r # B) up up' b1 b2 S))"
  using assms
proof (induction up arbitrary: t lf pl pr lb rb key p A l r B P1 P2 b1 b2 S f)
  case Nil
  then show ?case by (intro climb_root)
next
  case (Cons M up)
  then obtain f' where f: "f = Suc f'" "length up \<le> f'" by (cases f) auto
  note c = Cons.prems(1)
  note c' = c [unfolded climbing_def]
  obtain MA m MB s1 s2 y c1 c2 nb R1 R2 where
    loc: "located Om t key l r p A B M up P1 P2 b1 b2 MA m MB s1 s2 y c1 c2 nb R1 R2"
    using climb_parent [OF c] .
  note M = locatedD [OF loc] and g = climb_facts [OF c loc]
  let ?i = "length s1"
  have r: "rep t t [pl \<mapsto> lb, pr \<mapsto> rb] (disk t)" "pl \<noteq> pr" "int Om = max_order t"
    "self lb = off l" "self rb = off r"
    "parent lb = p \<and> parent rb = INVALID_OFFSET \<or> parent lb = INVALID_OFFSET \<and> parent rb = p"
    using c' by (simp_all only: simp_thms)
  have inv: "off l \<noteq> INVALID_OFFSET" "off r \<noteq> INVALID_OFFSET" "p \<noteq> INVALID_OFFSET"
    using g(5,6,15) M(2,6) by (auto simp: offs_def)
  have dp: "disk t p = Some nb" using M(6,14) by simp
  have sn: "self nb = off m" using M(15) by (simp add: header_def)
  have i: "?i \<le> length (lkeys m)" "?i < length (lsubs m)" using M(2,3,21) by auto
  show ?case
  proof (rule wp_parent_fetch [OF r(1,2,6) inv(3) dp])
    fix node t2
    assume n: "node \<noteq> pl" "node \<noteq> pr" "rep t t2 [pl \<mapsto> lb, pr \<mapsto> rb, node \<mapsto> nb] (disk t)"
    show "wp (non_leaf_insert f t2 node pl pr key)
      (\<lambda>(rv, t'). rv = 0 \<and> (\<exists>up'. climbed E Om t t' lf key (A @ l # r # B) (M # up) up' b1 b2 S))"
    proof (cases "length (lsubs m) = Om")
      case False
      then have less: "length (lsubs m) < Om" using M(16) by (simp add: inner_body_def)
      show ?thesis
        unfolding f(1)
        apply (rule wp_non_leaf_insert_simple [OF n(3) r(2) n(1,2) r(3) M(16) less M(17) i(1), where x = "off m"])
          apply (simp_all add: r inv)
        apply (rule exI, rule climb_simple_levels [OF c loc refl])
          apply (simp_all add: sn)
        done
    next
      case True
      have i': "?i < Om" using i(2) True by simp
      show ?thesis
        unfolding f(1)
      proof (rule wp_non_leaf_insert_split [OF n(3) r(2) n(1,2) g(4,14) r(3) M(16) True M(17) i' _ _ climb_on_disk(1,2) [OF c loc]])
        fix t1 t' x p1 p2 d1 d2 u lft
        assume a: "x \<notin> S" "alloc_ok t1 (insert x S)" "calm t t1" "p1 \<noteq> p2" "u < Om" "if lft then ?i < u else u < ?i"
          "Om div 2 \<le> Suc u" "Om div 2 \<le> Om - u"
          "inner_body Om (LN 0 (take u (ins_at ?i key (lkeys m))) (take (Suc u) (ins_two ?i (self lb) (self rb) (lsubs m))) []) d1"
          "header d1 (if lft then x else self nb) (if lft then INVALID_OFFSET else parent nb) (prev nb) (if lft then self nb else x)"
          "inner_body Om (LN 0 (drop (Suc u) (ins_at ?i key (lkeys m))) (drop (Suc u) (ins_two ?i (self lb) (self rb) (lsubs m))) []) d2"
          "header d2 (if lft then self nb else x) (if lft then parent nb else INVALID_OFFSET) (if lft then x else self nb) (nxt nb)"
          "rep t1 t' [p1 \<mapsto> d1, p2 \<mapsto> d2]
            (set_par x (set (if lft then take (Suc u) (ins_two ?i (self lb) (self rb) (lsubs m))
                             else drop (Suc u) (ins_two ?i (self lb) (self rb) (lsubs m))))
              ((if lft then nxt_upd (prev nb) x (disk t) else prev_upd (nxt nb) x (disk t))(self lb \<mapsto> lb, self rb \<mapsto> rb)))"
        define m1 where "m1 = LN (if lft then x else off m) (take u (ins_at ?i key (lkeys m))) (take (Suc u) (ins_two ?i (off l) (off r) (lsubs m))) []"
        define m2 where "m2 = LN (if lft then off m else x) (drop (Suc u) (ins_at ?i key (lkeys m))) (drop (Suc u) (ins_two ?i (off l) (off r) (lsubs m))) []"
        have d: "split_done E Om t t' S x u lft p1 p2 d1 d2 m1 m2 key l r lb rb m nb ?i"
        proof -
          note a' = a(9-13) [unfolded r(4,5) sn]
          have q: "calm t t'" "alloc_ok t' (insert x S)"
            using a(2,3) repD(5) [OF a'(5)] alloc_ok_quiet calm_trans quiet_calm by blast+
          have q3: "rep t' t' [p1 \<mapsto> d1, p2 \<mapsto> d2] (disk t')"
            using rep_rebase [OF a'(5)] unfolding repD(4) [OF a'(5)] .
          show ?thesis
            unfolding split_done_def m1_def m2_def lnode.sel
            using a(1,4-6) q q3 repD(4) [OF a'(5)] a'(1-4) inner_body_off
            by (intro conjI) (assumption | blast | simp)+
        qed
        show "wp (parent_node_build (non_leaf_insert f') t' p1 p2 (ins_at ?i key (lkeys m) ! u))
          (\<lambda>(rv, t'). rv = 0 \<and> (\<exists>up'. climbed E Om t t' lf key (A @ l # r # B) (M # up) up' b1 b2 S))"
          by (rule wp_mono [OF Cons.IH [OF split_climbing [OF c loc d True] f(2)]])
             (auto dest: split_climbed [OF c loc d True a(7,8)])
      qed (use r(4,5) inv climb_on_disk(3) [OF c loc] True in simp_all)
    qed
  qed
qed

end
