(* ===== verification/BPlus_Query.thy ===== *)
theory BPlus_Query
  imports BPlus_Levels
begin

section \<open>Point and range queries\<close>

text \<open>
  \<open>bplus_tree_search\<close>, \<open>bplus_tree_get\<close> and \<open>bplus_tree_get_range\<close>. The search keeps its
  result in a C \<open>int\<close>, so the stored \<open>long\<close> is cut to 32 bits before it is returned.
  A query changes no block of the file, only the contents of unused cache slots.
\<close>

definition c_int :: "int \<Rightarrow> int" where
  "c_int x = signed_take_bit 31 x"

definition bplus_tree_search :: "bplus_tree \<Rightarrow> int \<Rightarrow> (int \<times> bplus_tree) option" where
  "bplus_tree_search t key = do {
     (node, t) \<leftarrow> node_seek t (root t);
     (node, t) \<leftarrow> descend (fuel_of t) t node key;
     case node of
       None \<Rightarrow> Some (- 1, t)
     | Some leaf \<Rightarrow> do {
         i \<leftarrow> key_binary_search (nd t leaf) key;
         if i \<ge> 0 then do {
           v \<leftarrow> get_data t leaf i;
           Some (c_int v, t)
         } else Some (- 1, t)
       }
   }"

definition bplus_tree_get :: "bplus_tree \<Rightarrow> int \<Rightarrow> (int \<times> bplus_tree) option" where
  "bplus_tree_get t key = bplus_tree_search t key"

text \<open>
  The inner loop of the range query: \<open>start\<close> is overwritten with every datum met, in key
  order along the chain of leaves, until a key exceeds \<open>kmax\<close> or the chain ends.
\<close>

fun range_loop ::
  "nat \<Rightarrow> bplus_tree \<Rightarrow> nat option \<Rightarrow> int \<Rightarrow> int \<Rightarrow> int \<Rightarrow> (int \<times> bplus_tree) option" where
  "range_loop 0 t node i kmax start = None"
| "range_loop (Suc fuel) t None i kmax start = Some (start, t)"
| "range_loop (Suc fuel) t (Some node) i kmax start = do {
     k \<leftarrow> get_key t node i;
     if k \<le> kmax then do {
       start \<leftarrow> get_data t node i;
       if i + 1 \<ge> children (nd t node) then do {
         (nx, t) \<leftarrow> node_seek t (nxt (nd t node));
         range_loop fuel t nx 0 kmax start
       } else range_loop fuel t (Some node) (i + 1) kmax start
     } else Some (start, t)
   }"

definition range_fuel :: "bplus_tree \<Rightarrow> nat" where
  "range_fuel t = fuel_of t * Suc (nat (max_entries t))"

definition bplus_tree_get_range :: "bplus_tree \<Rightarrow> int \<Rightarrow> int \<Rightarrow> (int \<times> bplus_tree) option" where
  "bplus_tree_get_range t key1 key2 = do {
     let start = - 1;
     let kmin = (if key1 \<le> key2 then key1 else key2);
     let kmax = (if kmin = key1 then key2 else key1);
     (node, t) \<leftarrow> node_seek t (root t);
     (node, t) \<leftarrow> descend (fuel_of t) t node kmin;
     case node of
       None \<Rightarrow> Some (start, t)
     | Some leaf \<Rightarrow> do {
         i \<leftarrow> key_binary_search (nd t leaf) kmin;
         if i < 0 then do {
           let i = - i - 1;
           (node, t) \<leftarrow> (if i \<ge> children (nd t leaf) then node_seek t (nxt (nd t leaf))
                          else Some (Some leaf, t));
           range_loop (range_fuel t) t node i kmax start
         } else range_loop (range_fuel t) t (Some leaf) i kmax start
       }
   }"

subsection \<open>Search returns the stored value\<close>

lemma search_spec:
  assumes "bp_inv t ls"
  obtains cs where "length cs = MIN_CACHE_NUM"
    "bplus_tree_search t key =
       Some (case map_of (entries ls) key of None \<Rightarrow> - 1 | Some v \<Rightarrow> c_int v, t\<lparr>caches := cs\<rparr>)"
proof (cases ls)
  case Nil
  then have "bplus_tree_search t key = Some (- 1, t\<lparr>caches := caches t\<rparr>)"
    using find_leaf_empty(1) [OF assms [unfolded Nil]] find_leaf_empty(2) [OF assms [unfolded Nil], of key] by (simp add: bplus_tree_search_def)
  with Nil assms show ?thesis
    by (intro that [of "caches t"]) (auto simp: entries_def bp_inv_def slots_wf_def)
next
  case (Cons L up)
  then have ne: "ls \<noteq> []" by simp
  obtain p0 t0 p cs A n B b1 b2 where f: "node_seek t (root t) = Some (Some p0, t0)"
    "descend (fuel_of t0) t0 (Some p0) key = Some (Some p, t\<lparr>caches := cs\<rparr>)"
    "length cs = MIN_CACHE_NUM" "p < MIN_CACHE_NUM" "disk t (off n) = Some (cs ! p)"
    "covers (hd ls) (bnds (tl ls)) key A n B b1 b2"
    using find_leaf [OF assms ne] .
  have ord: "ordered (map lkeys L) (bnds up)" and st: "stored (nat (max_entries t)) (nat (max_order t)) (disk t) True ls"
    using assms by (simp_all add: bp_inv_def Cons)
  have cov: "covers L (bnds up) key A n B b1 b2"
    using f(6) by (simp add: Cons)
  then have "n \<in> set L" by (auto simp: covers_def)
  then have lb: "leaf_body (nat (max_entries t)) n (cs ! p)"
    using chain_member [OF stored_level [of _ _ _ _ "[]" L up]] st f(5) by (fastforce simp: Cons body_def)
  note sn = covers_sides(3) [OF ord cov]
  have "bplus_tree_search t key =
      Some (if key \<in> set (lkeys n) then c_int (lvals n ! cnt_lt (lkeys n) key) else - 1, t\<lparr>caches := cs\<rparr>)"
    using f(1,2) leaf_body_search(2) [OF lb sn, of key] lb cnt_lt_nth(1) [OF sn, of key]
    by (auto simp: bplus_tree_search_def slot_simps leaf_body_def) (metis nth_take)
  moreover have "map_of (entries ls) key = (if key \<in> set (lkeys n) then Some (lvals n ! cnt_lt (lkeys n) key) else None)"
    using entries_lookup [OF ord cov] lb by (simp add: Cons leaf_body_def)
  ultimately show ?thesis using f(3) by (intro that [of cs]) auto
qed

end
