(* ===== verification/BPlus_Insert_Correct.thy ===== *)
theory BPlus_Insert_Correct
  imports BPlus_Climb BPlus_Query
begin

section \<open>Insertion keeps the tree and adds the entry\<close>

text \<open>
  The leaf level under an insertion: its order, its entries, and the two ways a leaf takes
  a new entry. With the climb of the previous theory they give \<open>insert_spec\<close>: from a tree in
  its invariant \<open>bplus_tree_insert\<close> returns, the invariant holds again, and the entries are
  those before with the new one added.
\<close>

subsection \<open>Order and contents of the leaf level\<close>

lemma sorted_ins_at:
  assumes "sorted_wrt (<) ks" "k \<notin> set ks"
  shows "sorted_wrt (<) (ins_at (cnt_lt ks k) k ks)" "set (ins_at (cnt_lt ks k) k ks) = insert k (set ks)"
proof -
  let ?i = "cnt_lt ks k"
  have "cnt_le ks k = ?i" using cnt_le_eq [OF assms(1)] assms(2) by simp
  then have a: "\<forall>x\<in>set (take ?i ks). x \<le> k" "\<forall>x\<in>set (drop ?i ks). k < x"
    using split_cnt_le [OF assms(1), of k] by simp_all
  have "set (take ?i ks) \<subseteq> set ks" by (rule set_take_subset)
  with a assms(2) have "\<forall>x\<in>set (take ?i ks). x < k" by (metis in_mono order_le_less)
  moreover have "sorted_wrt (<) (take ?i ks @ drop ?i ks)" using assms(1) by simp
  ultimately show "sorted_wrt (<) (ins_at ?i k ks)"
    using a(2) by (auto simp: ins_at_def sorted_wrt_append simp del: append_take_drop_id)
  show "set (ins_at ?i k ks) = insert k (set ks)"
    unfolding ins_at_def set_append list.set
    by (subst (3) append_take_drop_id [of ?i ks, symmetric]) (auto simp del: append_take_drop_id)
qed

lemma ordered_at:
  "ordered kss bs \<Longrightarrow> j < length bs \<Longrightarrow> (\<forall>x\<in>set (kss ! j). x < bs ! j) \<and> (\<forall>x\<in>set (kss ! Suc j). bs ! j \<le> x)"
  by (simp add: ordered_def)

lemma ordered_ins:
  assumes o: "ordered (map lkeys (A @ n # B)) bs" and cov: "covers (A @ n # B) bs key A n B b1 b2"
    and k: "key \<notin> set (lkeys n)" "lkeys n' = ins_at (cnt_lt (lkeys n) key) key (lkeys n)"
  shows "ordered (map lkeys (A @ n' # B)) bs"
proof -
  have sn: "sorted_wrt (<) (lkeys n)" using o by (simp add: ordered_def)
  have n': "sorted_wrt (<) (lkeys n')" "set (lkeys n') = insert key (set (lkeys n))"
    using sorted_ins_at [OF sn k(1)] by (simp_all add: k(2))
  from cov have c: "bs = b1 @ b2" "length b1 = length A" "length b2 = length B"
    "\<forall>b\<in>set b1. b \<le> key" "\<forall>b\<in>set b2. key < b"
    by (auto simp: covers_def)
  have "(\<forall>x\<in>set (map lkeys (A @ n' # B) ! j). x < bs ! j) \<and>
      (\<forall>x\<in>set (map lkeys (A @ n' # B) ! Suc j). bs ! j \<le> x)" if j: "j < length bs" for j
  proof -
    have old: "(\<forall>x\<in>set (map lkeys (A @ n # B) ! j). x < bs ! j) \<and>
      (\<forall>x\<in>set (map lkeys (A @ n # B) ! Suc j). bs ! j \<le> x)"
      using o j by (rule ordered_at)
    have same: "map lkeys (A @ n' # B) ! h = map lkeys (A @ n # B) ! h" if "h \<noteq> length A" for h
      using that by (auto simp: nth_append nth_Cons')
    have at: "map lkeys (A @ n' # B) ! length A = lkeys n'" "map lkeys (A @ n # B) ! length A = lkeys n"
      by (simp_all add: nth_append)
    have 1: "key < bs ! j" if "j = length A" using c j that by (simp add: nth_append)
    have 2: "bs ! j \<le> key" if "Suc j = length A"
      using c(1,2,4) that by (simp add: nth_append)
    show ?thesis
      using old same [of j] same [of "Suc j"] at n'(2) 1 2
      by (cases "j = length A"; cases "Suc j = length A") auto
  qed
  moreover have "sorted_wrt (<) bs" "\<forall>ks\<in>set (map lkeys (A @ n' # B)). sorted_wrt (<) ks"
    "length (map lkeys (A @ n' # B)) = Suc (length bs)"
    using o n'(1) by (auto simp: ordered_def)
  ultimately show ?thesis by (simp only: ordered_def) blast
qed

lemma ordered_split:
  assumes o: "ordered (map lkeys (A @ n # B)) (b1 @ b2)" "length b1 = length A"
    and s: "0 < s" "s < length (lkeys n)" "lkeys n1 = take s (lkeys n)" "lkeys n2 = drop s (lkeys n)"
  shows "ordered (map lkeys (A @ n1 # n2 # B)) (b1 @ lkeys n ! s # b2)"
proof -
  let ?K = "lkeys n" and ?o = "map lkeys (A @ n # B)" and ?n = "map lkeys (A @ n1 # n2 # B)"
  let ?bs = "b1 @ b2" and ?cs = "b1 @ lkeys n ! s # b2"
  have len: "length b2 = length B" using o by (simp add: ordered_def)
  have sn: "sorted_wrt (<) ?K" "sorted_wrt (<) ?bs" using o by (simp_all add: ordered_def)
  have old: "(\<forall>x\<in>set (?o ! j). x < ?bs ! j) \<and> (\<forall>x\<in>set (?o ! Suc j). ?bs ! j \<le> x)" if "j < length ?bs" for j
    using o(1) that by (rule ordered_at)
  have atA: "?o ! length A = ?K" by (simp add: nth_append)
  have K: "?K = take s ?K @ drop s ?K" by simp
  have parts: "set (take s ?K) \<subseteq> set ?K" "set (drop s ?K) \<subseteq> set ?K" by (simp_all add: set_take_subset set_drop_subset)
  have lt: "\<forall>x\<in>set (take s ?K). x < ?K ! s" "\<forall>x\<in>set (drop s ?K). ?K ! s \<le> x"
  proof -
    show "\<forall>x\<in>set (take s ?K). x < ?K ! s"
      using sn(1) s(2) by (auto simp: in_set_conv_nth sorted_wrt_iff_nth_less)
    show "\<forall>x\<in>set (drop s ?K). ?K ! s \<le> x"
    proof
      fix x assume "x \<in> set (drop s ?K)"
      then obtain j where "j < length ?K - s" "x = ?K ! (s + j)" by (auto simp: in_set_conv_nth)
      then show "?K ! s \<le> x" using sn(1) s(2) by (cases j) (auto simp: sorted_wrt_iff_nth_less intro: less_imp_le)
    qed
  qed
  have "(\<forall>x\<in>set (?n ! j). x < ?cs ! j) \<and> (\<forall>x\<in>set (?n ! Suc j). ?cs ! j \<le> x)" if j: "j < length ?cs" for j
  proof -
    consider "Suc j < length A" | "Suc j = length A" | "j = length A" | "j = Suc (length A)" | "Suc (length A) < j"
      by linarith
    then show ?thesis
    proof cases
      case 1
      then show ?thesis using old [of j] o(2) by (simp add: nth_append)
    next
      case 2
      then show ?thesis using old [of j] o(2) parts(1) s(3) by (auto simp: nth_append)
    next
      case 3
      then show ?thesis using lt s(3,4) o(2) by (simp add: nth_append)
    next
      case 4
      then show ?thesis using old [of "length A"] j o(2) len parts(2) s(4) by (auto simp: nth_append)
    next
      case 5
      define h where "h = j - Suc (Suc (length A))"
      have h: "j = length A + Suc (Suc h)" using 5 by (simp add: h_def)
      then show ?thesis using old [of "length A + Suc h"] j o(2) by (simp add: nth_append)
    qed
  qed
  moreover have "sorted_wrt (<) ?cs"
  proof -
    have sb: "sorted_wrt (<) b1" "sorted_wrt (<) b2" using sn(2) by (simp_all add: sorted_wrt_append)
    have K0: "?K ! 0 < ?K ! s" using sn(1) s(1,2) by (simp add: sorted_wrt_iff_nth_less)
    have mem: "?K ! 0 \<in> set ?K" "?K ! s \<in> set ?K" using s(2) by (auto intro: nth_mem)
    have "b < ?K ! s" if b: "b \<in> set b1" for b
    proof -
      obtain j where j: "j < length b1" "b1 ! j = b" using b by (auto simp: in_set_conv_nth)
      obtain a where a: "length A = Suc a" using j(1) o(2) by (cases A) auto
      have l: "b \<le> b1 ! a"
        using j o(2) a sorted_wrt_nth_less [OF sb(1), of j a] by (cases "j = a") auto
      have "\<forall>x\<in>set ?K. b1 ! a \<le> x"
        using old [of a] o(2) a atA by (simp add: nth_append)
      then have "b1 ! a \<le> ?K ! 0" using mem(1) by blast
      with l K0 show ?thesis by simp
    qed
    moreover have "?K ! s < b" if b: "b \<in> set b2" for b
    proof -
      obtain j where j: "j < length b2" "b2 ! j = b" using b by (auto simp: in_set_conv_nth)
      have "b2 ! 0 \<le> b"
        using j sorted_wrt_nth_less [OF sb(2), of 0 j] by (cases j) auto
      moreover have "\<forall>x\<in>set ?K. x < b2 ! 0"
        using old [of "length A"] j o(2) atA by (cases b2) (simp_all add: nth_append)
      then have "?K ! s < b2 ! 0" using mem(2) by blast
      ultimately show ?thesis by simp
    qed
    moreover have "\<forall>x\<in>set b1. \<forall>y\<in>set b2. x < y" using sn(2) by (simp add: sorted_wrt_append)
    ultimately show ?thesis using sn(2) by (auto simp: sorted_wrt_append)
  qed
  moreover have "\<forall>ks\<in>set ?n. sorted_wrt (<) ks"
    using o(1) sn(1) s(3,4) by (auto simp: ordered_def sorted_wrt_take sorted_wrt_drop)
  moreover have "length ?n = Suc (length ?cs)" using o(2) len by simp
  ultimately show ?thesis by (simp only: ordered_def) blast
qed

lemma map_of_zip_ins:
  assumes "k \<notin> set ks" "length vs = length ks"
  shows "map_of (zip (ins_at i k ks) (ins_at i v vs)) = (map_of (zip ks vs))(k \<mapsto> v)"
proof -
  have "zip ks vs = zip (take i ks) (take i vs) @ zip (drop i ks) (drop i vs)"
    using assms(2) by (metis append_take_drop_id length_take zip_append)
  moreover have "zip (ins_at i k ks) (ins_at i v vs) =
      zip (take i ks) (take i vs) @ (k, v) # zip (drop i ks) (drop i vs)"
    using assms(2) by (simp add: ins_at_def)
  moreover have "map_of (zip (take i ks) (take i vs)) k = None"
    using assms by (auto simp: map_of_eq_None_iff dest!: set_zip_leftD in_set_takeD)
  ultimately show ?thesis
    by (auto simp: fun_eq_iff map_add_def split: option.split)
qed

definition leaf_ents :: "lnode list \<Rightarrow> (int \<times> int) list" where
  "leaf_ents L = concat (map (\<lambda>n. zip (lkeys n) (lvals n)) L)"

lemma entries_Cons: "entries (L # up) = leaf_ents L"
  by (simp add: entries_def leaf_ents_def)

lemma leaf_ents_ins:
  assumes "\<forall>m\<in>set A. k \<notin> set (lkeys m)" "k \<notin> set (lkeys n)" "length (lvals n) = length (lkeys n)"
    and "leaf_ents N = zip (ins_at i k (lkeys n)) (ins_at i v (lvals n))"
  shows "map_of (leaf_ents (A @ N @ B)) = (map_of (leaf_ents (A @ n # B)))(k \<mapsto> v)"
proof -
  have "map_of (leaf_ents A) k = None"
    using leaf_entries_None [OF assms(1)] by (simp add: leaf_ents_def)
  then show ?thesis
    using map_of_zip_ins [OF assms(2,3), of i v] assms(4)
    by (auto simp: leaf_ents_def fun_eq_iff map_add_def split: option.split)
qed

lemma bp_invI:
  assumes "slots_wf t" "live t = {}" "cfg_ok t" "distinct (offs ls)" "alloc_ok t (set (offs ls))" "ls \<noteq> []"
    and "root t = off (hd (last ls))" "linked ls" "int E = max_entries t" "int Om = max_order t"
    and "stored E Om (disk t) True ls" "filled E Om True ls" "ordered (map lkeys (hd ls)) (bnds (tl ls))"
  shows "bp_inv t ls"
proof -
  have "nat (max_entries t) = E" "nat (max_order t) = Om" using assms(9,10) by (metis nat_int)+
  with assms show ?thesis by (simp add: bp_inv_def)
qed

lemma bp_invD:
  assumes "bp_inv t (L # up)" "int E = max_entries t" "int Om = max_order t"
  shows "slots_wf t" "live t = {}" "cfg_ok t" "distinct (offs (L # up))" "alloc_ok t (set (offs (L # up)))"
    "root t = off (hd (last (L # up)))" "linked (L # up)"
    "chain (body E Om True) (disk t) {} INVALID_OFFSET L (parents up) INVALID_OFFSET" "stored E Om (disk t) False up"
    "filled E Om True (L # up)" "ordered (map lkeys L) (bnds up)"
proof -
  have "nat (max_entries t) = E" "nat (max_order t) = Om" using assms(2,3) by (metis nat_int)+
  with assms(1) show "slots_wf t" "live t = {}" "cfg_ok t" "distinct (offs (L # up))" "alloc_ok t (set (offs (L # up)))"
    "root t = off (hd (last (L # up)))" "linked (L # up)"
    "chain (body E Om True) (disk t) {} INVALID_OFFSET L (parents up) INVALID_OFFSET" "stored E Om (disk t) False up"
    "filled E Om True (L # up)" "ordered (map lkeys L) (bnds up)"
    by (simp_all add: bp_inv_def)
qed

lemma filled_leaf_replace:
  assumes "filled E Om True ((A @ n # B) # up)" "length (lkeys n) \<le> length (lkeys n')"
  shows "filled E Om True ((A @ n' # B) # up)"
  using assms by (cases up) auto

lemma leaf_simple_inv:
  assumes inv: "bp_inv t ((A @ n # B) # up)" "int E = max_entries t" "int Om = max_order t"
    and cov: "covers (A @ n # B) (bnds up) key A n B b1 b2" and k: "key \<notin> set (lkeys n)"
    and nb: "disk t (off n) = Some nb" "header b (self nb) (parent nb) (prev nb) (nxt nb)"
    and n': "n' = LN (off n) (ins_at (cnt_lt (lkeys n) key) key (lkeys n)) [] (ins_at (cnt_lt (lkeys n) key) v (lvals n))"
    and b: "leaf_body E n' b" and t': "rep t t' Map.empty ((disk t)(off n \<mapsto> b))"
  shows "bp_inv t' ((A @ n' # B) # up)"
proof -
  note D = bp_invD [OF inv]
  have s: "slots_wf t'" "live t' = {}" "disk t' = (disk t)(off n \<mapsto> b)" "env t' = env t" "root t' = root t"
    using rep_empty [OF t', of "{}"] by simp_all
  have al: "alloc_ok t' (set (offs ((A @ n # B) # up)))" using rep_empty [OF t'] D(5) by blast
  have o: "off n' = off n" by (simp add: n')
  have ofs: "offs ((A @ n' # B) # up) = offs ((A @ n # B) # up)" by (simp add: offs_def o)
  have dl: "distinct (map off (A @ n # B))"
    using D(4) [unfolded offs_Cons] by (simp only: distinct_append simp_thms)
  have on: "off n \<notin> off ` (set A \<union> set B)" "off n \<notin> set (offs up)"
    using D(4) [unfolded offs_Cons] by (simp_all add: image_Un)
  have self: "self nb = off n" using chain_member [OF D(8), of n] nb(1) by auto
  show ?thesis
  proof (rule bp_invI [of _ _ E Om])
    show "stored E Om (disk t') True ((A @ n' # B) # up)"
    proof -
      have "chain (body E Om True) (disk t') {} INVALID_OFFSET (A @ n' # B) (parents up) INVALID_OFFSET"
      proof (rule chain_replace [OF D(8) o dl nb(1)])
        show "disk t' x = disk t x" if "x \<in> off ` (set A \<union> set B)" for x
        proof -
          have "x \<noteq> off n" using that on(1) by metis
          then show ?thesis by (simp add: s(3))
        qed
      qed (use nb(2) b self in \<open>simp_all add: s(3) body_def\<close>)
      moreover have "stored E Om (disk t') False up"
        by (rule stored_cong [OF D(9)]) (use on(2) in \<open>auto simp: s(3)\<close>)
      ultimately show ?thesis by simp
    qed
    show "filled E Om True ((A @ n' # B) # up)"
      by (rule filled_leaf_replace [OF D(10)]) (simp add: n')
    show "linked ((A @ n' # B) # up)" by (rule linked_replace [OF D(7) o])
    show "root t' = off (hd (last ((A @ n' # B) # up)))"
      using D(6) s(5) o by (cases up; cases A) simp_all
    show "ordered (map lkeys (hd ((A @ n' # B) # up))) (bnds (tl ((A @ n' # B) # up)))"
      using ordered_ins [OF D(11) cov k, of n'] by (simp add: n')
    show "cfg_ok t'" "int E = max_entries t'" "int Om = max_order t'"
      using D(3) inv(2,3) s(4) by (simp_all add: env_def cfg_ok_def)
  qed (use s D(4) al in \<open>simp_all add: ofs\<close>)
qed

subsection \<open>A full leaf is split\<close>

text \<open>What a leaf split leaves behind: the halves \<open>n1\<close>, \<open>n2\<close> in slots, the neighbour relinked.\<close>

definition leaf_done where
  "leaf_done E t t' S x lft p1 p2 d1 d2 n1 n2 n nb KS VS s \<longleftrightarrow>
     x \<notin> S \<and> alloc_ok t' (insert x S) \<and> calm t t' \<and> p1 \<noteq> p2 \<and>
     n1 = LN (if lft then x else off n) (take s KS) [] (take s VS) \<and>
     n2 = LN (if lft then off n else x) (drop s KS) [] (drop s VS) \<and>
     leaf_body E n1 d1 \<and> leaf_body E n2 d2 \<and>
     header d1 (off n1) (if lft then INVALID_OFFSET else parent nb) (prev nb) (off n2) \<and>
     header d2 (off n2) (if lft then parent nb else INVALID_OFFSET) (off n1) (nxt nb) \<and>
     rep t' t' [p1 \<mapsto> d1, p2 \<mapsto> d2] (disk t') \<and>
     disk t' = (if lft then nxt_upd (prev nb) x (disk t) else prev_upd (nxt nb) x (disk t))"

lemma leaf_doneD:
  assumes "leaf_done E t t' S x lft p1 p2 d1 d2 n1 n2 n nb KS VS s"
  shows "x \<notin> S" "alloc_ok t' (insert x S)" "calm t t'" "p1 \<noteq> p2"
     "n1 = LN (if lft then x else off n) (take s KS) [] (take s VS)"
     "n2 = LN (if lft then off n else x) (drop s KS) [] (drop s VS)"
     "leaf_body E n1 d1" "leaf_body E n2 d2"
     "header d1 (off n1) (if lft then INVALID_OFFSET else parent nb) (prev nb) (off n2)"
     "header d2 (off n2) (if lft then parent nb else INVALID_OFFSET) (off n1) (nxt nb)"
     "rep t' t' [p1 \<mapsto> d1, p2 \<mapsto> d2] (disk t')"
     "disk t' = (if lft then nxt_upd (prev nb) x (disk t) else prev_upd (nxt nb) x (disk t))"
  using assms unfolding leaf_done_def by - (elim conjE, assumption)+

lemma leaf_split_climbing:
  assumes inv: "bp_inv t ((A @ n # B) # up)" "int E = max_entries t" "int Om = max_order t"
    and b: "bnds up = b1 @ b2" "length b1 = length A" "length b2 = length B" "sorted_wrt (<) (b1 @ k # b2)"
    and nb: "disk t (off n) = Some nb"
    and d: "leaf_done E t t' (set (offs ((A @ n # B) # up))) x lft p1 p2 d1 d2 n1 n2 n nb KS VS s"
  obtains P1 P2 where "climbing E Om t' True p1 p2 d1 d2 k (parent nb) A n1 n2 B up P1 P2 b1 b2
    (insert x (set (offs ((A @ n # B) # up))))"
proof -
  note D = bp_invD [OF inv] and d' = leaf_doneD [OF d]
  let ?S = "set (offs ((A @ n # B) # up))"
  have o: "off n1 = (if lft then x else off n)" "off n2 = (if lft then off n else x)"
    by (simp_all only: d'(5,6) lnode.sel)
  have INV: "INVALID_OFFSET \<notin> ?S" using alloc_ok_INVALID(1) [OF D(5,3)] .
  have dis: "distinct (map off (A @ n # B) @ offs up)" using D(4) by (simp only: offs_Cons)
  have dl: "distinct (map off (A @ n # B))" "distinct (offs up)" "off ` set (A @ n # B) \<inter> set (offs up) = {}"
    using dis by (simp_all only: distinct_append set_map simp_thms)
  have S: "?S = off ` set (A @ n # B) \<union> set (offs up)" by (rule set_offs_Cons)
  have xs: "x \<notin> off ` set (A @ n # B)" "x \<notin> set (offs up)" using d'(1) unfolding S by blast+
  obtain P1 q P2 b' where R: "parents up = P1 @ q # P2" "length P1 = length A" "length P2 = length B"
    "disk t (off n) = Some b'" "header b' (off n) q (last_off INVALID_OFFSET A) (hd_off B INVALID_OFFSET)"
    "body E Om True n b'"
    using chain_header [OF D(8)] .
  have nbh: "q = parent nb" "prev nb = last_off INVALID_OFFSET A" "nxt nb = hd_off B INVALID_OFFSET" "self nb = off n"
    using R(4,5) nb by (simp_all add: header_def)
  have nbr: "prev nb = INVALID_OFFSET \<or> prev nb \<in> off ` set (A @ n # B)" "nxt nb = INVALID_OFFSET \<or> nxt nb \<in> off ` set (A @ n # B)"
    by (cases A rule: rev_cases; cases B; simp add: nbh)+
  have "chain (body E Om True) (disk t') {off n1, off n2} INVALID_OFFSET (A @ n1 # n2 # B)
      (P1 @ parent d1 # parent d2 # P2) INVALID_OFFSET"
  proof (rule chain_split_node [OF _ R(2) par_ok_body dl(1) _ xs(1) o])
    show "chain (body E Om True) (disk t) {} INVALID_OFFSET (A @ n # B) (P1 @ q # P2) INVALID_OFFSET"
      using D(8) R(1) by simp
    show "INVALID_OFFSET \<notin> off ` set (A @ n # B)" using INV unfolding S by blast
  qed (simp add: d'(12) nbh)
  moreover have "stored E Om (disk t') False up"
  proof (rule stored_cong [OF D(9)])
    fix z assume z: "z \<in> set (offs up)"
    then have "z \<noteq> INVALID_OFFSET" "z \<notin> off ` set (A @ n # B)" using INV dl(3) unfolding S by blast+
    then show "disk t' z = disk t z" using nbr by (auto simp: d'(12) nxt_upd_def prev_upd_def)
  qed
  moreover have "linked up" "root t' = off (hd (last up))" "filled E Om False up"
      "map off A @ off n # map off B = concat (map lsubs (hd up))" if "up \<noteq> []"
    using that D(6,7,10) d'(3) by (cases up; simp add: calm_def)+
  moreover have "int E = max_entries t'" "int Om = max_order t'" "cfg_ok t'"
    using inv(2,3) D(3) d'(3) cfg_ok_calm [OF d'(3)] by (simp_all add: calm_def env_def)
  moreover have "off ` set (A @ n1 # n2 # B) \<union> set (offs up) \<subseteq> insert x ?S"
    unfolding S by (auto simp: o split: if_splits)
  moreover have "distinct (map off (A @ n1 # n2 # B) @ offs up)"
  proof -
    have "distinct (map off (A @ n1 # n2 # B))" using dl(1) xs(1) by (cases lft) (auto simp: o)
    moreover have "off ` set (A @ n1 # n2 # B) \<inter> set (offs up) = {}"
      using dl(3) xs(2) by (cases lft) (auto simp: o)
    ultimately show ?thesis using dl(2) by (simp only: distinct_append set_map simp_thms)
  qed
  ultimately have "climbing E Om t' True p1 p2 d1 d2 k (parent nb) A n1 n2 B up P1 P2 b1 b2 (insert x ?S)"
    unfolding climbing_def
    using d' R(1-3) b nbh by (cases lft) (simp_all add: header_def body_def o)
  then show ?thesis by (rule that)
qed

lemma filled_leaf_split:
  assumes "filled E Om True ((A @ n # B) # up)" "linked ((A @ n # B) # up)"
    "(E + 1) div 2 \<le> length (lkeys n1)" "(E + 1) div 2 \<le> length (lkeys n2)" "filled E Om False up'" "up' \<noteq> []"
  shows "filled E Om True ((A @ n1 # n2 # B) # up')"
proof -
  have "\<forall>m\<in>set A \<union> set B. (E + 1) div 2 \<le> length (lkeys m)"
    using assms(1,2) by (cases up) auto
  then show ?thesis using assms(3-6) by (cases up') auto
qed

lemma leaf_split_inv:
  assumes inv: "bp_inv t ((A @ n # B) # up)" "int E = max_entries t" "int Om = max_order t"
    and cov: "covers (A @ n # B) (bnds up) key A n B b1 b2" and k: "key \<notin> set (lkeys n)"
    and full: "length (lkeys n) = E" and s: "s = (E + 1) div 2"
    and KS: "KS = ins_at (cnt_lt (lkeys n) key) key (lkeys n)"
    and d: "leaf_done E t t' (set (offs ((A @ n # B) # up))) x lft p1 p2 d1 d2 n1 n2 n nb KS VS s"
    and c: "climbing E Om t' True p1 p2 d1 d2 (KS ! s) p A n1 n2 B up P1 P2 b1 b2 (insert x (set (offs ((A @ n # B) # up))))"
    and k': "climbed E Om t' t'' True (KS ! s) (A @ n1 # n2 # B) up up' b1 b2 (insert x (set (offs ((A @ n # B) # up))))"
  shows "bp_inv t'' ((A @ n1 # n2 # B) # up')"
proof -
  note D = bp_invD [OF inv] and d' = leaf_doneD [OF d] and K = climbedD [OF k']
  let ?S = "set (offs ((A @ n # B) # up))" and ?L = "A @ n1 # n2 # B"
  have c': "distinct (map off ?L @ offs up)" "off ` set ?L \<union> set (offs up) \<subseteq> insert x ?S"
    using c by (simp_all only: climbing_def simp_thms)
  have dl: "distinct (map off ?L)" "off ` set ?L \<inter> set (offs up) = {}"
    using c'(1) by (simp_all only: distinct_append set_map simp_thms)
  have S: "?S = off ` set (A @ n # B) \<union> set (offs up)" by (rule set_offs_Cons)
  have offL: "off ` set ?L = insert x (off ` set (A @ n # B))"
    by (cases lft) (auto simp: d'(5,6))
  have E2: "2 \<le> E" using D(3) inv(2) by (simp add: cfg_ok_def)
  have lenK: "length KS = Suc E" by (simp add: KS full)
  have disj: "off ` set ?L \<inter> set (offs up') = {}" using K(6) dl(2) c'(2) by blast
  show ?thesis
  proof (rule bp_invI [of _ _ E Om])
    show "distinct (offs (?L # up'))"
      using dl(1) disj K(7) by (simp only: offs_Cons distinct_append set_map simp_thms)
    have "set (offs (?L # up')) = insert x ?S \<union> set (offs up')"
      unfolding set_offs_Cons offL using K(5) S by blast
    then show "alloc_ok t'' (set (offs (?L # up')))" using K(4) by (simp only:)
    show "filled E Om True (?L # up')"
      by (rule filled_leaf_split [OF D(10,7) _ _ K(12,8)]) (use E2 lenK s in \<open>simp_all add: d'(5,6)\<close>)
    have "ordered (map lkeys (A @ LN 0 KS [] [] # B)) (b1 @ b2)"
      using ordered_ins [OF D(11) cov k, of "LN 0 KS [] []"] cov by (simp add: KS covers_def)
    moreover have "length b1 = length A" using cov by (simp add: covers_def)
    ultimately have "ordered (map lkeys ?L) (b1 @ KS ! s # b2)"
      using ordered_split [of A "LN 0 KS [] []" B b1 b2 s n1 n2] E2 s lenK by (simp add: d'(5,6))
    then show "ordered (map lkeys (hd (?L # up'))) (bnds (tl (?L # up')))" using K(13) by simp
    show "cfg_ok t''" "int E = max_entries t''" "int Om = max_order t''"
      using D(3) inv(2,3) K(3) d'(3) by (simp_all add: env_def cfg_ok_def calm_def)
  qed (use K in simp_all)
qed

subsection \<open>Inserting into a leaf\<close>

lemma levels_fuel:
  assumes inv: "bp_inv t (L # up)" and al: "alloc_ok t' (insert x (set (offs (L # up))))" and c: "calm t t'"
  shows "length up \<le> fuel_of t'"
proof -
  have E: "int (nat (max_entries t)) = max_entries t" "int (nat (max_order t)) = max_order t"
    using inv by (simp_all add: bp_inv_def cfg_ok_def)
  note D = bp_invD [OF inv E]
  have cfg: "cfg_ok t'" using cfg_ok_calm [OF c] D(3) by simp
  have "stored (nat (max_entries t)) (nat (max_order t)) (disk t) True (L # up)" using D(8,9) by simp
  then have "\<forall>M\<in>set (tl (L # up)). \<forall>m\<in>set M. length (lsubs m) = Suc (length (lkeys m))"
    using stored_all_subs by simp
  then have "length (L # up) \<le> length (offs (L # up))" by (rule levels_le_offs [OF D(7)])
  also have "\<dots> = card (set (offs (L # up)))" using D(4) by (simp add: distinct_card)
  also have "\<dots> \<le> card (insert x (set (offs (L # up))))" by (simp add: card_insert_le)
  also have "\<dots> \<le> nat (file_size t' div block_size t')"
    using al cfg by (intro multiples_below) (auto simp: alloc_ok_def cfg_ok_def)
  finally show ?thesis by (simp add: fuel_of_def)
qed

lemma leaf_neighbours:
  assumes inv: "bp_inv t ((A @ n # B) # up)" "int E = max_entries t" "int Om = max_order t" and nb: "disk t (off n) = Some nb"
  shows "prev nb = INVALID_OFFSET \<or> on_disk (disk t) (prev nb)" "nxt nb = INVALID_OFFSET \<or> on_disk (disk t) (nxt nb)"
    "self nb = off n" "leaf_body E n nb"
proof -
  note D = bp_invD [OF inv]
  obtain P1 q P2 b' where R: "parents up = P1 @ q # P2" "length P1 = length A" "length P2 = length B"
    "disk t (off n) = Some b'" "header b' (off n) q (last_off INVALID_OFFSET A) (hd_off B INVALID_OFFSET)"
    "body E Om True n b'"
    using chain_header [OF D(8)] .
  have "prev nb = INVALID_OFFSET \<or> prev nb \<in> off ` set (A @ n # B)" "nxt nb = INVALID_OFFSET \<or> nxt nb \<in> off ` set (A @ n # B)"
    using R(4,5) nb by (cases A rule: rev_cases; cases B; simp add: header_def)+
  then show "prev nb = INVALID_OFFSET \<or> on_disk (disk t) (prev nb)" "nxt nb = INVALID_OFFSET \<or> on_disk (disk t) (nxt nb)"
    using chain_on_disk [OF D(8)] by blast+
  show "self nb = off n" "leaf_body E n nb" using R(4-6) nb by (simp_all add: header_def body_def)
qed

definition inserted where
  "inserted ls key v = (\<lambda>(rv, t'). rv = (0::int) \<and> (\<exists>ls'. bp_inv t' ls' \<and> map_of (entries ls') = (map_of (entries ls))(key \<mapsto> v)))"

lemma leaf_split_finish:
  assumes inv: "bp_inv t ((A @ n # B) # up)" "int E = max_entries t" "int Om = max_order t"
    and cov: "covers (A @ n # B) (bnds up) key A n B b1 b2" and k: "key \<notin> set (lkeys n)"
    and nb: "disk t (off n) = Some nb" and full: "length (lkeys n) = E" and s: "s = (E + 1) div 2"
    and KS: "KS = ins_at (cnt_lt (lkeys n) key) key (lkeys n)" and VS: "VS = ins_at (cnt_lt (lkeys n) key) v (lvals n)"
    and d: "leaf_done E t t' (set (offs ((A @ n # B) # up))) x lft p1 p2 d1 d2 n1 n2 n nb KS VS s"
  shows "wp (parent_node_build (non_leaf_insert (fuel_of t')) t' p1 p2 (KS ! s)) (inserted ((A @ n # B) # up) key v)"
proof -
  note D = bp_invD [OF inv] and d' = leaf_doneD [OF d]
  have E2: "2 \<le> E" using D(3) inv(2) by (simp add: cfg_ok_def)
  have cv: "bnds up = b1 @ b2" "length b1 = length A" "length b2 = length B" using cov by (auto simp: covers_def)
  have "ordered (map lkeys (A @ LN 0 KS [] [] # B)) (b1 @ b2)"
    using ordered_ins [OF D(11) cov k, of "LN 0 KS [] []"] cv by (simp add: KS)
  from ordered_split [OF this cv(2), of s "LN 0 (take s KS) [] []" "LN 0 (drop s KS) [] []"]
  have srt: "sorted_wrt (<) (b1 @ KS ! s # b2)" using E2 s full by (simp add: KS ordered_def)
  obtain P1 P2 where c: "climbing E Om t' True p1 p2 d1 d2 (KS ! s) (parent nb) A n1 n2 B up P1 P2 b1 b2
      (insert x (set (offs ((A @ n # B) # up))))"
    using leaf_split_climbing [OF inv cv srt nb d] .
  have fuel: "length up \<le> fuel_of t'" by (rule levels_fuel [OF inv(1) d'(2,3)])
  have lv: "length (lvals n) = length (lkeys n)" using leaf_neighbours(4) [OF inv nb] by (simp add: leaf_body_def)
  have "leaf_ents [n1, n2] = zip KS VS"
    using lv by (simp add: leaf_ents_def d'(5,6) KS VS zip_append [symmetric])
  then have ents: "map_of (leaf_ents (A @ [n1, n2] @ B)) = (map_of (leaf_ents (A @ n # B)))(key \<mapsto> v)"
    using covers_sides(1) [OF D(11) cov] k lv KS VS by (intro leaf_ents_ins) auto
  show ?thesis
  proof (rule wp_mono [OF climb [OF c fuel]])
    fix y :: "int \<times> bplus_tree" assume y: "case y of (rv, t'') \<Rightarrow> rv = 0 \<and> (\<exists>up'. climbed E Om t' t'' True (KS ! s) (A @ n1 # n2 # B) up up' b1 b2
        (insert x (set (offs ((A @ n # B) # up)))))"
    then obtain t'' up' where y': "y = (0, t'')" "climbed E Om t' t'' True (KS ! s) (A @ n1 # n2 # B) up up' b1 b2
        (insert x (set (offs ((A @ n # B) # up))))"
      by (cases y) auto
    have "bp_inv t'' ((A @ n1 # n2 # B) # up')"
      by (rule leaf_split_inv [OF inv cov k full s KS d c y'(2)])
    moreover have "map_of (entries ((A @ n1 # n2 # B) # up')) = (map_of (entries ((A @ n # B) # up)))(key \<mapsto> v)"
      using ents by (simp add: entries_Cons)
    ultimately show "inserted ((A @ n # B) # up) key v y" unfolding inserted_def y'(1) by blast
  qed
qed

lemma leaf_body_off: "leaf_body E (LN a ks ss vs) b \<Longrightarrow> leaf_body E (LN a' ks ss vs) b"
  unfolding leaf_body_def lnode.sel .

lemma wp_leaf_insert:
  assumes inv: "bp_inv t ((A @ n # B) # up)" and cov: "covers (A @ n # B) (bnds up) key A n B b1 b2"
    and k: "key \<notin> set (lkeys n)" and nb: "disk t (off n) = Some (cs ! p)"
    and p: "p < MIN_CACHE_NUM" "length cs = MIN_CACHE_NUM"
  shows "wp (leaf_insert (t\<lparr>caches := cs\<rparr>) p key v) (inserted ((A @ n # B) # up) key v)"
proof -
  define E Om nb where "E = nat (max_entries t)" and "Om = nat (max_order t)" and "nb = cs ! p"
  have E: "int E = max_entries t" "int Om = max_order t"
    using inv by (simp_all add: bp_inv_def cfg_ok_def E_def Om_def)
  note D = bp_invD [OF inv E] and lb = leaf_neighbours [OF inv E nb, folded nb_def] and nb' = nb [folded nb_def]
  let ?S = "set (offs ((A @ n # B) # up))" and ?i = "cnt_lt (lkeys n) key"
  obtain s where s: "s = (E + 1) div 2" by simp
  let ?t1 = "t\<lparr>caches := cs\<rparr>" and ?t2 = "t\<lparr>caches := cs, used := (used t)[p := True]\<rparr>"
  have sn: "sorted_wrt (<) (lkeys n)" by (rule covers_sides(3) [OF D(11) cov])
  have ks: "key_binary_search (nd ?t1 p) key = Some (- int ?i - 1)"
    using leaf_body_search(2) [OF lb(4) sn, of key] k by (simp add: nd_def nb_def)
  have lE: "length (lkeys n) \<le> E" "children nb = int (length (lkeys n))" using lb(4) by (simp_all add: leaf_body_def)
  have r: "rep t ?t2 [p \<mapsto> nb] (disk t)"
    using D(1,2) p by (auto simp: rep_def quiet_def calm_def env_def slots_wf_def nd_def nb_def live_def nth_list_update)
  have n2: "nd ?t2 p = nb" by (simp add: nd_def nb_def)
  have room: "room [p \<mapsto> nb]" by (rule room_le_4 [of _ p p p p]) auto
  have m: "max_entries t = int E" using E(1) by simp
  show ?thesis
  proof (cases "length (lkeys n) = E")
    case False
    then have less: "length (lkeys n) < E" using lE(1) by simp
    define n' where "n' = LN (off n) (ins_at ?i key (lkeys n)) [] (ins_at ?i v (lvals n))"
    have "wp (leaf_simple_insert ?t2 p key v (int ?i) \<bind> (\<lambda>t. node_flush t (Some p) \<bind> (\<lambda>t. Some (0, t))))
        (inserted ((A @ n # B) # up) key v)"
    proof (rule wp_bind, rule wp_leaf_simple_insert [OF r, where n = n and E = E and x = "off n"])
      fix t3 b
      assume b: "leaf_body E (LN (off n) (ins_at ?i key (lkeys n)) [] (ins_at ?i v (lvals n))) b"
        "header b (self (the ([p \<mapsto> nb] p))) (parent (the ([p \<mapsto> nb] p))) (prev (the ([p \<mapsto> nb] p))) (nxt (the ([p \<mapsto> nb] p)))"
        "rep t t3 ([p \<mapsto> nb](p \<mapsto> b)) (disk t)"
      have hb: "header b (self nb) (parent nb) (prev nb) (nxt nb)" "self b = off n"
        using b(2) lb(3) by (simp_all add: header_def)
      show "wp (node_flush t3 (Some p) \<bind> (\<lambda>t. Some (0, t))) (inserted ((A @ n # B) # up) key v)"
      proof (rule wp_bind, rule wp_flush [OF b(3)], simp, rule wp_Some)
        fix t4 assume "rep t t4 ([p \<mapsto> nb, p \<mapsto> b](p := None))
            ((disk t)(self (the ([p \<mapsto> nb, p \<mapsto> b] p)) \<mapsto> the ([p \<mapsto> nb, p \<mapsto> b] p)))"
        then have r4: "rep t t4 Map.empty ((disk t)(off n \<mapsto> b))" using hb(2) by simp
        have "bp_inv t4 ((A @ n' # B) # up)"
          by (rule leaf_simple_inv [OF inv E cov k nb' hb(1) n'_def _ r4]) (use b(1) in \<open>simp add: n'_def\<close>)
        moreover have "map_of (leaf_ents (A @ [n'] @ B)) = (map_of (leaf_ents (A @ n # B)))(key \<mapsto> v)"
          using covers_sides(1) [OF D(11) cov] k lb(4)
          by (intro leaf_ents_ins [where i = ?i]) (auto simp: leaf_ents_def n'_def leaf_body_def)
        ultimately show "inserted ((A @ n # B) # up) key v (0, t4)"
          unfolding inserted_def by (auto simp: entries_Cons)
      qed
    qed (use lb(4) less in simp_all)
    with False lE show ?thesis by (simp add: leaf_insert_def ks n2 m)
  next
    case True
    have fin: "wp (parent_node_build (non_leaf_insert (fuel_of t')) t' p1 p2 (ins_at ?i key (lkeys n) ! s))
        (inserted ((A @ n # B) # up) key v)"
      if "x \<notin> ?S" "alloc_ok t1 (insert x ?S)" "calm t t1" "p1 \<noteq> p2"
        "leaf_body E (LN 0 (take s (ins_at ?i key (lkeys n))) [] (take s (ins_at ?i v (lvals n)))) d1"
        "header d1 (if lft then x else off n) (if lft then INVALID_OFFSET else parent nb) (prev nb) (if lft then off n else x)"
        "leaf_body E (LN 0 (drop s (ins_at ?i key (lkeys n))) [] (drop s (ins_at ?i v (lvals n)))) d2"
        "header d2 (if lft then off n else x) (if lft then parent nb else INVALID_OFFSET) (if lft then x else off n) (nxt nb)"
        "rep t1 t' [p1 \<mapsto> d1, p2 \<mapsto> d2] (if lft then nxt_upd (prev nb) x (disk t) else prev_upd (nxt nb) x (disk t))"
      for x t1 t' p1 p2 d1 d2 lft
    proof -
      define n1 where "n1 = LN (if lft then x else off n) (take s (ins_at ?i key (lkeys n))) [] (take s (ins_at ?i v (lvals n)))"
      define n2 where "n2 = LN (if lft then off n else x) (drop s (ins_at ?i key (lkeys n))) [] (drop s (ins_at ?i v (lvals n)))"
      have q: "calm t t'" "alloc_ok t' (insert x ?S)"
        using that(2,3) repD(5) [OF that(9)] alloc_ok_quiet calm_trans quiet_calm by blast+
      have q3: "rep t' t' [p1 \<mapsto> d1, p2 \<mapsto> d2] (disk t')"
        using rep_rebase [OF that(9)] unfolding repD(4) [OF that(9)] .
      have "leaf_done E t t' ?S x lft p1 p2 d1 d2 n1 n2 n nb (ins_at ?i key (lkeys n)) (ins_at ?i v (lvals n)) s"
        unfolding leaf_done_def n1_def n2_def lnode.sel
        using that(1,4,5-8) q q3 repD(4) [OF that(9)] leaf_body_off
        by (intro conjI) (assumption | blast | simp)+
      from leaf_split_finish [OF inv E cov k nb' True s refl refl this] show ?thesis .
    qed
    have d: "(int E + 1) div 2 = int s" by (simp add: s)
    have e: "leaf_insert ?t1 p key v = leaf_new ?t2 \<bind> (\<lambda>(sibling, t).
        (if int ?i < int s then leaf_split_left t p sibling key v (int ?i)
         else leaf_split_right t p sibling key v (int ?i)) \<bind> (\<lambda>(split_key, t).
         if int ?i < int s then parent_node_build (non_leaf_insert (fuel_of t)) t sibling p split_key
         else parent_node_build (non_leaf_insert (fuel_of t)) t p sibling split_key))"
      using True lE by (simp add: leaf_insert_def ks n2 m d Let_def)
    show ?thesis
      unfolding e
    proof (rule wp_bind, rule wp_leaf_new [OF r room])
      fix q t3 sb
      assume q: "q \<notin> dom [p \<mapsto> nb]" "header sb INVALID_OFFSET INVALID_OFFSET INVALID_OFFSET INVALID_OFFSET"
        "ntype sb = BPLUS_TREE_LEAF" "length (keys sb) = nat (max_entries t)" "length (datas sb) = nat (max_entries t)"
        "rep t t3 [p \<mapsto> nb, q \<mapsto> sb] (disk t)"
      let ?V = "[p \<mapsto> nb, q \<mapsto> sb]"
      have qp: "p \<noteq> q" "q \<noteq> p" using q(1) by auto
      have V: "p \<in> dom ?V" "q \<in> dom ?V" "the (?V p) = nb" "the (?V q) = sb" using qp by auto
      have roomV: "room ?V" by (rule room_le_4 [of _ p q p p]) auto
      have fr: "fresh_leaf E sb" using q(2-5) by (simp add: fresh_leaf_def E_def)
      show "wp (case (q, t3) of (sibling, t) \<Rightarrow>
        (if int ?i < int s then leaf_split_left t p sibling key v (int ?i)
         else leaf_split_right t p sibling key v (int ?i)) \<bind> (\<lambda>(split_key, t).
         if int ?i < int s then parent_node_build (non_leaf_insert (fuel_of t)) t sibling p split_key
         else parent_node_build (non_leaf_insert (fuel_of t)) t p sibling split_key)) (inserted ((A @ n # B) # up) key v)"
      proof (cases "?i < s")
        case True
        have V2: "?V(q \<mapsto> b1, p \<mapsto> b2) = [q \<mapsto> b1, p \<mapsto> b2]" for b1 b2 using qp by (auto simp: fun_eq_iff)
        show ?thesis
          apply (simp add: True)
          apply (rule wp_bind)
          apply (rule wp_leaf_split_left [OF q(6) V(1,2) qp(1) roomV D(5,3) E(1) _ _ _ True s, where n = n and ?x1.0 = 0 and ?x2.0 = 0])
                apply (use lb \<open>length (lkeys n) = E\<close> fr in \<open>simp_all add: V del: fun_upd_apply\<close>)
          apply (rule fin [where lft = True], assumption+)
             apply (use qp in \<open>simp_all add: V2 del: fun_upd_apply\<close>)
          done
      next
        case False
        have iE: "?i \<le> E" using cnt_lt_le_length [of "lkeys n" key] \<open>length (lkeys n) = E\<close> by simp
        show ?thesis
          apply (simp add: False)
          apply (rule wp_bind)
          apply (rule wp_leaf_split_right [OF q(6) V(1,2) qp(1) roomV D(5,3) E(1) _ _ _ _ iE s, where n = n and ?x1.0 = 0 and ?x2.0 = 0])
                 apply (use lb \<open>length (lkeys n) = E\<close> fr False in \<open>simp_all add: V del: fun_upd_apply\<close>)
           apply (rule fin [where lft = False], assumption+)
             apply (use qp in \<open>simp_all del: fun_upd_apply\<close>)
          done
      qed
    qed
  qed
qed

subsection \<open>The insertion\<close>

lemma insert_empty_spec:
  assumes inv: "bp_inv t []"
  shows "wp (bplus_tree_insert t key v) (inserted [] key v)"
proof -
  define E Om where "E = nat (max_entries t)" and "Om = nat (max_order t)"
  have i: "slots_wf t" "live t = {}" "cfg_ok t" "alloc_ok t {}" "root t = INVALID_OFFSET"
    using inv by (simp_all add: bp_inv_def offs_def)
  have E: "int E = max_entries t" "int Om = max_order t" using i(3) by (simp_all add: cfg_ok_def E_def Om_def)
  have E1: "1 \<le> E" using E(1) i(3) by (simp add: cfg_ok_def)
  have r: "rep t t Map.empty (disk t)" by (rule rep_self) (use i in simp_all)
  have room: "room Map.empty" by (rule room_le_4 [of _ 0 0 0 0]) simp
  have fin: "inserted [] key v (0, t')"
    if "x \<notin> {}" "alloc_ok t1 (insert x {})" "calm t t1"
      "rep (t1\<lparr>root := x, level := 1\<rparr>) t' Map.empty ((disk t)(x \<mapsto> b))" "self b = x"
      "leaf_body E (LN x [key] [] [v]) b" "header b x INVALID_OFFSET INVALID_OFFSET INVALID_OFFSET" for t1 t' x b
  proof -
    note s = rep_empty [OF that(4), of "{x}"]
    have "alloc_ok t' {x}" using s that(2) by simp
    then have "bp_inv t' [[LN x [key] [] [v]]]"
      by (intro bp_invI [of _ _ E Om])
         (use s that E E1 i(3) in \<open>simp_all add: offs_def calm_def env_def cfg_ok_def body_def ordered_def\<close>)
    then show ?thesis unfolding inserted_def by (auto simp: entries_def)
  qed
  have e: "bplus_tree_insert t key v = leaf_new t \<bind> (\<lambda>(rt, t). set_key t rt 0 key \<bind> (\<lambda>t. set_data t rt 0 v \<bind>
      (\<lambda>t. case new_node_append (upd t rt (\<lambda>n. n\<lparr>children := 1\<rparr>)) rt of (x, t) \<Rightarrow>
        node_flush (t\<lparr>root := x, level := 1\<rparr>) (Some rt) \<bind> (\<lambda>t. Some (0, t)))))"
    using find_leaf_empty(1) [OF inv] find_leaf_empty(2) [OF inv, of key] by (simp add: bplus_tree_insert_def Let_def)
  show ?thesis
    unfolding e
  proof (rule wp_bind, rule wp_leaf_new [OF r room])
    fix q t2 sb
    assume q: "header sb INVALID_OFFSET INVALID_OFFSET INVALID_OFFSET INVALID_OFFSET" "ntype sb = BPLUS_TREE_LEAF"
      "length (keys sb) = nat (max_entries t)" "length (datas sb) = nat (max_entries t)" "rep t t2 [q \<mapsto> sb] (disk t)"
    have le: "length (keys sb) = E" "length (datas sb) = E" using q(3,4) by (simp_all add: E_def)
    have lb: "leaf_body E (LN x [key] [] [v]) (sb\<lparr>keys := (keys sb)[0 := key], datas := (datas sb)[0 := v], children := 1, self := x\<rparr>)" for x
      using le E1 q(2) by (cases "keys sb"; cases "datas sb") (simp_all add: leaf_body_def)
    show "wp (case (q, t2) of (rt, t) \<Rightarrow> set_key t rt 0 key \<bind> (\<lambda>t. set_data t rt 0 v \<bind>
      (\<lambda>t. case new_node_append (upd t rt (\<lambda>n. n\<lparr>children := 1\<rparr>)) rt of (x, t) \<Rightarrow>
        node_flush (t\<lparr>root := x, level := 1\<rparr>) (Some rt) \<bind> (\<lambda>t. Some (0, t))))) (inserted [] key v)"
      using q(5) E1 le
      apply simp
      apply (rule wp_bind, erule wp_set(1), (simp; fail)+, simp)
      apply (rule wp_bind, erule wp_set(3), (simp; fail)+, simp)
      apply (drule rep_upd [where p = q and f = "\<lambda>n. n\<lparr>children := 1\<rparr>"], simp)
      apply (erule wp_append_case [OF _ i(4,3)], simp)
      apply (rule wp_bind)
      apply (rule wp_flush [OF rep_level [OF rep_root]], assumption, simp)
      apply (rule wp_Some)
      apply (rule fin, simp, assumption, assumption, simp)
         apply (use q(1) in \<open>simp_all add: lb header_def\<close>)
      done
  qed
qed

theorem insert_spec:
  assumes inv: "bp_inv t ls"
  obtains rv t' ls' where "bplus_tree_insert t key v = Some (rv, t')" "bp_inv t' ls'"
    "map_of (entries ls) key = None \<Longrightarrow> rv = 0 \<and> map_of (entries ls') = (map_of (entries ls))(key \<mapsto> v)"
    "map_of (entries ls) key \<noteq> None \<Longrightarrow> rv = - 1 \<and> ls' = ls \<and> disk t' = disk t"
proof (cases ls)
  case Nil
  then obtain rv t' where "bplus_tree_insert t key v = Some (rv, t')" "inserted [] key v (rv, t')"
    using insert_empty_spec [of t key v] inv by (auto simp: wp_def)
  moreover from this(2) obtain ls' where "rv = 0" "bp_inv t' ls'" "map_of (entries ls') = (map_of (entries ls))(key \<mapsto> v)"
    using Nil by (auto simp: inserted_def)
  ultimately show ?thesis by (intro that [of rv t' ls']) (simp_all add: Nil entries_def)
next
  case (Cons L up)
  have ne: "ls \<noteq> []" using Cons by simp
  obtain p0 t0 p cs A n B b1 b2 where f: "node_seek t (root t) = Some (Some p0, t0)"
    "descend (fuel_of t0) t0 (Some p0) key = Some (Some p, t\<lparr>caches := cs\<rparr>)"
    "length cs = MIN_CACHE_NUM" "p < MIN_CACHE_NUM" "disk t (off n) = Some (cs ! p)"
    "covers (hd ls) (bnds (tl ls)) key A n B b1 b2"
    using find_leaf [OF inv ne] .
  have L: "L = A @ n # B" and cov: "covers (A @ n # B) (bnds up) key A n B b1 b2"
    using f(6) Cons by (auto simp: covers_def)
  have inv': "bp_inv t ((A @ n # B) # up)" using inv Cons L by simp
  have E: "int (nat (max_entries t)) = max_entries t" "int (nat (max_order t)) = max_order t"
    using inv by (simp_all add: bp_inv_def cfg_ok_def)
  note D = bp_invD [OF inv' E] and lb = leaf_neighbours [OF inv' E f(5)]
  have ins: "bplus_tree_insert t key v = leaf_insert (t\<lparr>caches := cs\<rparr>) p key v"
    using f(1,2) by (simp add: bplus_tree_insert_def)
  have look: "map_of (entries ls) key = (if key \<in> set (lkeys n) then Some (lvals n ! cnt_lt (lkeys n) key) else None)"
    using entries_lookup [OF D(11) cov, of up] lb(4) Cons L by (simp add: leaf_body_def)
  show ?thesis
  proof (cases "key \<in> set (lkeys n)")
    case True
    have "leaf_insert (t\<lparr>caches := cs\<rparr>) p key v = Some (- 1, t\<lparr>caches := cs\<rparr>)"
      using leaf_body_search(2) [OF lb(4) covers_sides(3) [OF D(11) cov], of key] True
      by (simp add: leaf_insert_def nd_def)
    then show ?thesis
      by (intro that [of "- 1" "t\<lparr>caches := cs\<rparr>" ls]) (use ins bp_inv_caches [OF inv f(3)] look True in simp_all)
  next
    case False
    obtain rv t' where "leaf_insert (t\<lparr>caches := cs\<rparr>) p key v = Some (rv, t')" "inserted ((A @ n # B) # up) key v (rv, t')"
      using wp_leaf_insert [OF inv' cov False f(5,4,3), of v] by (auto simp: wp_def)
    moreover from this(2) obtain ls' where "rv = 0" "bp_inv t' ls'" "map_of (entries ls') = (map_of (entries ls))(key \<mapsto> v)"
      using Cons L by (auto simp: inserted_def)
    ultimately show ?thesis by (intro that [of rv t' ls']) (use ins look False in simp_all)
  qed
qed

end
