(* ===== verification/BPlus_Delete.thy ===== *)
theory BPlus_Delete
  imports BPlus_Insert
begin

section \<open>Deletion: borrowing from and merging with siblings\<close>

text \<open>
  \<open>bplus_tree_delete\<close> and what it calls. A node that would fall to or below half its
  capacity borrows an entry from the fuller neighbour under the same parent, or merges
  with it; a merge removes a key of the parent, and \<open>non_leaf_remove\<close> climbs on. As in
  the source, a sibling pointer is \<open>NULL\<close> at the ends of a level, \<open>sibling_select\<close> reads
  both siblings only between the ends, and dereferencing \<open>NULL\<close> is \<^term>\<open>None\<close>.
\<close>

datatype sibling = LEFT_SIBLING | RIGHT_SIBLING

definition sibling_select ::
  "bplus_tree \<Rightarrow> nat option \<Rightarrow> nat option \<Rightarrow> nat \<Rightarrow> int \<Rightarrow> sibling option" where
  "sibling_select t l_sib r_sib pnode i =
     (if i = - 1 then Some RIGHT_SIBLING
      else if i = children (nd t pnode) - 2 then Some LEFT_SIBLING
      else do {
        l \<leftarrow> l_sib;
        r \<leftarrow> r_sib;
        Some (if children (nd t l) \<ge> children (nd t r) then LEFT_SIBLING else RIGHT_SIBLING)
      })"

definition non_leaf_shift_from_left ::
  "bplus_tree \<Rightarrow> nat \<Rightarrow> nat \<Rightarrow> nat \<Rightarrow> int \<Rightarrow> int \<Rightarrow> bplus_tree option" where
  "non_leaf_shift_from_left t node left pnode pki remove = do {
     t \<leftarrow> move_key t node 1 node 0 remove;
     t \<leftarrow> move_sub t node 1 node 0 (remove + 1);
     k \<leftarrow> get_key t pnode pki;
     t \<leftarrow> set_key t node 0 k;
     k \<leftarrow> get_key t left (children (nd t left) - 2);
     t \<leftarrow> set_key t pnode pki k;
     s \<leftarrow> get_sub t left (children (nd t left) - 1);
     t \<leftarrow> set_sub t node 0 s;
     s \<leftarrow> get_sub t node 0;
     t \<leftarrow> sub_node_flush t node s;
     Some (upd t left (\<lambda>n. n\<lparr>children := children n - 1\<rparr>))
   }"

definition non_leaf_merge_into_left ::
  "bplus_tree \<Rightarrow> nat \<Rightarrow> nat \<Rightarrow> nat \<Rightarrow> int \<Rightarrow> int \<Rightarrow> bplus_tree option" where
  "non_leaf_merge_into_left t node left pnode pki remove = do {
     k \<leftarrow> get_key t pnode pki;
     t \<leftarrow> set_key t left (children (nd t left) - 1) k;
     t \<leftarrow> move_key t left (children (nd t left)) node 0 remove;
     t \<leftarrow> move_sub t left (children (nd t left)) node 0 (remove + 1);
     t \<leftarrow> move_key t left (children (nd t left) + remove) node (remove + 1)
           (children (nd t node) - remove - 2);
     t \<leftarrow> move_sub t left (children (nd t left) + remove + 1) node (remove + 2)
           (children (nd t node) - remove - 2);
     t \<leftarrow> flush_subs t left
           [children (nd t left)..children (nd t left) + (children (nd t node) - 1) - 1];
     Some (upd t left (\<lambda>n. n\<lparr>children := children n + (children (nd t node) - 1)\<rparr>))
   }"

definition non_leaf_shift_from_right ::
  "bplus_tree \<Rightarrow> nat \<Rightarrow> nat \<Rightarrow> nat \<Rightarrow> int \<Rightarrow> bplus_tree option" where
  "non_leaf_shift_from_right t node right pnode pki = do {
     k \<leftarrow> get_key t pnode pki;
     t \<leftarrow> set_key t node (children (nd t node) - 1) k;
     k \<leftarrow> get_key t right 0;
     t \<leftarrow> set_key t pnode pki k;
     s \<leftarrow> get_sub t right 0;
     t \<leftarrow> set_sub t node (children (nd t node)) s;
     s \<leftarrow> get_sub t node (children (nd t node));
     t \<leftarrow> sub_node_flush t node s;
     let t = upd t node (\<lambda>n. n\<lparr>children := children n + 1\<rparr>);
     t \<leftarrow> move_key t right 0 right 1 (children (nd t right) - 2);
     t \<leftarrow> move_sub t right 0 right 1 (children (nd t right) - 1);
     Some (upd t right (\<lambda>n. n\<lparr>children := children n - 1\<rparr>))
   }"

definition non_leaf_merge_from_right ::
  "bplus_tree \<Rightarrow> nat \<Rightarrow> nat \<Rightarrow> nat \<Rightarrow> int \<Rightarrow> bplus_tree option" where
  "non_leaf_merge_from_right t node right pnode pki = do {
     k \<leftarrow> get_key t pnode pki;
     t \<leftarrow> set_key t node (children (nd t node) - 1) k;
     let t = upd t node (\<lambda>n. n\<lparr>children := children n + 1\<rparr>);
     t \<leftarrow> move_key t node (children (nd t node) - 1) right 0 (children (nd t right) - 1);
     t \<leftarrow> move_sub t node (children (nd t node) - 1) right 0 (children (nd t right));
     t \<leftarrow> flush_subs t node
           [children (nd t node) - 1..children (nd t node) - 1 + children (nd t right) - 1];
     Some (upd t node (\<lambda>n. n\<lparr>children := children n + (children (nd t right) - 1)\<rparr>))
   }"

definition non_leaf_simple_remove :: "bplus_tree \<Rightarrow> nat \<Rightarrow> int \<Rightarrow> bplus_tree option" where
  "non_leaf_simple_remove t node remove =
     (if children (nd t node) \<ge> 2 then do {
        t \<leftarrow> move_key t node remove node (remove + 1) (children (nd t node) - remove - 2);
        t \<leftarrow> move_sub t node (remove + 1) node (remove + 2) (children (nd t node) - remove - 2);
        Some (upd t node (\<lambda>n. n\<lparr>children := children n - 1\<rparr>))
      } else None)"

text \<open>The four \<open>node_flush\<close> calls after an entry was borrowed, in the code's order.\<close>

definition flush_family ::
  "bplus_tree \<Rightarrow> nat \<Rightarrow> nat option \<Rightarrow> nat option \<Rightarrow> nat \<Rightarrow> bplus_tree option" where
  "flush_family t node l_sib r_sib pnode = do {
     t \<leftarrow> node_flush t (Some node);
     t \<leftarrow> node_flush t l_sib;
     t \<leftarrow> node_flush t r_sib;
     node_flush t (Some pnode)
   }"

primrec non_leaf_remove :: "nat \<Rightarrow> bplus_tree \<Rightarrow> nat \<Rightarrow> int \<Rightarrow> bplus_tree option" where
  "non_leaf_remove 0 t node remove = None"
| "non_leaf_remove (Suc fuel) t node remove =
     (if parent (nd t node) = INVALID_OFFSET then
        if children (nd t node) = 2 then do {
          s \<leftarrow> get_sub t node 0;
          (r, t) \<leftarrow> node_fetch t s;
          rt \<leftarrow> r;
          let t = upd t rt (\<lambda>n. n\<lparr>parent := INVALID_OFFSET\<rparr>);
          let t = t\<lparr>root := self (nd t rt)\<rparr>;
          let t = t\<lparr>level := level t - 1\<rparr>;
          t \<leftarrow> node_delete t node None None;
          node_flush t (Some rt)
        } else do {
          t \<leftarrow> non_leaf_simple_remove t node remove;
          node_flush t (Some node)
        }
      else if children (nd t node) \<le> (max_order t + 1) div 2 then do {
        (l_sib, t) \<leftarrow> node_fetch t (prev (nd t node));
        (r_sib, t) \<leftarrow> node_fetch t (nxt (nd t node));
        (p, t) \<leftarrow> node_fetch t (parent (nd t node));
        pnode \<leftarrow> p;
        k \<leftarrow> get_key t node 0;
        i \<leftarrow> parent_key_index (nd t pnode) k;
        sel \<leftarrow> sibling_select t l_sib r_sib pnode i;
        case sel of
          LEFT_SIBLING \<Rightarrow> do {
            l \<leftarrow> l_sib;
            if children (nd t l) > (max_order t + 1) div 2 then do {
              t \<leftarrow> non_leaf_shift_from_left t node l pnode i remove;
              flush_family t node l_sib r_sib pnode
            } else do {
              t \<leftarrow> non_leaf_merge_into_left t node l pnode i remove;
              t \<leftarrow> node_delete t node l_sib r_sib;
              non_leaf_remove fuel t pnode i
            }
          }
        | RIGHT_SIBLING \<Rightarrow> do {
            t \<leftarrow> non_leaf_simple_remove t node remove;
            r \<leftarrow> r_sib;
            if children (nd t r) > (max_order t + 1) div 2 then do {
              t \<leftarrow> non_leaf_shift_from_right t node r pnode (i + 1);
              flush_family t node l_sib r_sib pnode
            } else do {
              t \<leftarrow> non_leaf_merge_from_right t node r pnode (i + 1);
              (rr_sib, t) \<leftarrow> node_fetch t (nxt (nd t r));
              t \<leftarrow> node_delete t r (Some node) rr_sib;
              t \<leftarrow> node_flush t l_sib;
              non_leaf_remove fuel t pnode (i + 1)
            }
          }
      } else do {
        t \<leftarrow> non_leaf_simple_remove t node remove;
        node_flush t (Some node)
      })"

declare non_leaf_remove.simps [simp del]

definition leaf_shift_from_left ::
  "bplus_tree \<Rightarrow> nat \<Rightarrow> nat \<Rightarrow> nat \<Rightarrow> int \<Rightarrow> int \<Rightarrow> bplus_tree option" where
  "leaf_shift_from_left t leaf left pnode pki remove = do {
     t \<leftarrow> move_key t leaf 1 leaf 0 remove;
     t \<leftarrow> move_data t leaf 1 leaf 0 remove;
     k \<leftarrow> get_key t left (children (nd t left) - 1);
     t \<leftarrow> set_key t leaf 0 k;
     v \<leftarrow> get_data t left (children (nd t left) - 1);
     t \<leftarrow> set_data t leaf 0 v;
     let t = upd t left (\<lambda>n. n\<lparr>children := children n - 1\<rparr>);
     k \<leftarrow> get_key t leaf 0;
     set_key t pnode pki k
   }"

definition leaf_merge_into_left ::
  "bplus_tree \<Rightarrow> nat \<Rightarrow> nat \<Rightarrow> int \<Rightarrow> int \<Rightarrow> bplus_tree option" where
  "leaf_merge_into_left t leaf left pki remove = do {
     t \<leftarrow> move_key t left (children (nd t left)) leaf 0 remove;
     t \<leftarrow> move_data t left (children (nd t left)) leaf 0 remove;
     t \<leftarrow> move_key t left (children (nd t left) + remove) leaf (remove + 1)
           (children (nd t leaf) - remove - 1);
     t \<leftarrow> move_data t left (children (nd t left) + remove) leaf (remove + 1)
           (children (nd t leaf) - remove - 1);
     Some (upd t left (\<lambda>n. n\<lparr>children := children n + (children (nd t leaf) - 1)\<rparr>))
   }"

definition leaf_shift_from_right ::
  "bplus_tree \<Rightarrow> nat \<Rightarrow> nat \<Rightarrow> nat \<Rightarrow> int \<Rightarrow> bplus_tree option" where
  "leaf_shift_from_right t leaf right pnode pki = do {
     k \<leftarrow> get_key t right 0;
     t \<leftarrow> set_key t leaf (children (nd t leaf)) k;
     v \<leftarrow> get_data t right 0;
     t \<leftarrow> set_data t leaf (children (nd t leaf)) v;
     let t = upd t leaf (\<lambda>n. n\<lparr>children := children n + 1\<rparr>);
     t \<leftarrow> move_key t right 0 right 1 (children (nd t right) - 1);
     t \<leftarrow> move_data t right 0 right 1 (children (nd t right) - 1);
     let t = upd t right (\<lambda>n. n\<lparr>children := children n - 1\<rparr>);
     k \<leftarrow> get_key t right 0;
     set_key t pnode pki k
   }"

definition leaf_merge_from_right :: "bplus_tree \<Rightarrow> nat \<Rightarrow> nat \<Rightarrow> bplus_tree option" where
  "leaf_merge_from_right t leaf right = do {
     t \<leftarrow> move_key t leaf (children (nd t leaf)) right 0 (children (nd t right));
     t \<leftarrow> move_data t leaf (children (nd t leaf)) right 0 (children (nd t right));
     Some (upd t leaf (\<lambda>n. n\<lparr>children := children n + children (nd t right)\<rparr>))
   }"

definition leaf_simple_remove :: "bplus_tree \<Rightarrow> nat \<Rightarrow> int \<Rightarrow> bplus_tree option" where
  "leaf_simple_remove t leaf remove = do {
     t \<leftarrow> move_key t leaf remove leaf (remove + 1) (children (nd t leaf) - remove - 1);
     t \<leftarrow> move_data t leaf remove leaf (remove + 1) (children (nd t leaf) - remove - 1);
     Some (upd t leaf (\<lambda>n. n\<lparr>children := children n - 1\<rparr>))
   }"

definition leaf_remove :: "bplus_tree \<Rightarrow> nat \<Rightarrow> int \<Rightarrow> (int \<times> bplus_tree) option" where
  "leaf_remove t leaf key = do {
     remove \<leftarrow> key_binary_search (nd t leaf) key;
     if remove < 0 then Some (- 1, t)
     else do {
       let t = t\<lparr>used := (used t)[leaf := True]\<rparr>;
       t \<leftarrow>
         (if parent (nd t leaf) = INVALID_OFFSET then
            if children (nd t leaf) = 1 then do {
              k \<leftarrow> get_key t leaf 0;
              if key = k then
                let t = t\<lparr>root := INVALID_OFFSET, level := 0\<rparr>
                in node_delete t leaf None None
              else None
            } else do {
              t \<leftarrow> leaf_simple_remove t leaf remove;
              node_flush t (Some leaf)
            }
          else if children (nd t leaf) \<le> (max_entries t + 1) div 2 then do {
            (l_sib, t) \<leftarrow> node_fetch t (prev (nd t leaf));
            (r_sib, t) \<leftarrow> node_fetch t (nxt (nd t leaf));
            (p, t) \<leftarrow> node_fetch t (parent (nd t leaf));
            pnode \<leftarrow> p;
            k \<leftarrow> get_key t leaf 0;
            i \<leftarrow> parent_key_index (nd t pnode) k;
            sel \<leftarrow> sibling_select t l_sib r_sib pnode i;
            case sel of
              LEFT_SIBLING \<Rightarrow> do {
                l \<leftarrow> l_sib;
                if children (nd t l) > (max_entries t + 1) div 2 then do {
                  t \<leftarrow> leaf_shift_from_left t leaf l pnode i remove;
                  flush_family t leaf l_sib r_sib pnode
                } else do {
                  t \<leftarrow> leaf_merge_into_left t leaf l i remove;
                  t \<leftarrow> node_delete t leaf l_sib r_sib;
                  non_leaf_remove (fuel_of t) t pnode i
                }
              }
            | RIGHT_SIBLING \<Rightarrow> do {
                t \<leftarrow> leaf_simple_remove t leaf remove;
                r \<leftarrow> r_sib;
                if children (nd t r) > (max_entries t + 1) div 2 then do {
                  t \<leftarrow> leaf_shift_from_right t leaf r pnode (i + 1);
                  flush_family t leaf l_sib r_sib pnode
                } else do {
                  t \<leftarrow> leaf_merge_from_right t leaf r;
                  (rr_sib, t) \<leftarrow> node_fetch t (nxt (nd t r));
                  t \<leftarrow> node_delete t r (Some leaf) rr_sib;
                  t \<leftarrow> node_flush t l_sib;
                  non_leaf_remove (fuel_of t) t pnode (i + 1)
                }
              }
          } else do {
            t \<leftarrow> leaf_simple_remove t leaf remove;
            node_flush t (Some leaf)
          });
       Some (0, t)
     }
   }"

definition bplus_tree_delete :: "bplus_tree \<Rightarrow> int \<Rightarrow> (int \<times> bplus_tree) option" where
  "bplus_tree_delete t key = do {
     (node, t) \<leftarrow> node_seek t (root t);
     (node, t) \<leftarrow> descend (fuel_of t) t node key;
     case node of
       Some leaf \<Rightarrow> leaf_remove t leaf key
     | None \<Rightarrow> Some (- 1, t)
   }"

definition bplus_tree_put :: "bplus_tree \<Rightarrow> int \<Rightarrow> int \<Rightarrow> (int \<times> bplus_tree) option" where
  "bplus_tree_put t key data =
     (if data \<noteq> 0 then bplus_tree_insert t key data else bplus_tree_delete t key)"

end
