(* ===== verification/BPlus_Boot.thy ===== *)
theory BPlus_Boot
  imports BPlus_Query BPlus_Delete
begin

section \<open>The boot file: opening and closing an index\<close>

text \<open>
  \<open>bplus_tree_init\<close> and \<open>bplus_tree_deinit\<close> with the textual form of offsets
  (\<open>str_to_hex\<close>, \<open>hex_to_str\<close>, \<open>offset_load\<close>, \<open>offset_store\<close>). The lemmas show that an
  offset survives its textual form, that a new tree satisfies the invariant, and that a
  tree closed over a boot file that is not longer is the same tree when it is opened again;
  behind a longer one the older free blocks that the new list does not cover are read.
\<close>

unbundle bit_operations_syntax

definition ADDR_STR_WIDTH :: nat where
  "ADDR_STR_WIDTH = 16"

text \<open>The width of the node header, \<open>sizeof(struct bplus_node)\<close>: four \<open>off_t\<close> and two \<open>int\<close>.\<close>

definition sizeof_node :: int where
  "sizeof_node = 40"

definition c_off :: "int \<Rightarrow> int" where
  "c_off x = signed_take_bit 63 x"

definition isdigit :: "int \<Rightarrow> bool" where
  "isdigit c \<longleftrightarrow> 48 \<le> c \<and> c \<le> 57"

definition islower :: "int \<Rightarrow> bool" where
  "islower c \<longleftrightarrow> 97 \<le> c \<and> c \<le> 122"

definition isxdigit :: "int \<Rightarrow> bool" where
  "isxdigit c \<longleftrightarrow> isdigit c \<or> 97 \<le> c \<and> c \<le> 102 \<or> 65 \<le> c \<and> c \<le> 70"

text \<open>
  One turn of the loop of \<open>str_to_hex\<close>; a character that is no hexadecimal digit is skipped.
  \<open>off_t\<close> is signed: where sixteen digits exceed its 63 bits the source relies on the
  wrap-around of two's complement, which \<^term>\<open>c_off\<close> is.
\<close>

definition hex_step :: "int \<Rightarrow> char \<Rightarrow> int" where
  "hex_step offset ch =
     (let c = of_char ch in
      if isdigit c then c_off (offset * 16 + c - of_char CHR ''0'')
      else if isxdigit c then
        if islower c then c_off (offset * 16 + c - of_char CHR ''a'' + 10)
        else c_off (offset * 16 + c - of_char CHR ''A'' + 10)
      else offset)"

definition str_to_hex :: "string \<Rightarrow> int" where
  "str_to_hex s = foldl hex_step 0 s"

text \<open>\<open>hex_to_str\<close> fills its buffer from the last character backwards.\<close>

primrec hex_to_str :: "int \<Rightarrow> nat \<Rightarrow> string" where
  "hex_to_str offset 0 = []"
| "hex_to_str offset (Suc len) =
     hex_to_str (drop_bit 4 offset) len @ [''0123456789ABCDEF'' ! nat (offset AND 15)]"

text \<open>
  A file being read is what is left of it. \<open>read\<close> at the end of the file gives 0 bytes,
  hence \<^term>\<open>INVALID_OFFSET\<close>; a rest shorter than the buffer leaves part of the buffer
  uninitialised, which is \<^term>\<open>None\<close>.
\<close>

definition offset_load :: "string \<Rightarrow> (int \<times> string) option" where
  "offset_load fd =
     (if fd = [] then Some (INVALID_OFFSET, [])
      else if length fd < ADDR_STR_WIDTH then None
      else Some (str_to_hex (take ADDR_STR_WIDTH fd), drop ADDR_STR_WIDTH fd))"

definition offset_store :: "string \<Rightarrow> int \<Rightarrow> string" where
  "offset_store fd offset = fd @ hex_to_str offset ADDR_STR_WIDTH"

text \<open>
  The loop that loads the free blocks. The offset goes through \<open>int i\<close>; the comparison
  with the unsigned constant \<^term>\<open>INVALID_OFFSET\<close> is one of 32-bit unsigned numbers;
  \<open>list_add\<close> puts each block in front of those already loaded.
\<close>

function load_free_blocks :: "string \<Rightarrow> int list \<Rightarrow> int list option" where
  "load_free_blocks fd acc =
     (case offset_load fd of
        None \<Rightarrow> None
      | Some (x, rest) \<Rightarrow>
          let i = c_int x in
          if fd = [] \<or> take_bit 32 i = INVALID_OFFSET then Some acc
          else load_free_blocks rest (i # acc))"
  by pat_completeness auto
termination
  by (relation "measure (\<lambda>(fd, acc). length fd)")
     (auto simp: offset_load_def ADDR_STR_WIDTH_def split: if_splits)

declare load_free_blocks.simps [simp del]

datatype init_error = Name_Too_Long | Not_Power_Of_2 | Block_Too_Small

text \<open>The number of (key, word) pairs that fit in a block, in \<open>size_t\<close> arithmetic, kept in an \<open>int\<close>.\<close>

definition node_capacity :: "int \<Rightarrow> int" where
  "node_capacity bs = c_int (take_bit 64 (bs - sizeof_node) div 12)"

text \<open>
  The three offsets and the free blocks of a boot file; without one (\<open>open\<close> fails) the
  tree starts empty.
\<close>

definition load_boot :: "int \<Rightarrow> string option \<Rightarrow> (int \<times> int \<times> int \<times> int list) option" where
  "load_boot bs boot =
     (case boot of
        None \<Rightarrow> Some (INVALID_OFFSET, bs, 0, [])
      | Some fd \<Rightarrow> do {
          (rt, fd) \<leftarrow> offset_load fd;
          (b, fd) \<leftarrow> offset_load fd;
          (sz, fd) \<leftarrow> offset_load fd;
          fr \<leftarrow> load_free_blocks fd [];
          Some (rt, c_int b, sz, fr)
        })"

text \<open>
  \<open>bplus_tree_init\<close>: \<open>boot\<close> is the boot file if there is one, \<open>D\<close> the data file (created
  empty if missing), \<open>mem\<close> what \<open>malloc\<close> left in the cache slots. \<open>Inl\<close> is the return of
  \<open>NULL\<close>. The name with its suffix is written into a buffer of 1024 bytes; a longer one
  overflows the buffer (\<open>strcat\<close>), which is \<^term>\<open>None\<close>.
\<close>

definition bplus_tree_init ::
  "string option \<Rightarrow> (int \<rightharpoonup> bplus_node) \<Rightarrow> bplus_node list \<Rightarrow> int \<Rightarrow> string \<Rightarrow> int \<Rightarrow>
   (init_error + bplus_tree) option" where
  "bplus_tree_init boot D mem junk fname bs =
     (if length fname \<ge> 1024 then Some (Inl Name_Too_Long)
      else if bs AND (bs - 1) \<noteq> 0 then Some (Inl Not_Power_Of_2)
      else if bs < sizeof_node then Some (Inl Block_Too_Small)
      else if node_capacity bs \<le> 2 then Some (Inl Block_Too_Small)
      else if length (fname @ ''.boot'') \<ge> 1024 then None
      else do {
        (rt, b, sz, fr) \<leftarrow> load_boot bs boot;
        Some (Inr \<lparr>caches = mem, used = replicate MIN_CACHE_NUM False,
          filename = fname @ ''.boot'', disk = D, level = 0, root = rt, file_size = sz,
          free_blocks = fr, block_size = b, max_entries = node_capacity b,
          max_order = node_capacity b, fill = junk\<rparr>)
      })"

text \<open>
  \<open>bplus_tree_deinit\<close> opens the boot file without truncating it and writes from its
  start: what an older, longer file had behind the new contents stays. The data file is
  closed as it is.
\<close>

definition boot_image :: "bplus_tree \<Rightarrow> string" where
  "boot_image t = foldl offset_store [] ([root t, block_size t, file_size t] @ free_blocks t)"

definition bplus_tree_deinit :: "bplus_tree \<Rightarrow> string option \<Rightarrow> string \<times> (int \<rightharpoonup> bplus_node)" where
  "bplus_tree_deinit t boot =
     (let w = boot_image t;
          old = (case boot of None \<Rightarrow> [] | Some s \<Rightarrow> s)
      in (w @ drop (length w) old, disk t))"

subsection \<open>An offset survives its textual form\<close>

lemma length_hex_to_str [simp]: "length (hex_to_str x n) = n"
  by (induction n arbitrary: x) auto

lemma c_off_id: "- (2 ^ 63) \<le> x \<Longrightarrow> x < 2 ^ 63 \<Longrightarrow> c_off x = x"
  by (simp add: c_off_def signed_take_bit_int_eq_self)

lemma c_off_mod: "c_off x = (x + 2 ^ 63) mod 2 ^ 64 - 2 ^ 63"
  by (simp add: c_off_def signed_take_bit_eq_take_bit_shift take_bit_eq_mod)

lemma c_off_cong: "x mod 2 ^ 64 = y mod 2 ^ 64 \<Longrightarrow> c_off x = c_off y"
  unfolding c_off_mod by (metis mod_add_left_eq)

lemma mod_c_off: "c_off x mod 2 ^ 64 = x mod 2 ^ 64"
  unfolding c_off_mod by (simp add: mod_diff_left_eq)

lemma c_off_step: "c_off (c_off x * 16 + d) = c_off (x * 16 + d)"
  by (rule c_off_cong) (metis mod_add_left_eq mod_c_off mod_mult_left_eq)

lemma hex_digits_step:
  assumes "n < 16"
  shows "hex_step x (''0123456789ABCDEF'' ! n) = c_off (x * 16 + int n)"
proof -
  have "n \<in> set [0..<16]" using assms by auto
  then show ?thesis
    by (auto simp: hex_step_def isdigit_def isxdigit_def islower_def Let_def upt_rec add.commute)
qed

lemma foldl_hex_to_str: "foldl hex_step (c_off a) (hex_to_str x n) = c_off (a * 16 ^ n + x mod 16 ^ n)"
proof (induction n arbitrary: x)
  case (Suc n)
  have m: "x AND 15 = x mod 16"
    using take_bit_eq_mask [of 4 x] by (simp add: take_bit_eq_mod mask_eq_exp_minus_1)
  have "nat (x mod 16) < 16" by (simp add: nat_less_iff)
  moreover have "x mod (16 * 16 ^ n) = 16 * (x div 16 mod 16 ^ n) + x mod 16"
    by (rule zmod_zmult2_eq) simp
  ultimately show ?case
    using c_off_step [of "a * 16 ^ n + x div 16 mod 16 ^ n" "x mod 16"]
    by (simp add: Suc m hex_digits_step drop_bit_eq_div algebra_simps)
qed simp

lemma str_to_hex_to_str: "str_to_hex (hex_to_str x 16) = c_off x"
proof -
  have "c_off 0 = 0" by (simp add: c_off_def)
  then have "str_to_hex (hex_to_str x 16) = c_off (x mod 2 ^ 64)"
    using foldl_hex_to_str [of 0 x 16] by (simp add: str_to_hex_def)
  also have "\<dots> = c_off x" by (rule c_off_cong) simp
  finally show ?thesis .
qed

subsection \<open>Reading back what was written\<close>

lemma hex_to_str_width [simp]: "hex_to_str x ADDR_STR_WIDTH \<noteq> []"
  by (metis length_hex_to_str list.size(3) ADDR_STR_WIDTH_def zero_neq_numeral)

lemma offset_load_hex [simp]: "offset_load (hex_to_str x ADDR_STR_WIDTH @ s) = Some (c_off x, s)"
  using hex_to_str_width [of x] by (simp add: offset_load_def str_to_hex_to_str ADDR_STR_WIDTH_def)

lemma foldl_offset_store: "foldl offset_store s xs = s @ concat (map (\<lambda>x. hex_to_str x ADDR_STR_WIDTH) xs)"
  by (induction xs arbitrary: s) (auto simp: offset_store_def)

lemma c_int_id: "- (2 ^ 31) \<le> x \<Longrightarrow> x < 2 ^ 31 \<Longrightarrow> c_int x = x"
  by (simp add: c_int_def signed_take_bit_int_eq_self)

lemma load_free_blocks_store:
  assumes "\<forall>x\<in>set fr. 0 \<le> x \<and> x < 2 ^ 31"
  shows "load_free_blocks (concat (map (\<lambda>x. hex_to_str x ADDR_STR_WIDTH) fr) @ s) acc =
         load_free_blocks s (rev fr @ acc)"
  using assms
proof (induction fr arbitrary: acc)
  case (Cons x fr)
  then have x: "c_off x = x" "c_int x = x" "take_bit 32 x = x"
    by (simp_all add: c_off_id c_int_id take_bit_int_eq_self)
  have "x \<noteq> INVALID_OFFSET" using Cons.prems by (auto simp: INVALID_OFFSET_def)
  then show ?case
    using Cons by (subst load_free_blocks.simps) (simp add: x)
qed simp

lemma load_free_blocks_end [simp]: "load_free_blocks [] acc = Some acc"
  by (subst load_free_blocks.simps) (simp add: offset_load_def)

lemma load_boot_image:
  assumes "\<forall>x\<in>set (free_blocks t). 0 \<le> x \<and> x < 2 ^ 31"
  shows "load_boot bs (Some (boot_image t @ s)) = do {
           fr \<leftarrow> load_free_blocks s (rev (free_blocks t));
           Some (c_off (root t), c_int (c_off (block_size t)), c_off (file_size t), fr)
         }"
  using load_free_blocks_store [OF assms, of s "[]"]
  by (simp add: load_boot_def boot_image_def foldl_offset_store del: foldl.simps append.simps) simp

subsection \<open>What an accepted block size guarantees\<close>

lemma and_pred_pow2:
  assumes "0 < x" "x AND (x - 1) = 0"
  shows "\<exists>n. x = (2::int) ^ n"
  using assms
proof (induction "nat x" arbitrary: x rule: less_induct)
  case less
  note rec = and_rec [of x "x - 1"]
  show ?case
  proof (cases "even x")
    case True
    then obtain y where y: "x = 2 * y" by blast
    then have "(2 * y - 1) div 2 = y - 1" by simp
    with less y rec have "y AND (y - 1) = 0" by simp
    with less(1) [of y] less(2) y obtain n where "y = 2 ^ n" by auto
    with y show ?thesis by (intro exI [of _ "Suc n"]) simp
  next
    case False
    then obtain y where y: "x = 2 * y + 1" by (blast elim: oddE)
    with less rec have "y = 0" by simp
    with y show ?thesis by (intro exI [of _ 0]) simp
  qed
qed

lemma block_size_ok:
  assumes "bs AND (bs - 1) = 0" "sizeof_node \<le> bs" "2 < node_capacity bs" "bs < 2 ^ 31"
  shows "7 \<le> node_capacity bs" "even bs" "node_capacity bs = (bs - 40) div 12" "128 \<le> bs"
proof -
  obtain n where n: "bs = 2 ^ n"
    using and_pred_pow2 [of bs] assms(1,2) by (auto simp: sizeof_node_def)
  show cap: "node_capacity bs = (bs - 40) div 12"
    using assms(2,4) by (simp add: node_capacity_def sizeof_node_def take_bit_int_eq_self c_int_id)
  have "6 < n"
  proof (rule ccontr)
    assume "\<not> 6 < n"
    then have "bs \<le> 2 ^ 6" unfolding n by (intro power_increasing) auto
    with assms(3) cap show False by simp
  qed
  then have "(2::int) ^ 7 \<le> bs" unfolding n by (intro power_increasing) auto
  then show "128 \<le> bs" by simp
  with cap show "7 \<le> node_capacity bs" by linarith
  show "even bs" using \<open>6 < n\<close> by (simp add: n)
qed

subsection \<open>Opening a new tree, and reopening a closed one\<close>

lemma init_tree:
  assumes "length fname < 1019" "bs AND (bs - 1) = 0" "sizeof_node \<le> bs" "2 < node_capacity bs"
    and "load_boot bs boot = Some (rt, b, sz, fr)"
  shows "bplus_tree_init boot D mem junk fname bs =
     Some (Inr \<lparr>caches = mem, used = replicate MIN_CACHE_NUM False,
          filename = fname @ ''.boot'', disk = D, level = 0, root = rt, file_size = sz,
          free_blocks = fr, block_size = b, max_entries = node_capacity b,
          max_order = node_capacity b, fill = junk\<rparr>)"
  using assms by (simp add: bplus_tree_init_def)

lemma init_slots:
  assumes "length mem = MIN_CACHE_NUM" "caches t = mem" "used t = replicate MIN_CACHE_NUM False"
  shows "slots_wf t \<and> live t = {}"
  using assms by (simp add: slots_wf_def live_def)

lemma init_fresh:
  assumes "length fname < 1019" "bs AND (bs - 1) = 0" "sizeof_node \<le> bs" "2 < node_capacity bs"
    "bs < 2 ^ 31" "length mem = MIN_CACHE_NUM"
  obtains t where "bplus_tree_init None D mem junk fname bs = Some (Inr t)" "bp_inv t []"
    "block_size t = bs" "max_order t = (bs - 40) div 12" "max_entries t = (bs - 40) div 12" "disk t = D"
proof -
  note ok = block_size_ok [OF assms(2-5)]
  let ?t = "\<lparr>caches = mem, used = replicate MIN_CACHE_NUM False, filename = fname @ ''.boot'', disk = D,
    level = 0, root = INVALID_OFFSET, file_size = 0, free_blocks = [], block_size = bs,
    max_entries = node_capacity bs, max_order = node_capacity bs, fill = junk\<rparr>"
  have "bplus_tree_init None D mem junk fname bs = Some (Inr ?t)"
    by (rule init_tree [OF assms(1-4)]) (simp add: load_boot_def)
  moreover have "bp_inv ?t []"
    using ok init_slots [OF assms(6), of ?t] by (simp add: bp_inv_def cfg_ok_def alloc_ok_def offs_def)
  ultimately show ?thesis using ok by (intro that [of ?t]) simp_all
qed

text \<open>
  A tree whose geometry is the one its block size gives, and whose offsets fit the \<open>int\<close>
  that the boot loader reads them through.
\<close>

definition closable :: "bplus_tree \<Rightarrow> bool" where
  "closable t \<longleftrightarrow> file_size t < 2 ^ 31 \<and> block_size t < 2 ^ 31 \<and>
     max_order t = node_capacity (block_size t) \<and> max_entries t = node_capacity (block_size t)"

lemma linked_last: "linked ls \<Longrightarrow> length (last ls) = 1"
  by (induction ls rule: linked.induct) auto

lemma root_in_offs: "linked ls \<Longrightarrow> off (hd (last ls)) \<in> set (offs ls)"
proof -
  assume "linked ls"
  then have "last ls \<noteq> []" "last ls \<in> set ls" using linked_last [of ls] by (cases ls; force)+
  then have "hd (last ls) \<in> set (concat ls)" by (metis UN_I hd_in_set set_concat)
  then show ?thesis by (auto simp: offs_def)
qed

lemma alloc_bound:
  assumes "alloc_ok t S" "x \<in> S \<union> set (free_blocks t)" "file_size t < 2 ^ 31"
  shows "0 \<le> x \<and> x < 2 ^ 31"
proof -
  have "0 \<le> x \<and> x < file_size t" using assms(1,2) by (simp add: alloc_ok_def)
  with assms(3) show ?thesis by linarith
qed

lemma bp_inv_root_bound:
  assumes "bp_inv t ls" "file_size t < 2 ^ 31"
  shows "0 \<le> root t \<and> root t < 2 ^ 32"
proof (cases "ls = []")
  case False
  then have "off (hd (last ls)) \<in> set (offs ls)"
    using assms(1) by (intro root_in_offs) (auto simp: bp_inv_def)
  with False assms alloc_bound [of t "set (offs ls)" "root t"] show ?thesis by (simp add: bp_inv_def)
qed (use assms in \<open>simp add: bp_inv_def INVALID_OFFSET_def\<close>)

lemma reopen:
  assumes inv: "bp_inv t ls" and cl: "closable t"
    and fn: "length fname < 1019" and bs: "bs AND (bs - 1) = 0" "sizeof_node \<le> bs" "2 < node_capacity bs"
    and mem: "length mem = MIN_CACHE_NUM"
    and old: "case old of None \<Rightarrow> True | Some s \<Rightarrow> length s \<le> length (boot_image t)"
    and d: "bplus_tree_deinit t old = (boot, D)"
  obtains t' where "bplus_tree_init (Some boot) D mem junk fname bs = Some (Inr t')" "bp_inv t' ls"
    "free_blocks t' = rev (free_blocks t)" "disk t' = disk t"
proof -
  have b: "boot = boot_image t" "D = disk t"
    using d old by (auto simp: bplus_tree_deinit_def Let_def split: option.splits)
  have al: "alloc_ok t (set (offs ls))" and cf: "cfg_ok t" using inv by (simp_all add: bp_inv_def)
  then have fr: "\<forall>x\<in>set (free_blocks t). 0 \<le> x \<and> x < 2 ^ 31"
    using cl alloc_bound [OF al] by (simp add: closable_def)
  have ids: "c_off (root t) = root t" "c_off (file_size t) = file_size t" "c_off (block_size t) = block_size t"
    "c_int (block_size t) = block_size t"
    using bp_inv_root_bound [OF inv] cl al cf by (auto simp: closable_def alloc_ok_def cfg_ok_def intro!: c_off_id c_int_id)
  let ?t = "t\<lparr>caches := mem, used := replicate MIN_CACHE_NUM False, filename := fname @ ''.boot'',
    level := 0, free_blocks := rev (free_blocks t), fill := junk\<rparr>"
  have "load_boot bs (Some boot) = Some (root t, block_size t, file_size t, rev (free_blocks t))"
    using load_boot_image [OF fr, of bs "[]"] by (simp add: b ids)
  from init_tree [OF fn bs this, of "disk t" mem junk] 
  have "bplus_tree_init (Some boot) D mem junk fname bs = Some (Inr ?t)"
    using cl by (simp add: b closable_def)
  moreover have "bp_inv ?t ls"
    using inv init_slots [OF mem, of ?t] by (auto simp: bp_inv_def cfg_ok_def alloc_ok_def)
  ultimately show ?thesis by (intro that [of ?t]) simp_all
qed

subsection \<open>A boot file that was once longer\<close>

lemma drop_boot_text:
  "drop (ADDR_STR_WIDTH * k) (concat (map (\<lambda>x. hex_to_str x ADDR_STR_WIDTH) xs)) =
   concat (map (\<lambda>x. hex_to_str x ADDR_STR_WIDTH) (drop k xs))"
proof (induction xs arbitrary: k)
  case (Cons x xs)
  then show ?case by (cases k) (simp_all add: drop_append)
qed simp

lemma boot_image_text:
  "boot_image t = concat (map (\<lambda>x. hex_to_str x ADDR_STR_WIDTH) ([root t, block_size t, file_size t] @ free_blocks t))"
  by (simp only: boot_image_def foldl_offset_store append_Nil)

lemma length_boot_text: "length (concat (map (\<lambda>x. hex_to_str x ADDR_STR_WIDTH) xs)) = ADDR_STR_WIDTH * length xs"
  by (induction xs) simp_all

lemma boot_rest:
  "drop (length (boot_image t)) (boot_image t0) =
   concat (map (\<lambda>x. hex_to_str x ADDR_STR_WIDTH) (drop (length (free_blocks t)) (free_blocks t0)))"
  unfolding boot_image_text length_boot_text drop_boot_text by simp

text \<open>Of the older list of free blocks the part behind the new list is read as well.\<close>

lemma reopen_stale:
  assumes inv: "bp_inv t ls" and cl: "closable t" and old: "bp_inv t0 ls0" "file_size t0 < 2 ^ 31"
    and fn: "length fname < 1019" and bs: "bs AND (bs - 1) = 0" "sizeof_node \<le> bs" "2 < node_capacity bs"
    and d: "bplus_tree_deinit t0 None = (boot0, D0)" "bplus_tree_deinit t (Some boot0) = (boot, D)"
  obtains t' where "bplus_tree_init (Some boot) D mem junk fname bs = Some (Inr t')"
    "free_blocks t' = rev (drop (length (free_blocks t)) (free_blocks t0)) @ rev (free_blocks t)"
    "disk t' = disk t" "root t' = root t"
proof -
  let ?st = "drop (length (free_blocks t)) (free_blocks t0)"
  have b: "boot = boot_image t @ concat (map (\<lambda>x. hex_to_str x ADDR_STR_WIDTH) ?st)" "D = disk t"
    using d by (auto simp: bplus_tree_deinit_def Let_def boot_rest)
  have al: "alloc_ok t (set (offs ls))" "alloc_ok t0 (set (offs ls0))" and cf: "cfg_ok t"
    using inv old(1) by (simp_all add: bp_inv_def)
  then have fr: "\<forall>x\<in>set (free_blocks t). 0 \<le> x \<and> x < 2 ^ 31"
    using cl alloc_bound [OF al(1)] by (simp add: closable_def)
  have st: "\<forall>x\<in>set ?st. 0 \<le> x \<and> x < 2 ^ 31"
    using alloc_bound [OF al(2) _ old(2)] by (auto dest: in_set_dropD)
  have ids: "c_off (root t) = root t" "c_off (file_size t) = file_size t" "c_off (block_size t) = block_size t"
    "c_int (block_size t) = block_size t"
    using bp_inv_root_bound [OF inv] cl al(1) cf by (auto simp: closable_def alloc_ok_def cfg_ok_def intro!: c_off_id c_int_id)
  have "load_boot bs (Some boot) = Some (root t, block_size t, file_size t, rev ?st @ rev (free_blocks t))"
    using load_boot_image [OF fr, of bs "concat (map (\<lambda>x. hex_to_str x ADDR_STR_WIDTH) ?st)"]
      load_free_blocks_store [OF st, of "[]"]
    by (simp add: b ids)
  from init_tree [OF fn bs this, of "disk t" mem junk] show ?thesis
    by (rule that [unfolded b(2)]) simp_all
qed

subsection \<open>Sessions\<close>

definition blank_node :: bplus_node where
  "blank_node = \<lparr>self = 0, parent = 0, prev = 0, nxt = 0, ntype = 0, children = 0,
     keys = [], subs = [], datas = []\<rparr>"

fun put_all :: "bplus_tree \<Rightarrow> (int \<times> int) list \<Rightarrow> bplus_tree option" where
  "put_all t [] = Some t"
| "put_all t ((k, v) # kvs) = do {
     (_, t) \<leftarrow> bplus_tree_put t k v;
     put_all t kvs
   }"

text \<open>An index whose only entry was deleted, and the index after its block was used again.\<close>

definition freed_tree :: bplus_tree where
  "freed_tree = \<lparr>caches = replicate MIN_CACHE_NUM blank_node, used = replicate MIN_CACHE_NUM False,
     filename = ''data.index.boot'', disk = Map.empty, level = 0, root = INVALID_OFFSET, file_size = 128,
     free_blocks = [0], block_size = 128, max_entries = 7, max_order = 7, fill = 0\<rparr>"

definition reused_leaf :: bplus_node where
  "reused_leaf = \<lparr>self = 0, parent = INVALID_OFFSET, prev = INVALID_OFFSET, nxt = INVALID_OFFSET,
     ntype = 0, children = 1, keys = [1, 0, 0, 0, 0, 0, 0], subs = [], datas = [10, 0, 0, 0, 0, 0, 0]\<rparr>"

definition reused_tree :: bplus_tree where
  "reused_tree = freed_tree\<lparr>disk := [0 \<mapsto> reused_leaf], level := 1, root := 0, free_blocks := []\<rparr>"

lemma freed_inv: "bp_inv freed_tree []"
  by (simp add: bp_inv_def freed_tree_def slots_wf_def live_def cfg_ok_def alloc_ok_def offs_def)

lemma reused_inv: "bp_inv reused_tree [[LN 0 [1] [] [10]]]"
  by (simp add: bp_inv_def reused_tree_def freed_tree_def slots_wf_def live_def cfg_ok_def alloc_ok_def
      offs_def ordered_def body_def leaf_body_def header_def reused_leaf_def
      INVALID_OFFSET_def BPLUS_TREE_LEAF_def take_Cons')

end
