(* ===== verification/BPlus_Map.thy ===== *)
theory BPlus_Map
  imports BPlus_Insert_Correct BPlus_Boot
begin

section \<open>The B+ tree as a map from keys to data\<close>

text \<open>
  The contract of an index that takes each key once: \<open>reps s m\<close> says that the state \<open>s\<close>
  holds the entries of the map \<open>m\<close>. The clients below use only this contract; the
  interpretation discharges it for the tree's own insertion and lookup.
\<close>

locale key_index =
  fixes reps :: "'s \<Rightarrow> (int \<rightharpoonup> int) \<Rightarrow> bool"
    and ins :: "'s \<Rightarrow> int \<Rightarrow> int \<Rightarrow> (int \<times> 's) option"
    and look :: "'s \<Rightarrow> int \<Rightarrow> (int \<times> 's) option"
    and out :: "int \<Rightarrow> int"
  assumes ins_new: "reps s m \<Longrightarrow> m k = None \<Longrightarrow> \<exists>s'. ins s k v = Some (0, s') \<and> reps s' (m(k \<mapsto> v))"
    and ins_old: "reps s m \<Longrightarrow> m k \<noteq> None \<Longrightarrow> \<exists>s'. ins s k v = Some (- 1, s') \<and> reps s' m"
    and look_law: "reps s m \<Longrightarrow>
      \<exists>s'. look s k = Some (case m k of None \<Rightarrow> - 1 | Some v \<Rightarrow> out v, s') \<and> reps s' m"
begin

primrec ins_all :: "'s \<Rightarrow> (int \<times> int) list \<Rightarrow> 's option" where
  "ins_all s [] = Some s"
| "ins_all s (kv # kvs) = do { (_, s) \<leftarrow> ins s (fst kv) (snd kv); ins_all s kvs }"

lemma ins_any: "reps s m \<Longrightarrow> \<exists>r s'. ins s k v = Some (r, s') \<and> reps s' (m ++ (if m k = None then [k \<mapsto> v] else Map.empty))"
  using ins_new [of s m k v] ins_old [of s m k v] by (cases "m k = None") auto

lemma ins_all_reps:
  assumes "reps s m"
  shows "\<exists>s'. ins_all s kvs = Some s' \<and> reps s' (map_of kvs ++ m)"
  using assms
proof (induction kvs arbitrary: s m)
  case (Cons kv kvs)
  obtain k v where kv: "kv = (k, v)" by (cases kv)
  obtain r s' where s': "ins s k v = Some (r, s')" "reps s' (m ++ (if m k = None then [k \<mapsto> v] else Map.empty))"
    using ins_any [OF Cons.prems] by blast
  have eq: "map_of kvs ++ (m ++ (if m k = None then [k \<mapsto> v] else Map.empty)) = map_of (kv # kvs) ++ m"
    by (auto simp: kv map_add_def fun_eq_iff split: option.splits)
  show ?case using Cons.IH [OF s'(2), unfolded eq] s'(1) by (simp add: kv fun_upd_def)
qed auto

text \<open>After any sequence of insertions a lookup gives the value inserted first for the key.\<close>

lemma look_after_ins_all:
  assumes "reps s Map.empty" "ins_all s kvs = Some s'"
  shows "\<exists>s''. look s' k = Some (case map_of kvs k of None \<Rightarrow> - 1 | Some v \<Rightarrow> out v, s'')"
  using ins_all_reps [OF assms(1), of kvs] look_law [of s' "map_of kvs" k] assms(2) by auto

end

definition bp_reps :: "bplus_tree \<Rightarrow> (int \<rightharpoonup> int) \<Rightarrow> bool" where
  "bp_reps t m \<longleftrightarrow> (\<exists>ls. bp_inv t ls \<and> map_of (entries ls) = m)"

lemma bp_repsI: "bp_inv t ls \<Longrightarrow> map_of (entries ls) = m \<Longrightarrow> bp_reps t m"
  by (auto simp: bp_reps_def)

lemma insert_reps:
  assumes "bp_reps t m"
  shows "\<exists>t'. bplus_tree_insert t k v = Some (if m k = None then 0 else - 1, t') \<and>
           bp_reps t' (if m k = None then m(k \<mapsto> v) else m)"
proof -
  obtain ls where inv: "bp_inv t ls" and m: "map_of (entries ls) = m" using assms by (auto simp: bp_reps_def)
  show ?thesis
  proof (rule insert_spec [OF inv, of k v])
    fix rv t' ls'
    assume "bplus_tree_insert t k v = Some (rv, t')" "bp_inv t' ls'"
      "map_of (entries ls) k = None \<Longrightarrow> rv = 0 \<and> map_of (entries ls') = (map_of (entries ls))(k \<mapsto> v)"
      "map_of (entries ls) k \<noteq> None \<Longrightarrow> rv = - 1 \<and> ls' = ls \<and> disk t' = disk t"
    then show ?thesis by (cases "m k = None") (auto simp: m intro: bp_repsI)
  qed
qed

lemma get_reps:
  assumes "bp_reps t m"
  shows "\<exists>t'. bplus_tree_get t k = Some (case m k of None \<Rightarrow> - 1 | Some v \<Rightarrow> c_int v, t') \<and> bp_reps t' m \<and> disk t' = disk t"
proof -
  obtain ls where inv: "bp_inv t ls" and m: "map_of (entries ls) = m" using assms by (auto simp: bp_reps_def)
  obtain cs where cs: "length cs = MIN_CACHE_NUM"
    "bplus_tree_search t k = Some (case map_of (entries ls) k of None \<Rightarrow> - 1 | Some v \<Rightarrow> c_int v, t\<lparr>caches := cs\<rparr>)"
    using search_spec [OF inv] .
  then show ?thesis
    using bp_inv_caches [OF inv cs(1)] by (auto simp: bplus_tree_get_def m intro: bp_repsI)
qed

interpretation bp: key_index bp_reps bplus_tree_insert bplus_tree_get c_int
proof unfold_locales
  fix t m k v
  assume r: "bp_reps t m"
  show "m k = None \<Longrightarrow> \<exists>t'. bplus_tree_insert t k v = Some (0, t') \<and> bp_reps t' (m(k \<mapsto> v))"
    and "m k \<noteq> None \<Longrightarrow> \<exists>t'. bplus_tree_insert t k v = Some (- 1, t') \<and> bp_reps t' m"
    using insert_reps [OF r, of k v] by auto
  show "\<exists>t'. bplus_tree_get t k = Some (case m k of None \<Rightarrow> - 1 | Some v \<Rightarrow> c_int v, t') \<and> bp_reps t' m"
    using get_reps [OF r, of k] by blast
qed

lemma put_all_ins_all: "\<forall>(k, v)\<in>set kvs. v \<noteq> 0 \<Longrightarrow> put_all t kvs = bp.ins_all t kvs"
  by (induction kvs arbitrary: t) (auto simp: bplus_tree_put_def split: prod.splits intro!: arg_cong2 [where f = Option.bind])

lemma bp_reps_empty: "bp_inv t [] \<Longrightarrow> bp_reps t Map.empty"
  by (rule bp_repsI) (auto simp: entries_def)

subsection \<open>A tree of two levels\<close>

text \<open>The index after the keys 10, 20, ..., 80 were put into a new file of 128-byte blocks.\<close>

definition demo_leaf1 :: bplus_node where
  "demo_leaf1 = \<lparr>self = 0, parent = 256, prev = INVALID_OFFSET, nxt = 128, ntype = 0, children = 4,
     keys = [10, 20, 30, 40, 50, 60, 70], subs = [], datas = [100, 200, 300, 400, 500, 600, 700]\<rparr>"

definition demo_leaf2 :: bplus_node where
  "demo_leaf2 = \<lparr>self = 128, parent = 256, prev = 0, nxt = INVALID_OFFSET, ntype = 0, children = 4,
     keys = [50, 60, 70, 80, 0, 0, 0], subs = [], datas = [500, 600, 700, 800, 0, 0, 0]\<rparr>"

definition demo_root :: bplus_node where
  "demo_root = \<lparr>self = 256, parent = INVALID_OFFSET, prev = INVALID_OFFSET, nxt = INVALID_OFFSET,
     ntype = 1, children = 2, keys = [50, 0, 0, 0, 0, 0], subs = [0, 128, 0, 0, 0, 0, 0], datas = []\<rparr>"

definition demo_tree :: bplus_tree where
  "demo_tree = \<lparr>caches = replicate MIN_CACHE_NUM blank_node, used = replicate MIN_CACHE_NUM False,
     filename = ''data.index.boot'',
     disk = [0 \<mapsto> demo_leaf1, 128 \<mapsto> demo_leaf2, 256 \<mapsto> demo_root], level = 2,
     root = 256, file_size = 384, free_blocks = [], block_size = 128, max_entries = 7,
     max_order = 7, fill = 0\<rparr>"

definition demo_levels :: "lnode list list" where
  "demo_levels =
     [[LN 0 [10, 20, 30, 40] [] [100, 200, 300, 400], LN 128 [50, 60, 70, 80] [] [500, 600, 700, 800]],
      [LN 256 [50] [0, 128] []]]"

lemma demo_inv: "bp_inv demo_tree demo_levels"
  by (simp add: bp_inv_def demo_tree_def demo_levels_def slots_wf_def live_def cfg_ok_def alloc_ok_def
      offs_def ordered_def body_def leaf_body_def inner_body_def header_def demo_leaf1_def demo_leaf2_def
      demo_root_def INVALID_OFFSET_def BPLUS_TREE_LEAF_def BPLUS_TREE_NON_LEAF_def take_Cons')

lemma demo_reps: "bp_reps demo_tree (map_of (entries demo_levels))"
  by (rule bp_repsI [OF demo_inv refl])

end
