(* ===== verification/BPlus_Range.thy ===== *)
theory BPlus_Range
  imports BPlus_Map
begin

section \<open>Range queries over the chain of leaves\<close>

text \<open>
  What \<open>bplus_tree_get_range\<close> returns, on the list of the entries of the leaves in their
  order: the loop keeps the datum of the last entry that is not above the upper key
  (\<open>last_in\<close>). When the lower key is stored the loop starts at its entry. When the lower key
  is behind all keys of its leaf the loop goes on in the next leaf, at the position it had
  in the first one: the entries before that position are skipped.
\<close>

definition lent :: "lnode \<Rightarrow> (int \<times> int) list" where
  "lent n = zip (lkeys n) (lvals n)"

text \<open>The datum of the last entry before the first key above \<open>kmax\<close>.\<close>

fun last_in :: "int \<Rightarrow> int \<Rightarrow> (int \<times> int) list \<Rightarrow> int" where
  "last_in kmax start [] = start"
| "last_in kmax start ((k, v) # xs) = (if k \<le> kmax then last_in kmax v xs else start)"

lemma entries_lent: "entries (L # up) = concat (map lent L)"
  by (simp add: entries_def lent_def [abs_def])

subsection \<open>The loop along the leaves\<close>

lemma range_loop_chain:
  assumes "slots_wf t" "live t = {}" "p < MIN_CACHE_NUM" "disk t (off n) = Some (nd t p)"
    "chain (body E Om True) (disk t) {} pv (n # B) ps INVALID_OFFSET"
    "\<forall>m\<in>set (n # B). lkeys m \<noteq> [] \<and> off m \<noteq> INVALID_OFFSET"
    "i < length (lkeys n)" "length (drop i (lent n) @ concat (map lent B)) < fuel"
  shows "\<exists>cs. length cs = MIN_CACHE_NUM \<and> range_loop fuel t (Some p) (int i) kmax start =
    Some (last_in kmax start (drop i (lent n) @ concat (map lent B)), t\<lparr>caches := cs\<rparr>)"
  using assms
proof (induction fuel arbitrary: t p n B pv ps i start)
  case (Suc fuel)
  let ?b = "nd t p" and ?k = "lkeys n ! i" and ?v = "lvals n ! i"
  have b: "leaf_body E n ?b" "nxt ?b = hd_off B INVALID_OFFSET"
    using Suc.prems(4,5) by (auto simp: body_def header_def)
  have key: "get_key t p (int i) = Some ?k" and data: "get_data t p (int i) = Some ?v"
    and ch: "children ?b = int (length (lkeys n))" and len: "length (lvals n) = length (lkeys n)"
    using b(1) Suc.prems(7) by (auto simp: leaf_body_def slot_simps) (metis nth_take)+
  have rem: "drop i (lent n) = (?k, ?v) # drop (Suc i) (lent n)"
    using Suc.prems(7) len by (simp add: lent_def Cons_nth_drop_Suc [symmetric])
  have t: "t\<lparr>caches := caches t\<rparr> = t" "length (caches t) = MIN_CACHE_NUM" using Suc.prems(1) by (simp_all add: slots_wf_def)
  show ?case
  proof (cases "?k \<le> kmax")
    case False
    then show ?thesis using key t by (intro exI [of _ "caches t"]) (simp add: rem)
  next
    case True
    show ?thesis
    proof (cases "Suc i < length (lkeys n)")
      case inside: True
      have "\<exists>cs. length cs = MIN_CACHE_NUM \<and> range_loop fuel t (Some p) (int (Suc i)) kmax ?v =
          Some (last_in kmax ?v (drop (Suc i) (lent n) @ concat (map lent B)), t\<lparr>caches := cs\<rparr>)"
        by (rule Suc.IH [OF Suc.prems(1-6) inside]) (use Suc.prems(8) rem in simp)
      then show ?thesis using True inside key data ch by (simp add: rem algebra_simps)
    next
      case False
      then have last: "drop (Suc i) (lent n) = []" "int i + 1 \<ge> children ?b"
        using ch len by (simp_all add: lent_def)
      show ?thesis
      proof (cases B)
        case Nil
        obtain f where "fuel = Suc f" using Suc.prems(8) rem by (cases fuel) auto
        moreover have "node_seek t (nxt ?b) = Some (None, t)" using b(2) Nil by (simp add: node_seek_def)
        ultimately show ?thesis
          using True key data last t by (intro exI [of _ "caches t"]) (simp add: rem Nil)
      next
        case (Cons n' B')
        obtain ps' where ch': "chain (body E Om True) (disk t) {} (off n) (n' # B') ps' INVALID_OFFSET"
          using Suc.prems(5) Cons by auto
        then obtain b' where b': "disk t (off n') = Some b'" by auto
        have "off n' \<noteq> INVALID_OFFSET" using Suc.prems(6) Cons by simp
        then obtain q cs where q: "node_seek t (off n') = Some (Some q, t\<lparr>caches := cs\<rparr>)"
            "q < MIN_CACHE_NUM" "length cs = MIN_CACHE_NUM" "cs ! q = b'"
          using node_seek_ok [OF Suc.prems(1,2) b'] by blast
        let ?t = "t\<lparr>caches := cs\<rparr>"
        have "\<exists>cs'. length cs' = MIN_CACHE_NUM \<and> range_loop fuel ?t (Some q) (int 0) kmax ?v =
            Some (last_in kmax ?v (drop 0 (lent n') @ concat (map lent B')), ?t\<lparr>caches := cs'\<rparr>)"
        proof (rule Suc.IH [where pv = "off n" and ps = ps'])
          show "chain (body E Om True) (disk ?t) {} (off n) (n' # B') ps' INVALID_OFFSET" using ch' by simp
          show "length (drop 0 (lent n') @ concat (map lent B')) < fuel" using Suc.prems(8) rem last Cons by simp
        qed (use Suc.prems(1,2,6) q b' Cons in \<open>auto simp: slots_wf_def nd_def\<close>)
        moreover have "nxt ?b = off n'" using b(2) Cons by simp
        ultimately show ?thesis using True key data last q(1) by (simp add: rem Cons)
      qed
    qed
  qed
qed simp

subsection \<open>The entries in order\<close>

lemma ordered_keys: "ordered kss bs \<Longrightarrow> sorted_wrt (<) (concat kss)"
proof (induction kss arbitrary: bs)
  case (Cons ks kss)
  show ?case
  proof (cases bs)
    case Nil
    then show ?thesis using Cons.prems by (auto simp: ordered_def)
  next
    case (Cons b bs')
    have nth: "(\<forall>x\<in>set ((ks # kss) ! j). x < bs ! j) \<and> (\<forall>x\<in>set (kss ! j). bs ! j \<le> x)" if "j < length bs" for j
      using Cons.prems that by (auto simp: ordered_def)
    have o: "ordered kss bs'"
      unfolding ordered_def
    proof (intro conjI allI impI)
      fix j assume "j < length bs'"
      with nth [of "Suc j"] Cons show "\<forall>x\<in>set (kss ! j). x < bs' ! j" "\<forall>x\<in>set (kss ! Suc j). bs' ! j \<le> x"
        by auto
    qed (use Cons.prems Cons in \<open>auto simp: ordered_def\<close>)
    have ge: "b \<le> x" if x: "x \<in> set (concat kss)" for x
    proof -
      obtain ks' where "ks' \<in> set kss" "x \<in> set ks'" using x by auto
      then obtain j where j: "j < length kss" "x \<in> set (kss ! j)" by (metis in_set_conv_nth)
      moreover have "length kss = length bs" using Cons.prems by (simp add: ordered_def)
      ultimately have "bs ! j \<le> x" using nth by auto
      moreover have "\<forall>y\<in>set bs. b \<le> y" using Cons.prems Cons by (auto simp: ordered_def)
      then have "b \<le> bs ! j" using j(1) \<open>length kss = length bs\<close> by simp
      ultimately show ?thesis by simp
    qed
    have "\<forall>x\<in>set ks. x < b" using nth [of 0] Cons by simp
    then have "\<forall>x\<in>set ks. \<forall>y\<in>set (concat kss). x < y" using ge by fastforce
    then show ?thesis using Cons.IH [OF o] Cons.prems by (simp add: sorted_wrt_append ordered_def)
  qed
qed (simp add: ordered_def)

lemma covers_unique:
  assumes "covers L bs k A n B b1 b2" "covers L bs k A' n' B' b1' b2'"
  shows "A = A' \<and> n = n' \<and> B = B'"
proof -
  have count: "length a = length (filter (\<lambda>b. b \<le> k) bs)" if "covers L bs k a x c d1 d2" for a x c d1 d2
  proof -
    have "filter (\<lambda>b. b \<le> k) d1 = d1" "filter (\<lambda>b. b \<le> k) d2 = []" "bs = d1 @ d2" "length d1 = length a"
      using that by (auto simp: covers_def filter_id_conv filter_empty_conv)
    then show ?thesis by simp
  qed
  then have "length A = length A'" using assms by metis
  moreover have "A @ n # B = A' @ n' # B'" using assms by (simp add: covers_def)
  ultimately show ?thesis by simp
qed

lemma last_in_Max:
  assumes "sorted_wrt (<) (map fst xs)" "\<exists>e\<in>set xs. fst e \<le> hi"
  shows "(Max {k \<in> fst ` set xs. k \<le> hi}, last_in hi s xs) \<in> set xs"
  using assms
proof (induction xs arbitrary: s)
  case (Cons e xs)
  obtain k v where e: "e = (k, v)" by (cases e)
  have k: "k \<le> hi" and less: "\<forall>x\<in>fst ` set xs. k < x" using Cons.prems e by (auto intro: less_imp_le order.trans)
  let ?K = "{x \<in> fst ` set xs. x \<le> hi}"
  have K: "{x \<in> fst ` set (e # xs). x \<le> hi} = insert k ?K" using e k by auto
  show ?case
  proof (cases "?K = {}")
    case True
    then have "last_in hi v xs = v" by (cases xs) auto
    then show ?thesis using K True e k by simp
  next
    case False
    then have "(Max ?K, last_in hi v xs) \<in> set xs" using Cons.prems by (intro Cons.IH) auto
    moreover have "finite ?K" by simp
    then have "Max ?K \<in> ?K" using False by (rule Max_in)
    then have "k < Max ?K" using less by blast
    then have "Max (insert k ?K) = Max ?K" using Max_insert [OF \<open>finite ?K\<close> False] by simp
    ultimately show ?thesis unfolding K using e k by simp
  qed
qed simp

lemma last_in_above: "\<forall>e\<in>set xs. hi < fst e \<Longrightarrow> last_in hi s xs = s"
  by (cases xs) auto

subsection \<open>The start of the loop\<close>

lemma entries_fuel:
  assumes "bp_inv t (L # up)"
  shows "length (concat (map lent L)) < range_fuel t"
proof -
  let ?E = "nat (max_entries t)"
  from assms have *: "distinct (offs (L # up))" "alloc_ok t (set (offs (L # up)))" "cfg_ok t"
    "stored ?E (nat (max_order t)) (disk t) True (L # up)"
    by (auto simp: bp_inv_def)
  have "length L = card (set (map off L))" using *(1) by (subst distinct_card) (simp_all add: offs_def)
  also have "\<dots> \<le> card (set (offs (L # up)))" by (intro card_mono) (auto simp: offs_def)
  also have "\<dots> \<le> nat (file_size t div block_size t)"
    using *(2,3) by (intro multiples_below) (auto simp: alloc_ok_def cfg_ok_def)
  finally have l: "length L < fuel_of t" by (simp add: fuel_of_def)
  have "\<forall>n\<in>set L. length (lent n) \<le> ?E"
    using chain_member [OF stored_level [of _ _ _ _ "[]" L up]] *(4) by (fastforce simp: body_def leaf_body_def lent_def)
  then have "length (concat (map lent L)) \<le> length L * ?E"
    by (induction L) (auto simp: add_mono)
  also have "\<dots> \<le> length L * Suc ?E" by simp
  also have "\<dots> < fuel_of t * Suc ?E" using l by (intro mult_strict_right_mono) simp_all
  finally show ?thesis by (simp add: range_fuel_def)
qed

lemma leaves_ok:
  assumes "bp_inv t (L # up)" "m \<in> set L"
  shows "lkeys m \<noteq> []" "off m \<noteq> INVALID_OFFSET"
proof -
  have "filled (nat (max_entries t)) (nat (max_order t)) True (L # up)" "2 \<le> max_entries t"
    "INVALID_OFFSET \<notin> set (offs (L # up))"
    using assms(1) alloc_ok_INVALID(1) by (auto simp: bp_inv_def cfg_ok_def)
  then show "lkeys m \<noteq> []" "off m \<noteq> INVALID_OFFSET" using assms(2) by (cases up; force simp: offs_def)+
qed

text \<open>
  Where the loop begins: in the leaf that covers the lower key, if it has a key that is not
  smaller; otherwise in the next leaf, with the same index.
\<close>

lemma range_entry:
  assumes inv: "bp_inv t (L # up)" and cov: "covers L (bnds up) (min k1 k2) A n B b1 b2"
  obtains p cs where "length cs = MIN_CACHE_NUM" "p < MIN_CACHE_NUM" "disk t (off n) = Some (cs ! p)"
    "bplus_tree_get_range t k1 k2 =
      (if cnt_lt (lkeys n) (min k1 k2) < length (lkeys n)
       then range_loop (range_fuel t) (t\<lparr>caches := cs\<rparr>) (Some p) (int (cnt_lt (lkeys n) (min k1 k2))) (max k1 k2) (- 1)
       else do {
         (node, t) \<leftarrow> node_seek (t\<lparr>caches := cs\<rparr>) (nxt (cs ! p));
         range_loop (range_fuel t) t node (int (cnt_lt (lkeys n) (min k1 k2))) (max k1 k2) (- 1)
       })"
proof -
  let ?lo = "min k1 k2" and ?E = "nat (max_entries t)" and ?c = "cnt_lt (lkeys n) (min k1 k2)"
  have mm: "(if k1 \<le> k2 then k1 else k2) = ?lo" "(if ?lo = k1 then k2 else k1) = max k1 k2" by (auto simp: min_def max_def)
  have ne: "L # up \<noteq> []" by simp
  obtain p0 t0 p cs A' n0 B0 b1' b2' where f: "node_seek t (root t) = Some (Some p0, t0)"
    "descend (fuel_of t0) t0 (Some p0) ?lo = Some (Some p, t\<lparr>caches := cs\<rparr>)"
    "length cs = MIN_CACHE_NUM" "p < MIN_CACHE_NUM" "disk t (off n0) = Some (cs ! p)"
    "covers (hd (L # up)) (bnds (tl (L # up))) ?lo A' n0 B0 b1' b2'"
    using find_leaf [OF inv ne] .
  then have disk: "disk t (off n) = Some (cs ! p)" using covers_unique [OF cov, of A' n0 B0 b1' b2'] by simp
  have n: "n \<in> set L" using cov by (simp add: covers_def)
  have ord: "ordered (map lkeys L) (bnds up)" and st: "stored ?E (nat (max_order t)) (disk t) True (L # up)"
    using inv by (auto simp: bp_inv_def)
  have lb: "leaf_body ?E n (cs ! p)"
    using chain_member [OF stored_level [of ?E "nat (max_order t)" "disk t" True "[]" L up] n] st disk by (auto simp: body_def)
  note sn = covers_sides(3) [OF ord cov]
  have search: "key_binary_search (cs ! p) ?lo = Some (if ?lo \<in> set (lkeys n) then int ?c else - int ?c - 1)"
    by (rule leaf_body_search(2) [OF lb sn])
  have ch: "children (cs ! p) = int (length (lkeys n))" using lb by (simp add: leaf_body_def)
  have mem: "?lo \<in> set (lkeys n) \<Longrightarrow> ?c < length (lkeys n)" by (rule cnt_lt_nth(1) [OF sn])
  have fuel: "range_fuel (t\<lparr>caches := cs\<rparr>) = range_fuel t" by (simp add: range_fuel_def fuel_of_def)
  have "bplus_tree_get_range t k1 k2 = do {
      i \<leftarrow> key_binary_search (cs ! p) ?lo;
      if i < 0 then do {
        (node, t) \<leftarrow> (if - i - 1 \<ge> children (cs ! p) then node_seek (t\<lparr>caches := cs\<rparr>) (nxt (cs ! p))
                       else Some (Some p, t\<lparr>caches := cs\<rparr>));
        range_loop (range_fuel t) t node (- i - 1) (max k1 k2) (- 1)
      } else range_loop (range_fuel (t\<lparr>caches := cs\<rparr>)) (t\<lparr>caches := cs\<rparr>) (Some p) i (max k1 k2) (- 1)
    }"
    using f(1,2) unfolding bplus_tree_get_range_def mm Let_def by (simp add: nd_record cong: if_cong)
  then show ?thesis
    using search ch mem fuel by (intro that [OF f(3,4) disk]) (auto simp del: of_nat_less_iff split: if_splits)
qed

lemma leaf_chain:
  assumes "bp_inv t (L # up)" "L = A @ B" "B \<noteq> []"
  obtains pv ps where "chain (body (nat (max_entries t)) (nat (max_order t)) True) (disk t) {} pv B ps INVALID_OFFSET"
    "\<forall>m\<in>set B. lkeys m \<noteq> [] \<and> off m \<noteq> INVALID_OFFSET" "length (concat (map lent B)) < range_fuel t"
proof -
  have st: "chain (body (nat (max_entries t)) (nat (max_order t)) True) (disk t) {} INVALID_OFFSET (A @ B) (parents up) INVALID_OFFSET"
    using assms(1,2) by (simp add: bp_inv_def)
  obtain ps where "chain (body (nat (max_entries t)) (nat (max_order t)) True) (disk t) {} (last_off INVALID_OFFSET A) B ps INVALID_OFFSET"
    using chain_split [OF st] by blast
  moreover have "\<forall>m\<in>set B. lkeys m \<noteq> [] \<and> off m \<noteq> INVALID_OFFSET" using leaves_ok [OF assms(1)] assms(2) by auto
  moreover have "length (concat (map lent B)) < range_fuel t" using entries_fuel [OF assms(1)] assms(2) by simp
  ultimately show ?thesis by (rule that)
qed

lemma range_inside:
  assumes inv: "bp_inv t (L # up)" and cov: "covers L (bnds up) (min k1 k2) A n B b1 b2"
    and c: "cnt_lt (lkeys n) (min k1 k2) < length (lkeys n)"
  shows "\<exists>cs. bplus_tree_get_range t k1 k2 = Some (last_in (max k1 k2) (- 1)
    (drop (cnt_lt (lkeys n) (min k1 k2)) (lent n) @ concat (map lent B)), t\<lparr>caches := cs\<rparr>)"
proof -
  let ?c = "cnt_lt (lkeys n) (min k1 k2)"
  have L: "L = A @ n # B" using cov by (simp add: covers_def)
  obtain p cs where e: "length cs = MIN_CACHE_NUM" "p < MIN_CACHE_NUM" "disk t (off n) = Some (cs ! p)"
    "bplus_tree_get_range t k1 k2 = (if cnt_lt (lkeys n) (min k1 k2) < length (lkeys n)
       then range_loop (range_fuel t) (t\<lparr>caches := cs\<rparr>) (Some p) (int (cnt_lt (lkeys n) (min k1 k2))) (max k1 k2) (- 1)
       else do {
         (node, t) \<leftarrow> node_seek (t\<lparr>caches := cs\<rparr>) (nxt (cs ! p));
         range_loop (range_fuel t) t node (int (cnt_lt (lkeys n) (min k1 k2))) (max k1 k2) (- 1)
       })"
    by (rule range_entry [OF inv cov])
  note get = e(4) [unfolded if_P [OF c]]
  obtain pv ps where ch: "chain (body (nat (max_entries t)) (nat (max_order t)) True) (disk t) {} pv (n # B) ps INVALID_OFFSET"
    and ok: "\<forall>m\<in>set (n # B). lkeys m \<noteq> [] \<and> off m \<noteq> INVALID_OFFSET" and len: "length (concat (map lent (n # B))) < range_fuel t"
    using leaf_chain [OF inv L] by blast
  have "\<exists>cs'. length cs' = MIN_CACHE_NUM \<and> range_loop (range_fuel t) (t\<lparr>caches := cs\<rparr>) (Some p) (int ?c) (max k1 k2) (- 1) =
      Some (last_in (max k1 k2) (- 1) (drop ?c (lent n) @ concat (map lent B)), t\<lparr>caches := cs\<rparr>\<lparr>caches := cs'\<rparr>)"
  proof (rule range_loop_chain)
    show "chain (body (nat (max_entries t)) (nat (max_order t)) True) (disk (t\<lparr>caches := cs\<rparr>)) {} pv (n # B) ps INVALID_OFFSET"
      using ch by simp
  qed (use inv e c ok len in \<open>auto simp: bp_inv_def slots_wf_def nd_def\<close>)
  then show ?thesis using get by auto
qed

lemma range_behind:
  assumes inv: "bp_inv t (L # up)" and cov: "covers L (bnds up) (min k1 k2) A n (n' # B) b1 b2"
    and c: "cnt_lt (lkeys n) (min k1 k2) = length (lkeys n)" "length (lkeys n) < length (lkeys n')"
  shows "\<exists>cs. bplus_tree_get_range t k1 k2 = Some (last_in (max k1 k2) (- 1)
    (drop (length (lkeys n)) (lent n') @ concat (map lent B)), t\<lparr>caches := cs\<rparr>)"
proof -
  let ?c = "length (lkeys n)"
  have L: "L = (A @ [n]) @ n' # B" "L = A @ n # n' # B" using cov by (simp_all add: covers_def)
  obtain p cs where e: "length cs = MIN_CACHE_NUM" "p < MIN_CACHE_NUM" "disk t (off n) = Some (cs ! p)"
    "bplus_tree_get_range t k1 k2 = (if cnt_lt (lkeys n) (min k1 k2) < length (lkeys n)
       then range_loop (range_fuel t) (t\<lparr>caches := cs\<rparr>) (Some p) (int (cnt_lt (lkeys n) (min k1 k2))) (max k1 k2) (- 1)
       else do {
         (node, t) \<leftarrow> node_seek (t\<lparr>caches := cs\<rparr>) (nxt (cs ! p));
         range_loop (range_fuel t) t node (int (cnt_lt (lkeys n) (min k1 k2))) (max k1 k2) (- 1)
       })"
    by (rule range_entry [OF inv cov])
  note get = e(4) [unfolded c(1) less_irrefl if_False]
  obtain pv ps where ch: "chain (body (nat (max_entries t)) (nat (max_order t)) True) (disk t) {} pv (n' # B) ps INVALID_OFFSET"
    and ok: "\<forall>m\<in>set (n' # B). lkeys m \<noteq> [] \<and> off m \<noteq> INVALID_OFFSET" and len: "length (concat (map lent (n' # B))) < range_fuel t"
    using leaf_chain [OF inv L(1)] by blast
  obtain pv' ps' where "chain (body (nat (max_entries t)) (nat (max_order t)) True) (disk t) {} pv' (n # n' # B) ps' INVALID_OFFSET"
    using leaf_chain [OF inv L(2)] by blast
  then have nx: "nxt (cs ! p) = off n'" using e(3) by (auto simp: header_def)
  obtain b' where b': "disk t (off n') = Some b'" using ch by auto
  obtain q cs1 where q: "node_seek (t\<lparr>caches := cs\<rparr>) (off n') = Some (Some q, t\<lparr>caches := cs\<rparr>\<lparr>caches := cs1\<rparr>)"
      "q < MIN_CACHE_NUM" "length cs1 = MIN_CACHE_NUM" "cs1 ! q = b'"
    by (rule node_seek_ok [of "t\<lparr>caches := cs\<rparr>" "off n'" b']) (use inv e(1) b' ok in \<open>auto simp: bp_inv_def slots_wf_def\<close>)
  have "\<exists>cs'. length cs' = MIN_CACHE_NUM \<and> range_loop (range_fuel t) (t\<lparr>caches := cs1\<rparr>) (Some q) (int ?c) (max k1 k2) (- 1) =
      Some (last_in (max k1 k2) (- 1) (drop ?c (lent n') @ concat (map lent B)), t\<lparr>caches := cs1\<rparr>\<lparr>caches := cs'\<rparr>)"
  proof (rule range_loop_chain)
    show "chain (body (nat (max_entries t)) (nat (max_order t)) True) (disk (t\<lparr>caches := cs1\<rparr>)) {} pv (n' # B) ps INVALID_OFFSET"
      using ch by simp
  qed (use inv q b' c ok len in \<open>auto simp: bp_inv_def slots_wf_def nd_def\<close>)
  moreover have "range_fuel (t\<lparr>caches := cs1\<rparr>) = range_fuel t" by (simp add: range_fuel_def fuel_of_def)
  ultimately show ?thesis using get nx q(1) by auto
qed

lemma sorted_entries:
  assumes "bp_inv t (L # up)"
  shows "map fst (entries (L # up)) = concat (map lkeys L)" "sorted_wrt (<) (concat (map lkeys L))"
    "distinct (map fst (entries (L # up)))"
proof -
  have len: "\<forall>n\<in>set L. length (lvals n) = length (lkeys n)"
    using assms chain_member [of "body (nat (max_entries t)) (nat (max_order t)) True" "disk t" "{}"]
    by (fastforce simp: bp_inv_def body_def leaf_body_def)
  show e: "map fst (entries (L # up)) = concat (map lkeys L)"
    using len by (induction L) (auto simp: entries_def)
  have "ordered (map lkeys L) (bnds up)" using assms by (simp add: bp_inv_def)
  then show s: "sorted_wrt (<) (concat (map lkeys L))" by (rule ordered_keys)
  show "distinct (map fst (entries (L # up)))" unfolding e using s by (simp add: strict_sorted_iff)
qed

lemma last_in_suffix:
  assumes es: "es = pre @ (lo, v) # rest" and s: "sorted_wrt (<) (map fst es)" and le: "lo \<le> (hi :: int)"
  shows "map_of es (Max {k \<in> dom (map_of es). lo \<le> k \<and> k \<le> hi}) = Some (last_in hi s0 ((lo, v) # rest))"
proof -
  let ?r = "(lo, v) # rest"
  have "\<forall>e\<in>set pre. fst e < lo" "\<forall>e\<in>set ?r. lo \<le> fst e" "sorted_wrt (<) (map fst ?r)"
    using s by (auto simp: es sorted_wrt_append intro: less_imp_le)
  then have "{k \<in> dom (map_of es). lo \<le> k \<and> k \<le> hi} = {k \<in> fst ` set ?r. k \<le> hi}"
    by (force simp: dom_map_of_conv_image_fst es)
  moreover have "(Max {k \<in> fst ` set ?r. k \<le> hi}, last_in hi s0 ?r) \<in> set ?r"
    using s le by (intro last_in_Max) (auto simp: es sorted_wrt_append)
  ultimately have "(Max {k \<in> dom (map_of es). lo \<le> k \<and> k \<le> hi}, last_in hi s0 ?r) \<in> set es"
    by (simp only: es set_append) blast
  moreover have "distinct (map fst es)" using s by (simp add: strict_sorted_iff)
  ultimately show ?thesis by (rule map_of_is_SomeI [rotated])
qed

lemma range_stored:
  assumes inv: "bp_inv t ls" and lo: "min k1 k2 \<in> dom (map_of (entries ls))"
  shows "\<exists>v cs. bplus_tree_get_range t k1 k2 = Some (v, t\<lparr>caches := cs\<rparr>) \<and>
    map_of (entries ls) (Max {k \<in> dom (map_of (entries ls)). min k1 k2 \<le> k \<and> k \<le> max k1 k2}) = Some v"
proof -
  obtain L up where ls: "ls = L # up" using lo by (cases ls) (auto simp: entries_def)
  have ne: "L # up \<noteq> []" by simp
  obtain p0 t0 p cs A n B b1 b2 where "node_seek t (root t) = Some (Some p0, t0)"
    "descend (fuel_of t0) t0 (Some p0) (min k1 k2) = Some (Some p, t\<lparr>caches := cs\<rparr>)"
    "length cs = MIN_CACHE_NUM" "p < MIN_CACHE_NUM" and disk: "disk t (off n) = Some (cs ! p)"
    and "covers (hd (L # up)) (bnds (tl (L # up))) (min k1 k2) A n B b1 b2"
    using find_leaf [OF inv [unfolded ls] ne] .
  then have cov: "covers L (bnds up) (min k1 k2) A n B b1 b2" by simp
  then have L: "L = A @ n # B" by (simp add: covers_def)
  have ord: "ordered (map lkeys L) (bnds up)" using inv ls by (simp add: bp_inv_def)
  note sn = covers_sides(3) [OF ord cov] and se = sorted_entries [OF inv [unfolded ls]]
  have len: "length (lvals n) = length (lkeys n)"
    using inv chain_member [of "body (nat (max_entries t)) (nat (max_order t)) True" "disk t" "{}"] L ls
    by (fastforce simp: bp_inv_def body_def leaf_body_def)
  let ?c = "cnt_lt (lkeys n) (min k1 k2)"
  have "min k1 k2 \<in> set (lkeys n)" using lo entries_lookup [OF ord cov len, of up] ls by (auto split: if_splits)
  then have c: "?c < length (lkeys n)" "lkeys n ! ?c = min k1 k2" using cnt_lt_nth [OF sn] by auto
  have d: "drop ?c (lent n) = (min k1 k2, lvals n ! ?c) # drop (Suc ?c) (lent n)"
    using c len by (simp add: lent_def Cons_nth_drop_Suc [symmetric])
  have "lent n = take ?c (lent n) @ (min k1 k2, lvals n ! ?c) # drop (Suc ?c) (lent n)"
    using append_take_drop_id [of ?c "lent n"] by (simp only: d)
  then have es: "entries ls = (concat (map lent A) @ take ?c (lent n)) @
      (min k1 k2, lvals n ! ?c) # drop (Suc ?c) (lent n) @ concat (map lent B)"
    unfolding ls entries_lent L by (metis append.assoc append_Cons concat.simps(2) concat_append list.simps(9) map_append)
  have "map_of (entries ls) (Max {k \<in> dom (map_of (entries ls)). min k1 k2 \<le> k \<and> k \<le> max k1 k2}) =
      Some (last_in (max k1 k2) (- 1) ((min k1 k2, lvals n ! ?c) # drop (Suc ?c) (lent n) @ concat (map lent B)))"
    using se(1,2) by (intro last_in_suffix [OF es]) (simp_all add: ls)
  moreover obtain cs where "bplus_tree_get_range t k1 k2 = Some (last_in (max k1 k2) (- 1)
      (drop ?c (lent n) @ concat (map lent B)), t\<lparr>caches := cs\<rparr>)"
    using range_inside [OF inv [unfolded ls] cov c(1)] by blast
  ultimately show ?thesis unfolding d append_Cons by blast
qed

lemma range_skips:
  assumes inv: "bp_inv t (L # up)" and cov: "covers L (bnds up) lo A n (n' # B) b1 b2"
    and behind: "\<forall>k\<in>set (lkeys n). k < lo" and len: "length (lkeys n) < length (lkeys n')"
    and hi: "lo \<le> hi" "hi < lkeys n' ! length (lkeys n)"
  shows "\<exists>cs. bplus_tree_get_range t lo hi = Some (- 1, t\<lparr>caches := cs\<rparr>)"
proof -
  let ?c = "length (lkeys n)"
  have L: "L = A @ n # n' # B" using cov by (simp add: covers_def)
  have mm: "min lo hi = lo" "max lo hi = hi" using hi(1) by auto
  have "cnt_lt (lkeys n) lo = ?c" using behind by (simp add: cnt_lt_def)
  then obtain cs where get: "bplus_tree_get_range t lo hi = Some (last_in hi (- 1)
      (drop ?c (lent n') @ concat (map lent B)), t\<lparr>caches := cs\<rparr>)"
    using range_behind [OF inv, of lo hi A n n' B b1 b2] cov len unfolding mm by blast
  have s: "sorted_wrt (<) (lkeys n' @ concat (map lkeys B))"
    using sorted_entries(2) [OF inv] by (simp add: L sorted_wrt_append)
  have "lkeys n' = take ?c (lkeys n') @ lkeys n' ! ?c # drop (Suc ?c) (lkeys n')" using len by (simp add: id_take_nth_drop)
  then have "sorted_wrt (<) (take ?c (lkeys n') @ lkeys n' ! ?c # drop (Suc ?c) (lkeys n') @ concat (map lkeys B))"
    using s by (metis append.assoc append_Cons)
  moreover have "drop ?c (lkeys n') = lkeys n' ! ?c # drop (Suc ?c) (lkeys n')" using len by (simp add: Cons_nth_drop_Suc)
  ultimately have "\<forall>k\<in>set (drop ?c (lkeys n') @ concat (map lkeys B)). hi < k"
    using hi(2) by (auto simp: sorted_wrt_append intro: less_trans)
  moreover have "fst ` set (drop ?c (lent n') @ concat (map lent B)) \<subseteq> set (drop ?c (lkeys n') @ concat (map lkeys B))"
    by (auto simp: lent_def drop_zip dest!: set_zip_leftD)
  ultimately have "\<forall>e\<in>set (drop ?c (lent n') @ concat (map lent B)). hi < fst e" by blast
  then show ?thesis using get last_in_above by metis
qed

lemma next_leaf_stored:
  assumes inv: "bp_inv t (L # up)" and cov: "covers L (bnds up) lo A n (n' # B) b1 b2" and ne: "lkeys n' \<noteq> []"
  shows "hd (lkeys n') \<in> dom (map_of (entries (L # up))) \<and> lo \<le> hd (lkeys n')"
proof -
  have L: "L = A @ n # n' # B" using cov by (simp add: covers_def)
  then have "hd (lkeys n') \<in> set (map fst (entries (L # up)))"
    unfolding sorted_entries(1) [OF inv] using ne by simp
  moreover have "ordered (map lkeys L) (bnds up)" using inv by (simp add: bp_inv_def)
  then have "\<forall>k\<in>set (lkeys n'). lo < k" using covers_sides(2) [OF _ cov] by auto
  ultimately show ?thesis using ne by (force simp: dom_map_of_conv_image_fst intro: less_imp_le)
qed

subsection \<open>A tree whose second leaf has more entries\<close>

text \<open>The index of \<^term>\<open>demo_tree\<close> after the key 90 was put as well.\<close>

definition range_tree :: bplus_tree where
  "range_tree = demo_tree\<lparr>disk := (disk demo_tree)(128 \<mapsto> demo_leaf2
     \<lparr>children := 5, keys := [50, 60, 70, 80, 90, 0, 0], datas := [500, 600, 700, 800, 900, 0, 0]\<rparr>)\<rparr>"

abbreviation range_leaf1 :: lnode where
  "range_leaf1 \<equiv> LN 0 [10, 20, 30, 40] [] [100, 200, 300, 400]"

abbreviation range_leaf2 :: lnode where
  "range_leaf2 \<equiv> LN 128 [50, 60, 70, 80, 90] [] [500, 600, 700, 800, 900]"

lemma range_tree_inv: "bp_inv range_tree [[range_leaf1, range_leaf2], [LN 256 [50] [0, 128] []]]"
  by (simp add: bp_inv_def range_tree_def demo_tree_def slots_wf_def live_def cfg_ok_def alloc_ok_def
      offs_def ordered_def body_def leaf_body_def inner_body_def header_def demo_leaf1_def demo_leaf2_def
      demo_root_def INVALID_OFFSET_def BPLUS_TREE_LEAF_def BPLUS_TREE_NON_LEAF_def take_Cons')

end
