(* ===== verification/Bytes.thy ===== *)
theory Bytes
  imports Prelude "HOL-Library.Word" "HOL-Library.List_Lexorder"
begin

section \<open>Byte strings\<close>

text \<open>
  Byte strings as the C and C++ sources handle them through \<open>char *\<close>, \<open>std::string\<close> and
  \<open>Slice\<close>: lists of 8-bit words, compared as unsigned bytes, in the library's
  lexicographic order of lists. The little-endian image of an integer in memory is
  \<open>le_bytes\<close>; \<open>le_value\<close> reads it back.
\<close>

unbundle bit_operations_syntax

type_synonym bytes = "8 word list"

definition le_bytes :: "nat \<Rightarrow> 'w::len word \<Rightarrow> bytes" where
  "le_bytes n w = map (\<lambda>j. ucast (drop_bit (8 * j) w)) [0..<n]"

primrec le_value :: "bytes \<Rightarrow> nat" where
  "le_value [] = 0"
| "le_value (b # bs) = unat b + 256 * le_value bs"

definition be_value :: "bytes \<Rightarrow> nat" where
  "be_value bs = le_value (rev bs)"

lemma length_le_bytes [simp]: "length (le_bytes n w) = n"
  by (simp add: le_bytes_def)

lemma unat_byte: "unat (b :: 8 word) < 256"
  using unsigned_less [of b] by simp

lemma le_value_bound: "le_value bs < 256 ^ length bs"
proof (induction bs)
  case (Cons b bs)
  then have "256 * Suc (le_value bs) \<le> 256 * 256 ^ length bs" by (intro mult_le_mono2) simp
  with unat_byte [of b] show ?case by simp
qed simp

lemma le_value_append: "le_value (as @ bs) = le_value as + 256 ^ length as * le_value bs"
  by (induction as) (auto simp: algebra_simps)

lemma le_value_le_bytes: "le_value (le_bytes n w) = unat w mod 256 ^ n"
proof (induction n)
  case (Suc n)
  have "unat (ucast (drop_bit (8 * n) w) :: 8 word) = unat w div 256 ^ n mod 256"
    unfolding unsigned_ucast_eq unat_drop_bit_eq by (simp add: take_bit_eq_mod drop_bit_eq_div power_mult)
  moreover have "le_bytes (Suc n) w = le_bytes n w @ [ucast (drop_bit (8 * n) w)]"
    by (simp add: le_bytes_def)
  moreover have "unat w mod 256 ^ Suc n = unat w mod 256 ^ n + 256 ^ n * (unat w div 256 ^ n mod 256)"
    using mod_mult2_eq [of "unat w" "256 ^ n" 256] by (simp add: mult.commute add.commute)
  ultimately show ?case using Suc by (simp add: le_value_append)
qed (simp add: le_bytes_def)

lemma le_value_inj: "length as = length bs \<Longrightarrow> le_value as = le_value bs \<Longrightarrow> as = bs"
proof (induction as bs rule: list_induct2)
  case (Cons a as b bs)
  have "unat a = (unat a + 256 * le_value as) mod 256" "unat b = (unat b + 256 * le_value bs) mod 256"
    using unat_byte [of a] unat_byte [of b] by simp_all
  with Cons have "unat a = unat b" by simp
  with Cons show ?case by (simp add: word_unat_eq_iff)
qed simp

lemma be_value_Cons: "be_value (b # bs) = 256 ^ length bs * unat b + be_value bs"
  by (simp add: be_value_def le_value_append)

lemma be_value_bound: "be_value bs < 256 ^ length bs"
  using le_value_bound [of "rev bs"] by (simp add: be_value_def)

lemma be_value_inj: "length as = length bs \<Longrightarrow> be_value as = be_value bs \<Longrightarrow> as = bs"
  using le_value_inj [of "rev as" "rev bs"] by (simp add: be_value_def)

text \<open>Strings of equal length are ordered as the numbers they represent in big-endian order.\<close>

lemma less_be_value: "length as = length bs \<Longrightarrow> as < bs \<longleftrightarrow> be_value as < be_value bs"
proof (induction as bs rule: list_induct2)
  case (Cons a as b bs)
  have lt: "256 ^ length as * unat x + be_value as' < 256 ^ length as * unat y + be_value bs'"
    if "unat x < unat y" "be_value as' < 256 ^ length as" for x y :: "8 word" and as' bs'
  proof -
    have "256 ^ length as * Suc (unat x) \<le> 256 ^ length as * unat y" using that(1) by (intro mult_le_mono2) simp
    with that(2) show ?thesis by simp
  qed
  consider "a < b" | "a = b" | "b < a" by fastforce
  then show ?case
  proof cases
    case 1
    then show ?thesis using lt [of a b as bs] be_value_bound [of as] Cons(1)
      by (simp add: be_value_Cons word_less_nat_alt)
  next
    case 3
    then show ?thesis using lt [of b a bs as] be_value_bound [of bs] Cons(1)
      by (auto simp: be_value_Cons word_less_nat_alt)
  qed (use Cons in \<open>simp add: be_value_Cons\<close>)
qed simp

end
