(* ===== verification/Murmur.thy ===== *)
theory Murmur
  imports Bytes
begin

section \<open>MurmurHash3\<close>

text \<open>
  The three hash functions of \<open>filter_exps/MurmurHash3.cpp\<close> on machine words. The bytes
  behind the key pointer are a list; every read through the pointer checks its index, so
  reading past the key is \<^term>\<open>None\<close>. Blocks are read in little-endian order.
  The lemmas show that a hash reads only the first \<open>len\<close> bytes and always returns, that
  the pointer walk equals a recursion over blocks of four bytes, and that the finalizers
  and the rounds lose no information.
\<close>

unbundle bit_operations_syntax

subsection \<open>Rotations, blocks and finalizers\<close>

definition rotl32 :: "32 word \<Rightarrow> nat \<Rightarrow> 32 word" where
  "rotl32 x r = push_bit r x OR drop_bit (32 - r) x"

definition rotl64 :: "64 word \<Rightarrow> nat \<Rightarrow> 64 word" where
  "rotl64 x r = push_bit r x OR drop_bit (64 - r) x"

text \<open>
  \<open>getblock32 data base i\<close> is \<open>p[i]\<close> for the pointer \<open>p\<close> to 32-bit words at byte \<open>base\<close> of
  the key; \<open>i\<close> may be negative.
\<close>

definition getblock32 :: "bytes \<Rightarrow> int \<Rightarrow> int \<Rightarrow> 32 word option" where
  "getblock32 data base i = do {
     b0 \<leftarrow> aget data (base + 4 * i);
     b1 \<leftarrow> aget data (base + 4 * i + 1);
     b2 \<leftarrow> aget data (base + 4 * i + 2);
     b3 \<leftarrow> aget data (base + 4 * i + 3);
     Some (ucast b0 OR push_bit 8 (ucast b1) OR push_bit 16 (ucast b2) OR push_bit 24 (ucast b3))
   }"

definition getblock64 :: "bytes \<Rightarrow> int \<Rightarrow> int \<Rightarrow> 64 word option" where
  "getblock64 data base i = do {
     lo \<leftarrow> getblock32 data base (2 * i);
     hi \<leftarrow> getblock32 data base (2 * i + 1);
     Some (ucast lo OR push_bit 32 (ucast hi))
   }"

definition fmix32 :: "32 word \<Rightarrow> 32 word" where
  "fmix32 h =
     (let h = h XOR drop_bit 16 h;
          h = h * 0x85ebca6b;
          h = h XOR drop_bit 13 h;
          h = h * 0xc2b2ae35;
          h = h XOR drop_bit 16 h
      in h)"

definition fmix64 :: "64 word \<Rightarrow> 64 word" where
  "fmix64 k =
     (let k = k XOR drop_bit 33 k;
          k = k * 0xff51afd7ed558ccd;
          k = k XOR drop_bit 33 k;
          k = k * 0xc4ceb9fe1a85ec53;
          k = k XOR drop_bit 33 k
      in k)"

text \<open>
  The \<open>switch\<close> over the length of the tail falls through its cases from the last byte of
  the tail down: byte \<open>j\<close> is mixed in at its shift when the tail is longer than \<open>j\<close>.
\<close>

definition tail_mix :: "bytes \<Rightarrow> int \<Rightarrow> nat \<Rightarrow> (nat \<times> nat) list \<Rightarrow> 'w::len word option" where
  "tail_mix data tail r cells =
     foldM (\<lambda>k (j, s). if j < r then do {
              b \<leftarrow> aget data (tail + int j);
              Some (k XOR push_bit s (ucast b))
            } else Some k) 0 cells"

subsection \<open>The 32-bit hash for x86\<close>

definition x86_32_scramble :: "32 word \<Rightarrow> 32 word" where
  "x86_32_scramble k1 =
     (let k1 = k1 * 0xcc9e2d51;
          k1 = rotl32 k1 15
      in k1 * 0x1b873593)"

definition x86_32_round :: "32 word \<Rightarrow> 32 word \<Rightarrow> 32 word" where
  "x86_32_round h1 k1 =
     (let h1 = h1 XOR x86_32_scramble k1;
          h1 = rotl32 h1 13
      in h1 * 5 + 0xe6546b64)"

definition MurmurHash3_x86_32 :: "bytes \<Rightarrow> nat \<Rightarrow> 32 word \<Rightarrow> 32 word option" where
  "MurmurHash3_x86_32 data len seed = do {
     let nblocks = len div 4;
     let blocks = int (nblocks * 4);
     h1 \<leftarrow> foldM (\<lambda>h1 i. do {
              k1 \<leftarrow> getblock32 data blocks i;
              Some (x86_32_round h1 k1)
            }) seed [- int nblocks..- 1];
     let tail = int (nblocks * 4);
     let r = len mod 4;
     k1 \<leftarrow> tail_mix data tail r [(2, 16), (1, 8), (0, 0)];
     let h1 = (if r \<ge> 1 then h1 XOR x86_32_scramble k1 else h1);
     let h1 = h1 XOR word_of_nat len;
     Some (fmix32 h1)
   }"

subsection \<open>The 128-bit hash for x86\<close>

text \<open>One lane: \<open>k *= a; k = ROTL32(k, r); k *= b; h ^= k\<close>.\<close>

definition lane32 :: "32 word \<Rightarrow> nat \<Rightarrow> 32 word \<Rightarrow> 32 word \<Rightarrow> 32 word \<Rightarrow> 32 word" where
  "lane32 a r b h k = h XOR (rotl32 (k * a) r * b)"

type_synonym quad = "32 word \<times> 32 word \<times> 32 word \<times> 32 word"

definition x86_128_round :: "quad \<Rightarrow> quad \<Rightarrow> quad" where
  "x86_128_round h k =
     (let (h1, h2, h3, h4) = h;
          (k1, k2, k3, k4) = k;
          c1 = 0x239b961b; c2 = 0xab0e9789; c3 = 0x38b34ae5; c4 = 0xa1e38b93;
          h1 = lane32 c1 15 c2 h1 k1;
          h1 = (rotl32 h1 19 + h2) * 5 + 0x561ccd1b;
          h2 = lane32 c2 16 c3 h2 k2;
          h2 = (rotl32 h2 17 + h3) * 5 + 0x0bcaa747;
          h3 = lane32 c3 17 c4 h3 k3;
          h3 = (rotl32 h3 15 + h4) * 5 + 0x96cd1c35;
          h4 = lane32 c4 18 c1 h4 k4;
          h4 = (rotl32 h4 13 + h1) * 5 + 0x32ac3b17
      in (h1, h2, h3, h4))"

definition x86_128_final :: "nat \<Rightarrow> quad \<Rightarrow> quad" where
  "x86_128_final len h =
     (let (h1, h2, h3, h4) = h;
          n = word_of_nat len;
          h1 = h1 XOR n; h2 = h2 XOR n; h3 = h3 XOR n; h4 = h4 XOR n;
          h1 = h1 + h2; h1 = h1 + h3; h1 = h1 + h4;
          h2 = h2 + h1; h3 = h3 + h1; h4 = h4 + h1;
          h1 = fmix32 h1; h2 = fmix32 h2; h3 = fmix32 h3; h4 = fmix32 h4;
          h1 = h1 + h2; h1 = h1 + h3; h1 = h1 + h4;
          h2 = h2 + h1; h3 = h3 + h1; h4 = h4 + h1
      in (h1, h2, h3, h4))"

text \<open>One turn of the loop over the blocks of 16 bytes.\<close>

definition x86_128_block :: "bytes \<Rightarrow> int \<Rightarrow> quad \<Rightarrow> int \<Rightarrow> quad option" where
  "x86_128_block data blocks h i = do {
     k1 \<leftarrow> getblock32 data blocks (i * 4 + 0);
     k2 \<leftarrow> getblock32 data blocks (i * 4 + 1);
     k3 \<leftarrow> getblock32 data blocks (i * 4 + 2);
     k4 \<leftarrow> getblock32 data blocks (i * 4 + 3);
     Some (x86_128_round h (k1, k2, k3, k4))
   }"

definition MurmurHash3_x86_128 :: "bytes \<Rightarrow> nat \<Rightarrow> 32 word \<Rightarrow> quad option" where
  "MurmurHash3_x86_128 data len seed = do {
     let nblocks = len div 16;
     let blocks = int (nblocks * 16);
     (h1, h2, h3, h4) \<leftarrow>
       foldM (x86_128_block data blocks) (seed, seed, seed, seed) [- int nblocks..- 1];
     let tail = int (nblocks * 16);
     let r = len mod 16;
     k4 \<leftarrow> tail_mix data tail r [(14, 16), (13, 8), (12, 0)];
     let h4 = (if r \<ge> 13 then lane32 0xa1e38b93 18 0x239b961b h4 k4 else h4);
     k3 \<leftarrow> tail_mix data tail r [(11, 24), (10, 16), (9, 8), (8, 0)];
     let h3 = (if r \<ge> 9 then lane32 0x38b34ae5 17 0xa1e38b93 h3 k3 else h3);
     k2 \<leftarrow> tail_mix data tail r [(7, 24), (6, 16), (5, 8), (4, 0)];
     let h2 = (if r \<ge> 5 then lane32 0xab0e9789 16 0x38b34ae5 h2 k2 else h2);
     k1 \<leftarrow> tail_mix data tail r [(3, 24), (2, 16), (1, 8), (0, 0)];
     let h1 = (if r \<ge> 1 then lane32 0x239b961b 15 0xab0e9789 h1 k1 else h1);
     Some (x86_128_final len (h1, h2, h3, h4))
   }"

subsection \<open>The 128-bit hash for x64\<close>

definition lane64 :: "64 word \<Rightarrow> nat \<Rightarrow> 64 word \<Rightarrow> 64 word \<Rightarrow> 64 word \<Rightarrow> 64 word" where
  "lane64 a r b h k = h XOR (rotl64 (k * a) r * b)"

type_synonym pair64 = "64 word \<times> 64 word"

definition x64_128_round :: "pair64 \<Rightarrow> pair64 \<Rightarrow> pair64" where
  "x64_128_round h k =
     (let (h1, h2) = h;
          (k1, k2) = k;
          c1 = 0x87c37b91114253d5; c2 = 0x4cf5ad432745937f;
          h1 = lane64 c1 31 c2 h1 k1;
          h1 = (rotl64 h1 27 + h2) * 5 + 0x52dce729;
          h2 = lane64 c2 33 c1 h2 k2;
          h2 = (rotl64 h2 31 + h1) * 5 + 0x38495ab5
      in (h1, h2))"

definition x64_128_final :: "nat \<Rightarrow> pair64 \<Rightarrow> pair64" where
  "x64_128_final len h =
     (let (h1, h2) = h;
          n = word_of_nat len;
          h1 = h1 XOR n; h2 = h2 XOR n;
          h1 = h1 + h2;
          h2 = h2 + h1;
          h1 = fmix64 h1;
          h2 = fmix64 h2;
          h1 = h1 + h2;
          h2 = h2 + h1
      in (h1, h2))"

definition x64_128_block :: "bytes \<Rightarrow> pair64 \<Rightarrow> int \<Rightarrow> pair64 option" where
  "x64_128_block data h i = do {
     k1 \<leftarrow> getblock64 data 0 (i * 2 + 0);
     k2 \<leftarrow> getblock64 data 0 (i * 2 + 1);
     Some (x64_128_round h (k1, k2))
   }"

definition MurmurHash3_x64_128 :: "bytes \<Rightarrow> nat \<Rightarrow> 32 word \<Rightarrow> pair64 option" where
  "MurmurHash3_x64_128 data len seed = do {
     let nblocks = len div 16;
     (h1, h2) \<leftarrow> foldM (x64_128_block data) (ucast seed, ucast seed) [0..int nblocks - 1];
     let tail = int (nblocks * 16);
     let r = len mod 16;
     k2 \<leftarrow> tail_mix data tail r [(14, 48), (13, 40), (12, 32), (11, 24), (10, 16), (9, 8), (8, 0)];
     let h2 = (if r \<ge> 9 then lane64 0x4cf5ad432745937f 33 0x87c37b91114253d5 h2 k2 else h2);
     k1 \<leftarrow> tail_mix data tail r
       [(7, 56), (6, 48), (5, 40), (4, 32), (3, 24), (2, 16), (1, 8), (0, 0)];
     let h1 = (if r \<ge> 1 then lane64 0x87c37b91114253d5 31 0x4cf5ad432745937f h1 k1 else h1);
     Some (x64_128_final len (h1, h2))
   }"

subsection \<open>Nothing is lost in the mixing\<close>

lemma xor_shift_inj:
  fixes x y :: "'w::len word"
  assumes "0 < s" "x XOR drop_bit s x = y XOR drop_bit s y"
  shows "x = y"
proof -
  define z where "z = x XOR y"
  have "drop_bit s z = z"
    using assms(2) unfolding z_def by (metis (no_types, lifting) drop_bit_xor xor.assoc xor.commute xor.left_commute xor_self_eq xor.right_neutral)
  then have "unat z div 2 ^ s = unat z"
    by (metis unat_drop_bit_eq drop_bit_eq_div)
  then have "unat z = 0"
    using assms(1) by (metis div_less_dividend gr0I less_irrefl one_less_numeral_iff one_less_power semiring_norm(76))
  then show ?thesis by (metis unat_eq_zero xor.assoc xor.right_neutral xor_self_eq xor.left_neutral z_def)
qed

lemma xor_cancel:
  fixes x y z :: "'w::len word"
  shows "x XOR z = y XOR z \<longleftrightarrow> x = y" "z XOR x = z XOR y \<longleftrightarrow> x = y"
  by (metis xor.assoc xor.right_neutral xor_self_eq, metis xor.assoc xor.left_neutral xor_self_eq)

lemma mult_unit_inj:
  fixes x y c d :: "'w::len word"
  assumes "x * c = y * c" "c * d = 1"
  shows "x = y"
  by (metis assms mult.assoc mult.right_neutral)

lemma rot_inj:
  fixes x y :: "'w::len word"
  assumes "0 < r" "r < LENGTH('w)"
    and "push_bit r x OR drop_bit (LENGTH('w) - r) x = push_bit r y OR drop_bit (LENGTH('w) - r) y"
  shows "x = y"
proof (rule bit_word_eqI)
  fix m
  assume m: "m < LENGTH('w)"
  have rot: "bit (push_bit r z OR drop_bit (LENGTH('w) - r) z) n =
      (if r \<le> n then bit z (n - r) else bit z (n + (LENGTH('w) - r)))" if "n < LENGTH('w)" for z :: "'w word" and n
    using that assms(1,2) by (auto simp: bit_simps add.commute dest: bit_imp_le_length)
  show "bit x m = bit y m"
  proof (cases "m + r < LENGTH('w)")
    case True
    then show ?thesis using rot [of "m + r" x] rot [of "m + r" y] assms(3) by simp
  next
    case False
    then have "m + r - LENGTH('w) < r" "m + r - LENGTH('w) + (LENGTH('w) - r) = m" using m assms(1,2) by auto
    with rot [of "m + r - LENGTH('w)" x] rot [of "m + r - LENGTH('w)" y] m assms show ?thesis by simp
  qed
qed

lemma rotl32_inj: "0 < r \<Longrightarrow> r < 32 \<Longrightarrow> rotl32 x r = rotl32 y r \<Longrightarrow> x = y"
  using rot_inj [of r x y] by (simp add: rotl32_def)

lemma rotl64_inj: "0 < r \<Longrightarrow> r < 64 \<Longrightarrow> rotl64 x r = rotl64 y r \<Longrightarrow> x = y"
  using rot_inj [of r x y] by (simp add: rotl64_def)

lemma fmix32_inj: "fmix32 x = fmix32 y \<Longrightarrow> x = y"
  unfolding fmix32_def Let_def
  by (drule xor_shift_inj [rotated], simp, drule mult_unit_inj [where d = "0x7ed1b41d"], simp,
      drule xor_shift_inj [rotated], simp, drule mult_unit_inj [where d = "0xa5cb9243"], simp,
      drule xor_shift_inj [rotated], simp_all)

lemma fmix64_inj: "fmix64 x = fmix64 y \<Longrightarrow> x = y"
  unfolding fmix64_def Let_def
  by (drule xor_shift_inj [rotated], simp, drule mult_unit_inj [where d = "0x9cb4b2f8129337db"], simp,
      drule xor_shift_inj [rotated], simp, drule mult_unit_inj [where d = "0x4f74430c22a54005"], simp,
      drule xor_shift_inj [rotated], simp_all)

lemma x86_32_scramble_inj: "x86_32_scramble x = x86_32_scramble y \<Longrightarrow> x = y"
  unfolding x86_32_scramble_def Let_def
  by (drule mult_unit_inj [where d = "0x56ed309b"], simp, drule rotl32_inj [rotated 2], simp, simp,
      drule mult_unit_inj [where d = "0xdee13bb1"], simp_all)

lemma x86_32_round_inj_state: "x86_32_round h k = x86_32_round h' k \<Longrightarrow> h = h'"
  unfolding x86_32_round_def Let_def
  by (drule add_right_imp_eq, drule mult_unit_inj [where d = "0xcccccccd"], simp,
      drule rotl32_inj [rotated 2], simp, simp, simp add: xor_cancel)

lemma x86_32_round_inj_block: "x86_32_round h k = x86_32_round h k' \<Longrightarrow> k = k'"
  unfolding x86_32_round_def Let_def
  by (drule add_right_imp_eq, drule mult_unit_inj [where d = "0xcccccccd"], simp,
      drule rotl32_inj [rotated 2], simp, simp, simp add: xor_cancel x86_32_scramble_inj)

subsection \<open>The hashes read the key and nothing else\<close>

text \<open>The four bytes of a block, from the lowest address up.\<close>

fun le_block :: "bytes \<Rightarrow> 32 word" where
  "le_block [b0, b1, b2, b3] =
     ucast b0 OR push_bit 8 (ucast b1) OR push_bit 16 (ucast b2) OR push_bit 24 (ucast b3)"
| "le_block _ = 0"

lemma getblock32_eq:
  assumes "base + 4 * i = int n" "n + 4 \<le> length data"
  shows "getblock32 data base i = Some (le_block (take 4 (drop n data)))"
proof -
  have "take 4 (drop n data) = [data ! n, data ! (n + 1), data ! (n + 2), data ! (n + 3)]"
    using assms(2) by (intro nth_equalityI) (auto simp: less_Suc_eq numeral_eq_Suc)
  moreover have "aget data (int n + int j) = Some (data ! (n + j))" if "j < 4" for j
    using that assms(2) by (simp add: c_simps flip: of_nat_add)
  from this [of 0] this [of 1] this [of 2] this [of 3] have
    "aget data (int n) = Some (data ! n)" "aget data (int n + 1) = Some (data ! (n + 1))"
    "aget data (int n + 2) = Some (data ! (n + 2))" "aget data (int n + 3) = Some (data ! (n + 3))" by simp_all
  ultimately show ?thesis by (simp add: getblock32_def assms(1))
qed

lemma tail_mix_cong:
  assumes "\<And>j. j < r \<Longrightarrow> aget data (tail + int j) = aget data' (tail + int j)"
  shows "tail_mix data tail r cells = tail_mix data' tail r cells"
  unfolding tail_mix_def by (rule foldM_cong [OF refl]) (auto simp: assms split: prod.splits)

lemma tail_mix_total:
  assumes "\<And>j. j < r \<Longrightarrow> aget data (tail + int j) \<noteq> None"
  shows "\<exists>k. tail_mix data tail r cells = Some k"
proof -
  have "\<exists>k. foldM (\<lambda>k (j, s). if j < r then do {
              b \<leftarrow> aget data (tail + int j);
              Some (k XOR push_bit s (ucast b))
            } else Some k) k0 cells = Some k" for k0
    using assms by (induction cells arbitrary: k0) fastforce+
  then show ?thesis by (simp add: tail_mix_def)
qed

text \<open>
  The hash of a byte string by recursion over its blocks. The mixing of a block and the
  finalisation are those of the source; the blocks and the tail are taken off the list.
\<close>

fun murmur32_blocks :: "32 word \<Rightarrow> bytes \<Rightarrow> 32 word \<times> bytes" where
  "murmur32_blocks h (b0 # b1 # b2 # b3 # bs) = murmur32_blocks (x86_32_round h (le_block [b0, b1, b2, b3])) bs"
| "murmur32_blocks h bs = (h, bs)"

fun murmur32_tail :: "32 word \<Rightarrow> bytes \<Rightarrow> 32 word" where
  "murmur32_tail h [] = h"
| "murmur32_tail h [b0] = h XOR x86_32_scramble (ucast b0)"
| "murmur32_tail h [b0, b1] = h XOR x86_32_scramble (push_bit 8 (ucast b1) XOR ucast b0)"
| "murmur32_tail h (b0 # b1 # b2 # _) =
     h XOR x86_32_scramble (push_bit 16 (ucast b2) XOR push_bit 8 (ucast b1) XOR ucast b0)"

definition murmur32 :: "bytes \<Rightarrow> 32 word \<Rightarrow> 32 word" where
  "murmur32 key seed =
     fmix32 (case_prod murmur32_tail (murmur32_blocks seed key) XOR word_of_nat (length key))"

lemma murmur32_blocks_split:
  "length key = 4 * n \<Longrightarrow> length rest < 4 \<Longrightarrow>
   murmur32_blocks h (key @ rest) =
     (foldl (\<lambda>h i. x86_32_round h (le_block (take 4 (drop (4 * i) key)))) h [0..<n], rest)"
proof (induction n arbitrary: h key)
  case 0
  then show ?case by (cases "(h, rest)" rule: murmur32_blocks.cases) auto
next
  case (Suc n)
  then obtain b0 b1 b2 b3 bs where key: "key = b0 # b1 # b2 # b3 # bs" "length bs = 4 * n"
    by (cases "(h, key)" rule: murmur32_blocks.cases) auto
  have "foldl (\<lambda>h i. x86_32_round h (le_block (take 4 (drop (4 * i) key)))) h' [Suc 0..<Suc n] =
      foldl (\<lambda>h i. x86_32_round h (le_block (take 4 (drop (4 * i) bs)))) h' [0..<n]" for h'
    unfolding map_Suc_upt [symmetric] foldl_map key(1) by (simp add: numeral_eq_Suc)
  then show ?case
    using Suc.IH [OF key(2) Suc.prems(2)] key(1) by (simp add: upt_conv_Cons del: upt_Suc)
qed

lemma murmur32_body:
  assumes "4 * n \<le> length data"
  shows "foldM (\<lambda>h i. do { k \<leftarrow> getblock32 data (int (n * 4)) i; Some (x86_32_round h k) }) seed [- int n..- 1] =
    Some (foldl (\<lambda>h i. x86_32_round h (le_block (take 4 (drop (4 * i) (take (4 * n) data))))) seed [0..<n])"
  unfolding neg_upto foldM_map
proof (rule foldM_Some)
  fix h i
  assume i: "i \<in> set [0..<n]"
  then have "take 4 (drop (4 * i) (take (4 * n) data)) = take 4 (drop (4 * i) data)"
    by (simp add: drop_take min_def)
  moreover have "getblock32 data (int (n * 4)) (int i - int n) = Some (le_block (take 4 (drop (4 * i) data)))"
    using i assms by (intro getblock32_eq) auto
  ultimately show "getblock32 data (int (n * 4)) (int i - int n) \<bind> (\<lambda>k. Some (x86_32_round h k)) =
    Some (x86_32_round h (le_block (take 4 (drop (4 * i) (take (4 * n) data)))))" by simp
qed

lemma murmur32_tail_eq:
  assumes "r < 4" "length rest = r" "\<And>j. j < r \<Longrightarrow> aget data (tail + int j) = Some (rest ! j)"
  shows "tail_mix data tail r [(2, 16), (1, 8), (0, 0)] \<bind>
    (\<lambda>k. Some (f (if r \<ge> 1 then h XOR x86_32_scramble k else h))) = Some (f (murmur32_tail h rest))"
  using assms(1,2) assms(3) [of 0] assms(3) [of 1] assms(3) [of 2]
  by (cases "(h, rest)" rule: murmur32_tail.cases) (auto simp: tail_mix_def xor.assoc)

lemma murmur32_eq:
  assumes "len \<le> length data"
  shows "MurmurHash3_x86_32 data len seed = Some (murmur32 (take len data) seed)"
proof -
  let ?n = "len div 4" and ?r = "len mod 4"
  let ?key = "take (4 * ?n) data" and ?rest = "take ?r (drop (4 * ?n) data)"
  have n: "4 * ?n + ?r = len" by simp
  have split: "take len data = ?key @ ?rest" by (metis n take_add)
  have lens: "length ?key = 4 * ?n" using assms n by simp
  have "length ?key + length ?rest = len" using assms split by (metis length_append length_take min.absorb2)
  then have lens2: "length ?rest = ?r" using lens n by linarith
  have bl: "murmur32_blocks seed (take len data) =
      (foldl (\<lambda>h i. x86_32_round h (le_block (take 4 (drop (4 * i) ?key)))) seed [0..<?n], ?rest)"
    unfolding split using lens lens2 by (intro murmur32_blocks_split) auto
  have "aget data (int (?n * 4) + int j) = Some (?rest ! j)" if "j < ?r" for j
  proof -
    have "4 * ?n + j < length data" using that assms n by linarith
    moreover have "int (?n * 4) + int j = int (4 * ?n + j)" by simp
    ultimately show ?thesis using that by (simp only: aget_int nth_take nth_drop) (simp add: ac_simps)
  qed
  note tail = murmur32_tail_eq [OF _ lens2 this, of "\<lambda>h. fmix32 (h XOR word_of_nat len)"]
  show ?thesis
    using assms tail murmur32_body [of ?n data seed]
    by (simp add: MurmurHash3_x86_32_def murmur32_def bl Let_def)
qed

lemma murmur32_blocks_inj:
  "snd (murmur32_blocks h key) = snd (murmur32_blocks h' key) \<and>
   (fst (murmur32_blocks h key) = fst (murmur32_blocks h' key) \<longrightarrow> h = h')"
  by (induction h key arbitrary: h' rule: murmur32_blocks.induct) (auto dest: x86_32_round_inj_state)

lemma murmur32_tail_xor: "\<exists>c. \<forall>h. murmur32_tail h rest = h XOR c"
proof (cases "(undefined :: 32 word, rest)" rule: murmur32_tail.cases)
  case (1 h)
  then show ?thesis by (intro exI [of _ 0]) simp
qed auto

lemma murmur32_inj_seed: "murmur32 key s = murmur32 key s' \<Longrightarrow> s = s'"
  using murmur32_blocks_inj [of s key s'] murmur32_tail_xor [of "snd (murmur32_blocks s key)"]
  by (auto simp: murmur32_def xor_cancel split_beta dest!: fmix32_inj)

lemma le_block_inj:
  assumes "le_block [a0, a1, a2, a3] = le_block [b0, b1, b2, b3]"
  shows "[a0, a1, a2, a3] = [b0, b1, b2, b3]"
proof -
  have cell: "bit (le_block [c0, c1, c2, c3]) n =
      (if n < 8 then bit c0 n else if n < 16 then bit c1 (n - 8) else if n < 24 then bit c2 (n - 16)
       else n < 32 \<and> bit c3 (n - 24))" for c0 c1 c2 c3 n
    by (auto simp: bit_simps dest: bit_imp_le_length)
  have b: "(if n < 8 then bit a0 n else if n < 16 then bit a1 (n - 8) else if n < 24 then bit a2 (n - 16)
       else n < 32 \<and> bit a3 (n - 24)) =
      (if n < 8 then bit b0 n else if n < 16 then bit b1 (n - 8) else if n < 24 then bit b2 (n - 16)
       else n < 32 \<and> bit b3 (n - 24))" for n
    unfolding cell [symmetric] assms ..
  have "bit a0 n = bit b0 n \<and> bit a1 n = bit b1 n \<and> bit a2 n = bit b2 n \<and> bit a3 n = bit b3 n" if "n < 8" for n
    using that b [of n] b [of "n + 8"] b [of "n + 16"] b [of "n + 24"] by simp
  then show ?thesis by (auto intro!: bit_word_eqI)
qed

text \<open>Keys of one block are hashed without collisions.\<close>

lemma murmur32_inj_block:
  assumes "length key = 4" "length key' = 4" "murmur32 key s = murmur32 key' s"
  shows "key = key'"
proof -
  obtain a0 a1 a2 a3 b0 b1 b2 b3 where k: "key = [a0, a1, a2, a3]" "key' = [b0, b1, b2, b3]"
    using assms(1,2) by (auto simp: length_Suc_conv numeral_eq_Suc)
  then have "le_block key = le_block key'"
    using assms(3) by (auto simp: murmur32_def xor_cancel dest!: fmix32_inj x86_32_round_inj_block)
  then show ?thesis using k le_block_inj by blast
qed

text \<open>The same for the 128-bit hashes: they return, and read only the first \<open>len\<close> bytes.\<close>

lemma getblock32_take:
  assumes "len \<le> length data" "0 \<le> base + 4 * i" "base + 4 * i + 4 \<le> int len"
  shows "getblock32 (take len data) base i = getblock32 data base i"
    and "\<exists>k. getblock32 data base i = Some k"
  using getblock32_eq [of base i "nat (base + 4 * i)"] assms
  by (auto simp: getblock32_def aget_take)

lemma tail_mix_take:
  assumes "len \<le> length data" "0 \<le> tail" "tail + int r \<le> int len"
  shows "tail_mix (take len data) tail r cells = tail_mix data tail r cells"
    and "\<exists>k. tail_mix data tail r cells = Some k"
  using assms by (intro tail_mix_cong aget_take tail_mix_total; auto simp: aget_def)+

lemma x86_128_block_take:
  assumes "16 * n \<le> len" "len \<le> length data" "i \<in> set [- int n..- 1]"
  shows "x86_128_block (take len data) (int (n * 16)) h i = x86_128_block data (int (n * 16)) h i"
    and "\<exists>h'. x86_128_block data (int (n * 16)) h i = Some h'"
proof -
  have "0 \<le> int (n * 16) + 4 * (i * 4 + j) \<and> int (n * 16) + 4 * (i * 4 + j) + 4 \<le> int len"
    if "0 \<le> j" "j < 4" for j using that assms by simp
  note b = getblock32_take [OF assms(2) conjunct1 [OF this] conjunct2 [OF this]]
  show "x86_128_block (take len data) (int (n * 16)) h i = x86_128_block data (int (n * 16)) h i"
    using b(1) [of 0] b(1) [of 1] b(1) [of 2] b(1) [of 3] by (simp add: x86_128_block_def)
  show "\<exists>h'. x86_128_block data (int (n * 16)) h i = Some h'"
    using b(2) [of 0] b(2) [of 1] b(2) [of 2] b(2) [of 3] by (auto simp: x86_128_block_def simp del: split_paired_Ex)
qed

lemma x86_128_reads_key:
  assumes "len \<le> length data"
  shows "MurmurHash3_x86_128 (take len data) len seed = MurmurHash3_x86_128 data len seed"
    and "\<exists>h. MurmurHash3_x86_128 data len seed = Some h"
proof -
  let ?n = "len div 16" and ?r = "len mod 16"
  have n: "16 * ?n + ?r = len" by simp
  then have nl: "16 * ?n \<le> len" by linarith
  note b = x86_128_block_take [OF nl assms]
  have t: "0 \<le> int (?n * 16)" "int (?n * 16) + int ?r \<le> int len" using n by linarith+
  note tm = tail_mix_take [OF assms t]
  show "MurmurHash3_x86_128 (take len data) len seed = MurmurHash3_x86_128 data len seed"
    by (simp only: MurmurHash3_x86_128_def Let_def tm(1) foldM_cong [OF refl b(1)])
  show "\<exists>h. MurmurHash3_x86_128 data len seed = Some h"
    unfolding MurmurHash3_x86_128_def Let_def
    by (intro bind_total tm(2) foldM_total [OF b(2)]; auto intro!: bind_total simp: tm(2) [simplified] simp del: split_paired_Ex)
qed

lemma x64_128_block_take:
  assumes "16 * n \<le> len" "len \<le> length data" "i \<in> set [0..int n - 1]"
  shows "x64_128_block (take len data) h i = x64_128_block data h i"
    and "\<exists>h'. x64_128_block data h i = Some h'"
proof -
  have "0 \<le> 0 + 4 * (2 * (i * 2) + j) \<and> 0 + 4 * (2 * (i * 2) + j) + 4 \<le> int len"
    if "0 \<le> j" "j < 4" for j using that assms by simp
  note b = getblock32_take [OF assms(2) conjunct1 [OF this] conjunct2 [OF this]]
  note b0 = b [of 0, simplified] and b1 = b [of 1, simplified] and b2 = b [of 2, simplified] and b3 = b [of 3, simplified]
  have e: "2 * (i * 2 + 1) = 2 * (i * 2) + 2" "2 * (i * 2) + 2 + 1 = 2 * (i * 2) + (3::int)" by simp_all
  show "x64_128_block (take len data) h i = x64_128_block data h i"
    unfolding x64_128_block_def getblock64_def e add_0_right using b0(1) b1(1) b2(1) b3(1) by simp
  show "\<exists>h'. x64_128_block data h i = Some h'"
    unfolding x64_128_block_def getblock64_def e add_0_right using b0(2) b1(2) b2(2) b3(2) by (auto simp del: split_paired_Ex)
qed

lemma x64_128_reads_key:
  assumes "len \<le> length data"
  shows "MurmurHash3_x64_128 (take len data) len seed = MurmurHash3_x64_128 data len seed"
    and "\<exists>h. MurmurHash3_x64_128 data len seed = Some h"
proof -
  let ?n = "len div 16" and ?r = "len mod 16"
  have n: "16 * ?n + ?r = len" by simp
  then have nl: "16 * ?n \<le> len" by linarith
  note b = x64_128_block_take [OF nl assms]
  have t: "0 \<le> int (?n * 16)" "int (?n * 16) + int ?r \<le> int len" using n by linarith+
  note tm = tail_mix_take [OF assms t]
  show "MurmurHash3_x64_128 (take len data) len seed = MurmurHash3_x64_128 data len seed"
    by (simp only: MurmurHash3_x64_128_def Let_def tm(1) foldM_cong [OF refl b(1)])
  show "\<exists>h. MurmurHash3_x64_128 data len seed = Some h"
    unfolding MurmurHash3_x64_128_def Let_def
    by (intro bind_total tm(2) foldM_total [OF b(2)]; auto intro!: bind_total simp: tm(2) [simplified] simp del: split_paired_Ex)
qed

text \<open>The finalizer of the 64-bit variant is a bijection of the two lanes.\<close>

lemma add_mix_inj:
  fixes a b c d :: "'w::len word"
  assumes "a + b = c + d" "b + (a + b) = d + (c + d)"
  shows "a = c" "b = d"
  using assms by (metis add_right_cancel)+

lemma x64_128_final_inj:
  assumes "x64_128_final n (a, b) = x64_128_final n (c, d)"
  shows "a = c \<and> b = d"
proof -
  let ?n = "word_of_nat n :: 64 word"
  let ?h = "\<lambda>a b. (a XOR ?n) + (b XOR ?n)"
  note eq = assms [unfolded x64_128_final_def Let_def prod.case prod.inject]
  have "?h a b = ?h c d" "(b XOR ?n) + ?h a b = (d XOR ?n) + ?h c d"
    using add_mix_inj [OF conjunct1 [OF eq] conjunct2 [OF eq]] by (auto dest: fmix64_inj)
  from add_mix_inj [OF this] show ?thesis by (simp add: xor_cancel)
qed

subsection \<open>Properties\<close>

text \<open>
  C13: \<open>MurmurHash3_x86_32\<close>, which reads blocks backwards from the end of the last one and
  falls through a switch for the tail, is the hash \<open>murmur32\<close> defined by recursion over the
  blocks of the key. In particular it reads no byte outside the key.
\<close>

theorem murmur_x86_32_reference:
  assumes "len \<le> length data"
  shows "MurmurHash3_x86_32 data len seed = Some (murmur32 (take len data) seed)"
  using assms by (rule murmur32_eq)

theorem murmur_x86_32_reference_witness:
  "MurmurHash3_x86_32 [1, 2, 3, 4, 5, 6] 5 7 = Some (murmur32 [1, 2, 3, 4, 5] 7)"
  using murmur_x86_32_reference [of 5 "[1, 2, 3, 4, 5, 6]" 7] by simp

text \<open>
  C27: the 128-bit hashes return for every key and read no byte behind it: what follows the
  key in memory does not change the hash.
\<close>

theorem murmur_128_reads_key:
  assumes "length key = len"
  shows "(\<exists>h. MurmurHash3_x86_128 (key @ rest) len seed = Some h \<and> MurmurHash3_x86_128 key len seed = Some h) \<and>
    (\<exists>h. MurmurHash3_x64_128 (key @ rest) len seed = Some h \<and> MurmurHash3_x64_128 key len seed = Some h)"
  using x86_128_reads_key [of len "key @ rest" seed] x64_128_reads_key [of len "key @ rest" seed] assms by auto

theorem murmur_128_reads_key_witness:
  "(\<exists>h. MurmurHash3_x86_128 ([1, 2, 3] @ [9]) 3 5 = Some h \<and> MurmurHash3_x86_128 [1, 2, 3] 3 5 = Some h) \<and>
   (\<exists>h. MurmurHash3_x64_128 ([1, 2, 3] @ [9]) 3 5 = Some h \<and> MurmurHash3_x64_128 [1, 2, 3] 3 5 = Some h)"
  using murmur_128_reads_key [of "[1, 2, 3]" 3 "[9]" 5] by simp

text \<open>
  C28: the 32-bit hash loses nothing of a key of four bytes, and nothing of the seed: equal
  hashes mean equal keys under one seed, and equal seeds for one key.
\<close>

theorem murmur_x86_32_injective:
  assumes "length key = 4" "length key' = 4" "length data = len"
  shows "(MurmurHash3_x86_32 key 4 seed = MurmurHash3_x86_32 key' 4 seed \<longleftrightarrow> key = key') \<and>
    (MurmurHash3_x86_32 data len seed = MurmurHash3_x86_32 data len seed' \<longleftrightarrow> seed = seed')"
  using assms murmur32_inj_block [OF assms(1,2), of seed] murmur32_inj_seed [of data seed seed']
  by (auto simp: murmur32_eq)

theorem murmur_x86_32_injective_witness:
  "(MurmurHash3_x86_32 [1, 2, 3, 4] 4 7 = MurmurHash3_x86_32 [1, 2, 3, 5] 4 7 \<longleftrightarrow> False) \<and>
   (MurmurHash3_x86_32 [1, 2] 2 7 = MurmurHash3_x86_32 [1, 2] 2 8 \<longleftrightarrow> False)"
  using murmur_x86_32_injective [of "[1, 2, 3, 4]" "[1, 2, 3, 5]" "[1, 2]" 2 7 8] by simp

end
