(* ===== verification/Bloom.thy ===== *)
theory Bloom
  imports Murmur
begin

section \<open>The Bloom filter on a memory-mapped file\<close>

text \<open>
  \<open>class BloomFilter\<close> of \<open>filter_exps/bf.hpp\<close>. The mapped file is a list of bytes: the
  metadata (number of seeds, seeds, number of bits), then the bits. An access outside the
  file, also one that the last page of the mapping would still cover, and a division by
  zero are \<^term>\<open>None\<close>. The array of zeros on the stack has no limit here. Two parts of the standard library are
  parameters of the constructor: \<open>ln2\<close> is the floating-point \<open>round(M_LN2 * nmod / nkeys)\<close>
  and \<open>gen\<close> the outputs of \<open>std::mt19937\<close>; the calls \<open>open\<close> and \<open>mmap\<close> succeed.
\<close>

unbundle bit_operations_syntax

subsection \<open>Bit positions\<close>

definition mod8 :: "32 word \<Rightarrow> 32 word" where
  "mod8 a = a AND 7"

definition div8 :: "32 word \<Rightarrow> 32 word" where
  "div8 a = drop_bit 3 a"

subsection \<open>The filter object\<close>

record bloom =
  bf_data :: bytes
  nmod :: "64 word"
  seeds :: "32 word list"
  mdlen :: nat
  flen :: nat

datatype bloom_error = Invalid_Argument

definition BloomFilter ::
  "(64 word \<Rightarrow> 64 word \<Rightarrow> 32 word) \<Rightarrow> (nat \<Rightarrow> 32 word) \<Rightarrow> 64 word \<Rightarrow> 64 word \<Rightarrow> bloom_error + bloom" where
  "BloomFilter ln2 gen nbits nkeys =
     (let n = min 0xffffffff ((nbits + 7) div 8 * 8) in
      if nbits = 0 \<or> nkeys = 0 then Inl Invalid_Argument
      else
        let nhf = ln2 n nkeys;
            nhf = (if nhf = 0 then 1 else nhf);
            ss = map gen [0..<unat nhf];
            metadata = le_bytes 4 (word_of_nat (length ss) :: 32 word) @ concat (map (le_bytes 4) ss) @
              le_bytes 8 n;
            zero = replicate (unat (div8 (ucast n))) 0
        in Inr \<lparr>bf_data = metadata @ zero, nmod = n, seeds = ss,
             mdlen = length metadata, flen = length (metadata @ zero)\<rparr>)"

definition bf_get :: "bloom \<Rightarrow> 64 word \<Rightarrow> bool option" where
  "bf_get bf i = do {
     b \<leftarrow> aget (bf_data bf) (int (unat (div8 (ucast i)) + mdlen bf));
     Some (drop_bit (unat (7 - mod8 (ucast i))) b AND 1 = 1)
   }"

definition bf_set :: "bloom \<Rightarrow> 64 word \<Rightarrow> bool \<Rightarrow> bloom option" where
  "bf_set bf i v = do {
     g \<leftarrow> bf_get bf i;
     if g \<noteq> v then do {
       b \<leftarrow> aget (bf_data bf) (int (unat (div8 (ucast i)) + mdlen bf));
       d \<leftarrow> aset (bf_data bf) (int (unat (div8 (ucast i)) + mdlen bf))
              (b XOR push_bit (unat (7 - mod8 (ucast i))) 1);
       Some (bf\<lparr>bf_data := d\<rparr>)
     } else Some bf
   }"

definition bf_hash :: "bloom \<Rightarrow> 64 word \<Rightarrow> 32 word \<Rightarrow> 64 word option" where
  "bf_hash bf k seed = do {
     h \<leftarrow> MurmurHash3_x86_32 (le_bytes 8 k) 8 seed;
     if nmod bf = 0 then None else Some (ucast h mod nmod bf)
   }"

primrec query_loop :: "bloom \<Rightarrow> 64 word \<Rightarrow> bool \<Rightarrow> 32 word list \<Rightarrow> bool option" where
  "query_loop bf key out [] = Some out"
| "query_loop bf key out (s # ss) =
     (if out then do {
        h \<leftarrow> bf_hash bf key s;
        g \<leftarrow> bf_get bf h;
        query_loop bf key (out \<and> g) ss
      } else Some out)"

definition bf_query :: "bloom \<Rightarrow> 64 word \<Rightarrow> bool option" where
  "bf_query bf key = query_loop bf key True (seeds bf)"

definition bf_insert :: "bloom \<Rightarrow> 64 word \<Rightarrow> bloom option" where
  "bf_insert bf key = foldM (\<lambda>bf s. do {
       h \<leftarrow> bf_hash bf key s;
       bf_set bf h True
     }) bf (seeds bf)"

subsection \<open>Bits as a store\<close>

text \<open>
  What the filter needs of its bits: reading is defined at every valid position, setting
  one position changes no other and keeps what is valid.
\<close>

locale bit_store =
  fixes valid :: "'s \<Rightarrow> 'i \<Rightarrow> bool"
    and read :: "'s \<Rightarrow> 'i \<Rightarrow> bool option"
    and mark :: "'s \<Rightarrow> 'i \<Rightarrow> 's option"
  assumes read_valid: "valid s i \<Longrightarrow> \<exists>b. read s i = Some b"
    and mark_law: "valid s i \<Longrightarrow> \<exists>s'. mark s i = Some s' \<and> (\<forall>j. valid s' j = valid s j) \<and>
      (\<forall>j. valid s j \<longrightarrow> read s' j = (if j = i then Some True else read s j))"
begin

lemma mark_all:
  assumes "\<forall>i\<in>set is. valid s i"
  shows "\<exists>s'. foldM mark s is = Some s' \<and> (\<forall>j. valid s' j = valid s j) \<and>
    (\<forall>j. valid s j \<longrightarrow> read s' j = (if j \<in> set is then Some True else read s j))"
  using assms
proof (induction "is" arbitrary: s)
  case (Cons i "is")
  then obtain s1 where s1: "mark s i = Some s1" "\<forall>j. valid s1 j = valid s j"
    "\<forall>j. valid s j \<longrightarrow> read s1 j = (if j = i then Some True else read s j)"
    using mark_law [of s i] by auto
  obtain s' where "foldM mark s1 is = Some s'" "\<forall>j. valid s' j = valid s1 j"
    "\<forall>j. valid s1 j \<longrightarrow> read s' j = (if j \<in> set is then Some True else read s1 j)"
    using Cons s1(2) by (metis list.set_intros(2))
  with s1 show ?case by auto
qed simp

lemma marked_exactly:
  assumes "\<forall>i\<in>set is. valid s i" "\<forall>j. valid s j \<longrightarrow> read s j = Some False"
  shows "\<exists>s'. foldM mark s is = Some s' \<and> (\<forall>j. valid s' j = valid s j) \<and>
    (\<forall>j. valid s j \<longrightarrow> read s' j = Some (j \<in> set is))"
  using mark_all [OF assms(1)] assms(2) by auto

end

subsection \<open>Bits of the file\<close>

definition bf_valid :: "bloom \<Rightarrow> 64 word \<Rightarrow> bool" where
  "bf_valid bf i \<longleftrightarrow> unat i < 2 ^ 32 \<and> mdlen bf + unat i div 8 < length (bf_data bf)"

lemma unat_ucast_32: "unat i < 2 ^ 32 \<Longrightarrow> unat (ucast (i :: 64 word) :: 32 word) = unat i"
  by (simp add: unsigned_ucast_eq take_bit_nat_eq_self)

lemma unat_div8: "unat (div8 a) = unat a div 8"
  by (simp only: div8_def unat_drop_bit_eq) (simp add: drop_bit_eq_div)

lemma unat_mod8: "unat (mod8 a) = unat a mod 8"
proof -
  have "mod8 a = take_bit 3 a" by (simp add: mod8_def take_bit_eq_mask mask_eq_exp_minus_1)
  then show ?thesis by (simp only: unsigned_take_bit_eq) (simp add: take_bit_eq_mod)
qed

lemma unat_7_mod8: "unat (7 - mod8 a) = 7 - unat a mod 8"
proof -
  have "mod8 a \<le> 7" by (simp add: word_le_nat_alt unat_mod8)
  then show ?thesis by (simp add: unat_sub unat_mod8)
qed

lemma bf_get_eq:
  assumes "bf_valid bf i"
  shows "bf_get bf i = Some (bit (bf_data bf ! (mdlen bf + unat i div 8)) (7 - unat i mod 8))"
  using assms
  by (simp add: bf_get_def bf_valid_def unat_div8 unat_7_mod8 unat_ucast_32 aget_int add.commute
      bit_iff_and_drop_bit_eq_1 del: of_nat_add)

definition bf_mark :: "bloom \<Rightarrow> 64 word \<Rightarrow> bloom option" where
  "bf_mark bf i = bf_set bf i True"

lemma bf_mark_eq:
  assumes "bf_valid bf i"
  shows "bf_mark bf i = Some (bf\<lparr>bf_data := (bf_data bf)[mdlen bf + unat i div 8 :=
    set_bit (7 - unat i mod 8) (bf_data bf ! (mdlen bf + unat i div 8))]\<rparr>)"
proof -
  let ?p = "mdlen bf + unat i div 8" and ?q = "7 - unat i mod 8"
  have "bf_data bf ! ?p XOR push_bit ?q 1 = set_bit ?q (bf_data bf ! ?p)" if "\<not> bit (bf_data bf ! ?p) ?q"
    by (rule bit_word_eqI) (use that in \<open>auto simp: bit_simps\<close>)
  moreover have "set_bit ?q (bf_data bf ! ?p) = bf_data bf ! ?p" if "bit (bf_data bf ! ?p) ?q"
    by (rule bit_word_eqI) (use that in \<open>auto simp: bit_simps\<close>)
  ultimately show ?thesis
    using assms bf_get_eq [OF assms]
    by (auto simp: bf_mark_def bf_set_def bf_valid_def unat_div8 unat_7_mod8 unat_ucast_32 aget_int aset_int
        add.commute simp del: of_nat_add)
qed

lemma same_bit:
  fixes i j :: nat
  assumes "i div 8 = j div 8" "7 - i mod 8 = 7 - j mod 8"
  shows "i = j"
proof -
  have "i mod 8 < 8" "j mod 8 < 8" by simp_all
  with assms(2) have "i mod 8 = j mod 8" by linarith
  with assms(1) show ?thesis by (metis div_mult_mod_eq)
qed

interpretation bits: bit_store bf_valid bf_get bf_mark
proof unfold_locales
  fix bf i
  assume v: "bf_valid bf i"
  show "\<exists>b. bf_get bf i = Some b" using bf_get_eq [OF v] by blast
  let ?d = "(bf_data bf)[mdlen bf + unat i div 8 :=
    set_bit (7 - unat i mod 8) (bf_data bf ! (mdlen bf + unat i div 8))]"
  have val: "bf_valid (bf\<lparr>bf_data := ?d\<rparr>) j = bf_valid bf j" for j by (simp add: bf_valid_def)
  moreover have "bf_get (bf\<lparr>bf_data := ?d\<rparr>) j = (if j = i then Some True else bf_get bf j)" if "bf_valid bf j" for j
  proof -
    let ?b = "bf_data bf ! (mdlen bf + unat i div 8)"
    have g: "bf_get (bf\<lparr>bf_data := ?d\<rparr>) j = Some (bit (?d ! (mdlen bf + unat j div 8)) (7 - unat j mod 8))"
      using bf_get_eq [OF val [THEN iffD2, OF that]] by simp
    have len: "mdlen bf + unat i div 8 < length (bf_data bf)" "7 - unat i mod 8 < 8"
      using v by (simp_all add: bf_valid_def less_Suc_eq_le)
    consider "j = i" | "j \<noteq> i" "unat j div 8 = unat i div 8" | "j \<noteq> i" "unat j div 8 \<noteq> unat i div 8" by blast
    then show ?thesis
    proof cases
      case 2
      then have "7 - unat i mod 8 \<noteq> 7 - unat j mod 8"
        using same_bit [of "unat j" "unat i"] by (metis word_unat_eq_iff)
      with 2 len g bf_get_eq [OF that] show ?thesis by (simp add: bit_set_bit_iff)
    qed (use len g bf_get_eq [OF that] in \<open>simp_all add: bit_set_bit_iff\<close>)
  qed
  ultimately show "\<exists>s'. bf_mark bf i = Some s' \<and> (\<forall>j. bf_valid s' j = bf_valid bf j) \<and>
      (\<forall>j. bf_valid bf j \<longrightarrow> bf_get s' j = (if j = i then Some True else bf_get bf j))"
    using bf_mark_eq [OF v] by auto
qed

subsection \<open>Inserting and querying keys\<close>

definition bf_pos :: "64 word \<Rightarrow> 64 word \<Rightarrow> 32 word \<Rightarrow> 64 word" where
  "bf_pos n key s = ucast (murmur32 (le_bytes 8 key) s) mod n"

text \<open>A filter whose number of bits is a multiple of 8 that its file can hold.\<close>

definition bf_wf :: "bloom \<Rightarrow> bool" where
  "bf_wf bf \<longleftrightarrow> 0 < unat (nmod bf) \<and> unat (nmod bf) < 2 ^ 32 \<and> 8 dvd unat (nmod bf) \<and>
     length (bf_data bf) = mdlen bf + unat (nmod bf) div 8"

lemma bf_hash_eq: "0 < unat (nmod bf) \<Longrightarrow> bf_hash bf k s = Some (bf_pos (nmod bf) k s)"
  using murmur32_eq [of 8 "le_bytes 8 k" s]
  by (auto simp: bf_hash_def bf_pos_def)

lemma bf_pos_valid:
  assumes "bf_wf bf"
  shows "bf_valid bf (bf_pos (nmod bf) k s)"
proof -
  have "unat (bf_pos (nmod bf) k s) < unat (nmod bf)"
    using assms by (simp add: bf_pos_def bf_wf_def unat_mod_distrib)
  then show ?thesis
    using assms by (auto simp: bf_valid_def bf_wf_def intro: less_mult_imp_div_less)
qed

lemma bf_mark_fields:
  assumes "bf_mark bf i = Some bf'"
  shows "nmod bf' = nmod bf" "seeds bf' = seeds bf" "mdlen bf' = mdlen bf"
    "length (bf_data bf') = length (bf_data bf)"
    "take (mdlen bf) (bf_data bf') = take (mdlen bf) (bf_data bf)"
  using assms by (auto simp: bf_mark_def bf_set_def aset_def aget_def Option.bind_eq_Some_conv le_nat_iff
      split: if_splits intro!: take_update_cancel)

lemma bf_marks_fields:
  assumes "foldM bf_mark bf is = Some bf'"
  shows "nmod bf' = nmod bf \<and> seeds bf' = seeds bf \<and> mdlen bf' = mdlen bf \<and>
    length (bf_data bf') = length (bf_data bf) \<and>
    take (mdlen bf) (bf_data bf') = take (mdlen bf) (bf_data bf)"
  using assms
proof (induction "is" arbitrary: bf)
  case (Cons i "is")
  then obtain b where b: "bf_mark bf i = Some b" "foldM bf_mark b is = Some bf'"
    by (auto simp: Option.bind_eq_Some_conv)
  show ?case using Cons.IH [OF b(2)] bf_mark_fields [OF b(1)] by simp
qed simp

lemma bf_marks_wf: "bf_wf bf \<Longrightarrow> foldM bf_mark bf is = Some bf' \<Longrightarrow> bf_wf bf'"
  using bf_marks_fields [of bf "is" bf'] by (simp add: bf_wf_def)

lemma insert_loop:
  assumes "0 < unat n" "nmod bf = n"
  shows "foldM (\<lambda>bf s. do { h \<leftarrow> bf_hash bf key s; bf_set bf h True }) bf ss =
    foldM bf_mark bf (map (bf_pos n key) ss)"
  using assms(2)
proof (induction ss arbitrary: bf)
  case (Cons s ss)
  then have "bf_hash bf key s = Some (bf_pos n key s)" using assms(1) by (simp add: bf_hash_eq)
  then show ?case
    using Cons.IH bf_mark_fields(1) Cons.prems
    by (cases "bf_mark bf (bf_pos n key s)") (auto simp: bf_mark_def)
qed simp

lemma bf_insert_marks:
  "bf_wf bf \<Longrightarrow> bf_insert bf key = foldM bf_mark bf (map (bf_pos (nmod bf) key) (seeds bf))"
  by (simp add: bf_insert_def insert_loop bf_wf_def)

lemma bf_insert_all:
  assumes "bf_wf bf"
  shows "foldM bf_insert bf ks =
    foldM bf_mark bf (concat (map (\<lambda>k. map (bf_pos (nmod bf) k) (seeds bf)) ks))"
  using assms
proof (induction ks arbitrary: bf)
  case (Cons k ks)
  show ?case
  proof (cases "bf_insert bf k")
    case None
    then show ?thesis using bf_insert_marks [OF Cons.prems, of k] by (simp add: foldM_append)
  next
    case (Some b)
    then have m: "foldM bf_mark bf (map (bf_pos (nmod bf) k) (seeds bf)) = Some b"
      using bf_insert_marks [OF Cons.prems, of k] by simp
    with Cons.IH [OF bf_marks_wf [OF Cons.prems m]] bf_marks_fields [OF m] Some
    show ?thesis by (simp add: foldM_append)
  qed
qed simp

lemma query_loop_eq:
  assumes "bf_wf bf"
  shows "query_loop bf key out ss = Some (out \<and> (\<forall>s\<in>set ss. bf_get bf (bf_pos (nmod bf) key s) = Some True))"
proof (induction ss arbitrary: out)
  case (Cons s ss)
  obtain b where b: "bf_get bf (bf_pos (nmod bf) key s) = Some b"
    using bits.read_valid [OF bf_pos_valid [OF assms]] by blast
  have "bf_hash bf key s = Some (bf_pos (nmod bf) key s)"
    using assms by (intro bf_hash_eq) (simp add: bf_wf_def)
  then show ?case using Cons b by auto
qed simp

text \<open>
  A new filter has all its bits clear; after keys were inserted a query answers yes for
  exactly the keys all of whose bits were set by some inserted key.
\<close>

lemma query_after_inserts:
  assumes wf: "bf_wf bf" and clear: "\<forall>j. bf_valid bf j \<longrightarrow> bf_get bf j = Some False"
  shows "\<exists>bf'. foldM bf_insert bf ks = Some bf' \<and> bf_wf bf' \<and>
    take (mdlen bf) (bf_data bf') = take (mdlen bf) (bf_data bf) \<and>
    (\<forall>key. bf_query bf' key = Some (\<forall>s\<in>set (seeds bf). \<exists>k\<in>set ks. \<exists>s'\<in>set (seeds bf).
       bf_pos (nmod bf) key s = bf_pos (nmod bf) k s'))"
proof -
  let ?is = "concat (map (\<lambda>k. map (bf_pos (nmod bf) k) (seeds bf)) ks)"
  have "\<forall>i\<in>set ?is. bf_valid bf i" using bf_pos_valid [OF wf] by auto
  from bits.marked_exactly [OF this clear] obtain bf' where
    m: "foldM bf_mark bf ?is = Some bf'" and r: "\<forall>j. bf_valid bf j \<longrightarrow> bf_get bf' j = Some (j \<in> set ?is)" by blast
  note f = bf_marks_fields [OF m] and w = bf_marks_wf [OF wf m]
  have "bf_query bf' key = Some (\<forall>s\<in>set (seeds bf). bf_pos (nmod bf) key s \<in> set ?is)" for key
    unfolding bf_query_def query_loop_eq [OF w] using f r bf_pos_valid [OF wf] by auto
  then have "\<forall>key. bf_query bf' key = Some (\<forall>s\<in>set (seeds bf). \<exists>k\<in>set ks. \<exists>s'\<in>set (seeds bf).
       bf_pos (nmod bf) key s = bf_pos (nmod bf) k s')" by (auto simp: image_iff)
  with m f w bf_insert_all [OF wf, of ks] show ?thesis by auto
qed

lemma unat_round8:
  fixes nbits :: "64 word"
  assumes "unat nbits \<le> 2 ^ 32 - 8"
  shows "unat (min 0xffffffff ((nbits + 7) div 8 * 8)) = (unat nbits + 7) div 8 * 8"
proof -
  have s: "unat (nbits + 7) = unat nbits + 7"
    using assms by (subst unat_add_lem [THEN iffD1]) auto
  have "(unat nbits + 7) div 8 * 8 \<le> unat nbits + 7" by simp
  then have "(unat nbits + 7) div 8 * 8 \<le> 2 ^ 32 - 1" using assms by simp
  moreover from this have d: "unat ((nbits + 7) div 8 * 8) = (unat nbits + 7) div 8 * 8"
    by (subst unat_mult_lem [THEN iffD1]) (simp_all add: unat_div_distrib s)
  ultimately have "(nbits + 7) div 8 * 8 \<le> 0xffffffff" by (simp add: word_le_nat_alt)
  then show ?thesis by (simp add: min_def d)
qed

lemma new_filter_shape:
  assumes "BloomFilter ln2 gen nbits nkeys = Inr bf"
  obtains md ss where "ss \<noteq> []" "bf = \<lparr>bf_data = md @ replicate (unat (div8 (ucast (nmod bf)))) 0,
    nmod = min 0xffffffff ((nbits + 7) div 8 * 8), seeds = ss, mdlen = length md, flen = length (bf_data bf)\<rparr>"
    "nbits \<noteq> 0"
  using assms by (fastforce simp: BloomFilter_def Let_def unat_gt_0 split: if_splits)

lemma new_filter:
  assumes "BloomFilter ln2 gen nbits nkeys = Inr bf" "unat nbits \<le> 2 ^ 32 - 8"
  shows "bf_wf bf" "\<forall>j. bf_valid bf j \<longrightarrow> bf_get bf j = Some False" "seeds bf \<noteq> []"
    "unat nbits \<le> unat (nmod bf)" "unat (nmod bf) < unat nbits + 8"
proof -
  obtain md ss where bf: "ss \<noteq> []" "bf = \<lparr>bf_data = md @ replicate (unat (div8 (ucast (nmod bf)))) 0,
    nmod = min 0xffffffff ((nbits + 7) div 8 * 8), seeds = ss, mdlen = length md, flen = length (bf_data bf)\<rparr>"
    "nbits \<noteq> 0"
    using new_filter_shape [OF assms(1)] .
  then have n: "nmod bf = min 0xffffffff ((nbits + 7) div 8 * 8)" and md: "mdlen bf = length md"
    and d: "bf_data bf = md @ replicate (unat (div8 (ucast (nmod bf)))) 0" and ss: "seeds bf = ss"
    by (metis bloom.select_convs)+
  have pos: "0 < unat nbits" using bf(3) by (simp add: unat_gt_0)
  note r = unat_round8 [OF assms(2)]
  show b: "unat nbits \<le> unat (nmod bf)" "unat (nmod bf) < unat nbits + 8"
    unfolding n r by presburger+
  then have n32: "unat (nmod bf) < 2 ^ 32" "0 < unat (nmod bf)" using assms(2) pos by simp_all
  then show "bf_wf bf"
    by (simp add: bf_wf_def d md unat_div8 unat_ucast_32) (simp add: n r)
  show "seeds bf \<noteq> []" using bf(1) ss by simp
  have "bf_data bf ! (length md + i) = 0" if "length md + i < length (bf_data bf)" for i
    using that d by (simp add: nth_append)
  then show "\<forall>j. bf_valid bf j \<longrightarrow> bf_get bf j = Some False"
    by (auto simp: bf_get_eq bf_valid_def md)
qed



subsection \<open>Properties\<close>

text \<open>
  C4: a filter of up to \<open>2 ^ 32 - 8\<close> bits has no false negatives. Whatever keys are inserted
  into a new filter, no access leaves the mapped file, the metadata at its start is not
  touched, every inserted key is found, and a key is found exactly when each of its
  positions is a position of some inserted key.
\<close>

theorem no_false_negatives:
  assumes "BloomFilter ln2 gen nbits nkeys = Inr bf" "unat nbits \<le> 2 ^ 32 - 8"
  shows "\<exists>bf'. foldM bf_insert bf ks = Some bf' \<and> take (mdlen bf) (bf_data bf') = take (mdlen bf) (bf_data bf) \<and>
    (\<forall>key. key \<in> set ks \<longrightarrow> bf_query bf' key = Some True) \<and>
    (\<forall>key. bf_query bf' key = Some (\<forall>s\<in>set (seeds bf). \<exists>k\<in>set ks. \<exists>s'\<in>set (seeds bf).
       bf_pos (nmod bf) key s = bf_pos (nmod bf) k s'))"
proof -
  obtain bf' where bf': "foldM bf_insert bf ks = Some bf'" "take (mdlen bf) (bf_data bf') = take (mdlen bf) (bf_data bf)"
    "\<forall>key. bf_query bf' key = Some (\<forall>s\<in>set (seeds bf). \<exists>k\<in>set ks. \<exists>s'\<in>set (seeds bf).
       bf_pos (nmod bf) key s = bf_pos (nmod bf) k s')"
    using query_after_inserts [OF new_filter(1,2) [OF assms], of ks] by blast
  moreover have "bf_query bf' key = Some True" if "key \<in> set ks" for key using that bf'(3) by auto
  ultimately show ?thesis by blast
qed

theorem no_false_negatives_witness:
  "\<exists>bf'. foldM bf_insert (projr (BloomFilter (\<lambda>n k. 2) (\<lambda>i. word_of_nat i) 20 3)) [5, 6] = Some bf' \<and>
    bf_query bf' 6 = Some True"
proof -
  have "BloomFilter (\<lambda>n k. 2) (\<lambda>i. word_of_nat i) 20 3 = Inr (projr (BloomFilter (\<lambda>n k. 2) (\<lambda>i. word_of_nat i) 20 3))"
    by (simp add: BloomFilter_def Let_def)
  from no_false_negatives [OF this, of "[5, 6]"] show ?thesis by auto
qed

text \<open>
  a new filter holds at least the bits asked for and less than eight more, its file has
  exactly the bytes for them behind the metadata, and every key is answered with no.
\<close>

lemma new_filter_empty:
  assumes "BloomFilter ln2 gen nbits nkeys = Inr bf" "unat nbits \<le> 2 ^ 32 - 8"
  shows "unat nbits \<le> unat (nmod bf) \<and> unat (nmod bf) < unat nbits + 8 \<and>
    length (bf_data bf) = mdlen bf + unat (nmod bf) div 8 \<and> bf_query bf key = Some False"
  using new_filter [OF assms] query_after_inserts [OF new_filter(1,2) [OF assms], of "[]"]
  by (auto simp: bf_wf_def)



end
