(* ===== verification/Micro_Bench.thy ===== *)
theory Micro_Bench
  imports Prelude "HOL-Library.Word"
begin

section \<open>The raw I/O micro-benchmark\<close>

text \<open>
  \<open>micro_benchmarks/micro_bench.c\<close>: \<open>main\<close> draws random offsets, reduces them into the file
  and gives every thread a pointer into their table; \<open>worker_thread\<close> issues one \<open>pread\<close> or
  \<open>pwrite\<close> per offset from its pointer on and reports short transfers. \<open>size_t\<close> is a 64-bit
  word, a pointer into the table an index. The numbers that \<open>getrandom\<close> delivers and the
  results of the system calls are parameters.
\<close>

datatype io_kind = Pread | Pwrite

record access =
  kind :: io_kind
  offset :: "64 word"
  nbytes :: "64 word"
  reported :: bool

text \<open>
  The test \<open>ret < access_size\<close> compares an \<open>int\<close> with a \<open>size_t\<close>: \<open>ret\<close> is converted to an
  unsigned number first.
\<close>

definition short_transfer :: "int \<Rightarrow> 64 word \<Rightarrow> bool" where
  "short_transfer ret access_size \<longleftrightarrow> word_of_int ret < access_size"

definition worker_thread ::
  "bool \<Rightarrow> 64 word \<Rightarrow> (nat \<Rightarrow> int) \<Rightarrow> nat \<Rightarrow> 64 word list \<Rightarrow> nat \<Rightarrow> access list option" where
  "worker_thread read_flag access_size ret num_accesses table arg =
     foldM (\<lambda>done i. do {
         off \<leftarrow> aget table (int (arg + i));
         Some (done @ [\<lparr>kind = (if read_flag then Pread else Pwrite), offset = off,
           nbytes = access_size, reported = short_transfer (ret i) access_size\<rparr>])
       }) [] [0..<num_accesses]"

datatype bench_error = Division_By_Zero | Random_Failed | Table_Overrun

text \<open>The offsets, reduced modulo the \<open>size_t\<close> difference of file size and access size.\<close>

definition reduce_offsets :: "64 word \<Rightarrow> 64 word \<Rightarrow> 64 word list \<Rightarrow> 64 word list" where
  "reduce_offsets file_size access_size raw = map (\<lambda>r. r mod (file_size - access_size)) raw"

text \<open>
  \<open>main\<close> up to the start of the threads: the arguments are the values of \<open>atoi\<close>, \<open>raw\<close> the
  numbers \<open>getrandom\<close> delivered. The table has as many cells as fit the size given to
  \<open>malloc\<close>, a product that can wrap around. The result is the number of accesses, the table
  and the pointer of each thread.
\<close>

definition bench_offsets ::
  "64 word list \<Rightarrow> nat \<Rightarrow> int \<Rightarrow> int \<Rightarrow> bench_error + (nat \<times> 64 word list \<times> nat list)" where
  "bench_offsets raw num_threads access_arg file_arg =
     (let access_size = word_of_int access_arg;
          file_size = 1024 * 1024 * word_of_int file_arg
      in if access_size = 0 then Inl Division_By_Zero
         else
           let num_accesses = (10 * 1024 * 1024 * 1024 :: 64 word) div access_size;
               table_bytes = 8 * word_of_nat num_threads * num_accesses;
               total = word_of_nat num_threads * num_accesses
           in if 8 * length raw < unat table_bytes then Inl Random_Failed
              else if file_size = access_size \<and> total \<noteq> 0 then Inl Division_By_Zero
              else if unat table_bytes div 8 < unat total then Inl Table_Overrun
              else Inr (unat num_accesses,
                     reduce_offsets file_size access_size (take (unat table_bytes div 8) raw),
                     map (\<lambda>i. unat (word_of_nat i * num_accesses)) [0..<num_threads]))"

subsection \<open>Every access stays inside the file\<close>

lemma offset_bound:
  assumes "access_size < file_size"
  shows "unat (r mod (file_size - access_size)) + unat access_size < unat file_size"
proof -
  have "unat (file_size - access_size) = unat file_size - unat access_size"
    using assms by (simp add: unat_sub less_imp_le)
  moreover have "unat access_size < unat file_size" using assms by (simp add: word_less_nat_alt)
  moreover have "unat (r mod (file_size - access_size)) < unat (file_size - access_size)"
    using calculation by (simp add: unat_mod_distrib)
  ultimately show ?thesis by linarith
qed

lemma worker_accesses:
  assumes "arg + n \<le> length table"
  shows "worker_thread rf sz ret n table arg =
    Some (map (\<lambda>i. \<lparr>kind = (if rf then Pread else Pwrite), offset = table ! (arg + i), nbytes = sz,
      reported = short_transfer (ret i) sz\<rparr>) [0..<n])"
  using assms
proof (induction n)
  case (Suc n)
  then show ?case using aget_int [of table "arg + n"] by (simp add: worker_thread_def foldM_append)
qed (simp add: worker_thread_def)

text \<open>With fewer than \<open>2 ^ 27\<close> threads no product wraps around.\<close>

lemma num_accesses_bound: "unat ((10 * 1024 * 1024 * 1024 :: 64 word) div a) < 2 ^ 34"
proof -
  have "unat ((10 * 1024 * 1024 * 1024 :: 64 word) div a) \<le> unat (10 * 1024 * 1024 * 1024 :: 64 word)"
    by (simp add: unat_div_distrib div_le_dividend)
  then show ?thesis by simp
qed

lemma unat_product: "k * unat m < 2 ^ 64 \<Longrightarrow> unat (word_of_nat k * m :: 64 word) = k * unat m"
  by (cases "m = 0") (simp_all add: unat_word_ariths unsigned_of_nat take_bit_nat_eq_self_iff take_bit_eq_mod mod_mult_left_eq)

lemma bench_parts:
  assumes "bench_offsets raw nt aa fa = Inr (n, table, starts)" "nt < 2 ^ 27" "i < nt"
  defines "md \<equiv> 1024 * 1024 * word_of_int fa - (word_of_int aa :: 64 word)"
  shows "starts ! i + n \<le> length table"
    "take n (drop (starts ! i) table) = map (\<lambda>r. r mod md) (take n (drop (i * n) raw))"
proof -
  define m where "m = (10 * 1024 * 1024 * 1024 :: 64 word) div word_of_int aa"
  note d = assms(1) [unfolded bench_offsets_def Let_def, folded m_def]
  have n: "n = unat m" using d by (auto split: if_splits)
  have "nt * n < 2 ^ 27 * 2 ^ 34" using assms(2) num_accesses_bound [of "word_of_int aa"] unfolding n m_def
    by (intro mult_strict_mono) simp_all
  then have b: "8 * nt * n < 2 ^ 64" by (simp add: mult.commute)
  have t: "unat (8 * word_of_nat nt * m :: 64 word) = 8 * nt * n"
    using unat_product [of "8 * nt" m] b by (simp add: n)
  have len: "nt * n \<le> length raw" and table: "table = map (\<lambda>r. r mod md) (take (nt * n) raw)"
    and starts: "starts = map (\<lambda>i. unat (word_of_nat i * m)) [0..<nt]"
    using d t by (auto simp: reduce_offsets_def md_def split: if_splits)
  have "i * n \<le> nt * n" using assms(3) by simp
  moreover have "nt * n < 2 ^ 64" using b by (simp add: mult.commute)
  ultimately have "i * unat m < 2 ^ 64" unfolding n by (rule le_less_trans)
  then have s: "starts ! i = i * n" using assms(3) unat_product [of i m] by (simp add: starts n)
  have "Suc i * n \<le> nt * n" using assms(3) by (intro mult_le_mono1) simp
  then have le: "i * n + n \<le> nt * n" by simp
  show "starts ! i + n \<le> length table" using le len by (simp add: s table)
  show "take n (drop (starts ! i) table) = map (\<lambda>r. r mod md) (take n (drop (i * n) raw))"
    using le len by (simp add: s table drop_map take_map drop_take min_def)
qed

text \<open>A failed system call returns -1, which the comparison takes for the largest number.\<close>

lemma failure_not_reported: "\<not> short_transfer (- 1) access_size"
  by (simp add: short_transfer_def not_less)

lemma short_read_reported: "0 \<le> ret \<Longrightarrow> ret < uint access_size \<Longrightarrow> short_transfer ret access_size"
  using uint_lt2p [of access_size] by (simp add: short_transfer_def word_less_def uint_word_of_int_eq take_bit_int_eq_self)

subsection \<open>Properties\<close>

text \<open>
  C22: when an access is smaller than the file and there are fewer than 2 ^ 27 threads, every
  thread issues exactly the accesses of its own part of the table: thread i takes the
  numbers i * n to (i + 1) * n - 1 that were drawn, reduced into the file, no read leaves
  the table, and every access lies inside the file.
\<close>

theorem accesses_inside_file:
  assumes "bench_offsets raw nt aa fa = Inr (n, table, starts)" "nt < 2 ^ 27" "i < nt"
    "(word_of_int aa :: 64 word) < 1024 * 1024 * word_of_int fa"
  shows "\<exists>as. worker_thread rf (word_of_int aa) ret n table (starts ! i) = Some as \<and> length as = n \<and>
    map offset as = map (\<lambda>r. r mod (1024 * 1024 * word_of_int fa - word_of_int aa)) (take n (drop (i * n) raw)) \<and>
    (\<forall>a\<in>set as. unat (offset a) + unat (nbytes a) < unat (1024 * 1024 * word_of_int fa :: 64 word))"
proof -
  note part = bench_parts [OF assms(1-3)]
  let ?as = "map (\<lambda>j. \<lparr>kind = (if rf then Pread else Pwrite), offset = table ! (starts ! i + j), nbytes = word_of_int aa,
    reported = short_transfer (ret j) (word_of_int aa)\<rparr>) [0..<n]"
  have "map offset ?as = take n (drop (starts ! i) table)"
    using part(1) by (intro nth_equalityI) simp_all
  then have off: "map offset ?as = map (\<lambda>r. r mod (1024 * 1024 * word_of_int fa - word_of_int aa)) (take n (drop (i * n) raw))"
    using part(2) by simp
  have "unat x + unat (word_of_int aa :: 64 word) < unat (1024 * 1024 * word_of_int fa :: 64 word)" if "x \<in> set (map offset ?as)" for x
    using that offset_bound [OF assms(4)] unfolding off by auto
  then have "\<forall>a\<in>set ?as. unat (offset a) + unat (nbytes a) < unat (1024 * 1024 * word_of_int fa :: 64 word)" by simp
  then show ?thesis using worker_accesses [OF part(1), of rf "word_of_int aa" ret] off by (intro exI [of _ ?as]) simp
qed

theorem accesses_inside_file_witness:
  "\<exists>as. worker_thread True 2147483647 (\<lambda>_. 0) 5 [1, 2, 3, 4, 5, 6, 7, 8, 9, 10] 5 = Some as \<and> map offset as = [6, 7, 8, 9, 10]"
proof -
  have "bench_offsets [1, 2, 3, 4, 5, 6, 7, 8, 9, 10] 2 2147483647 4096 = Inr (5, [1, 2, 3, 4, 5, 6, 7, 8, 9, 10], [0, 5])"
    by (simp add: bench_offsets_def reduce_offsets_def upt_conv_Cons)
  from accesses_inside_file [OF this, of 1 True "\<lambda>_. 0"] show ?thesis by auto
qed

text \<open>
  a transfer shorter than asked for is reported, but a failed system call is not: its
  result -1 is compared as an unsigned number.
\<close>

lemma failures_not_reported:
  "\<not> short_transfer (- 1) access_size \<and> (short_transfer (int n) access_size \<longleftrightarrow> n mod 2 ^ 64 < unat access_size)"
  using failure_not_reported [of access_size]
  by (simp add: short_transfer_def word_less_nat_alt unsigned_of_nat take_bit_eq_mod)

end
