(* ===== verification/Coding.thy ===== *)
theory Coding
  imports Bytes
begin

section \<open>Encodings of integers and strings\<close>

text \<open>
  \<open>util/coding.h\<close>, \<open>util/coding.cc\<close> and \<open>util/coding_lean.h\<close>. A \<open>Put\<close> routine appends to a
  string, a \<open>Get\<close> routine parses a value from the front of a slice and returns it with
  the rest of the slice, or fails (\<^term>\<open>None\<close>, the source's \<open>false\<close> and \<open>nullptr\<close>). The locale
  \<open>codec\<close> is what the users of the encodings rely on; every pair of routines interprets it.
\<close>

unbundle bit_operations_syntax

subsection \<open>Fixed-width integers\<close>

text \<open>
  The encoders have a branch for little-endian machines, \<open>memcpy\<close> of the value, and a
  portable one that writes the bytes by shifting.
\<close>

definition EncodeFixed16 :: "bool \<Rightarrow> 16 word \<Rightarrow> bytes" where
  "EncodeFixed16 kLittleEndian value =
     (if kLittleEndian then le_bytes 2 value
      else [ucast (value AND 0xff), ucast (drop_bit 8 value AND 0xff)])"

definition EncodeFixed32 :: "bool \<Rightarrow> 32 word \<Rightarrow> bytes" where
  "EncodeFixed32 kLittleEndian value =
     (if kLittleEndian then le_bytes 4 value
      else [ucast (value AND 0xff), ucast (drop_bit 8 value AND 0xff),
        ucast (drop_bit 16 value AND 0xff), ucast (drop_bit 24 value AND 0xff)])"

definition EncodeFixed64 :: "bool \<Rightarrow> 64 word \<Rightarrow> bytes" where
  "EncodeFixed64 kLittleEndian value =
     (if kLittleEndian then le_bytes 8 value
      else [ucast (value AND 0xff), ucast (drop_bit 8 value AND 0xff),
        ucast (drop_bit 16 value AND 0xff), ucast (drop_bit 24 value AND 0xff),
        ucast (drop_bit 32 value AND 0xff), ucast (drop_bit 40 value AND 0xff),
        ucast (drop_bit 48 value AND 0xff), ucast (drop_bit 56 value AND 0xff)])"

text \<open>\<open>memcpy\<close> of the first bytes of a buffer into an integer; a shorter buffer is \<^term>\<open>None\<close>.\<close>

definition load_le :: "nat \<Rightarrow> bytes \<Rightarrow> 'w::len word option" where
  "load_le n ptr = (if length ptr < n then None else Some (word_of_nat (le_value (take n ptr))))"

definition DecodeFixed16 :: "bool \<Rightarrow> bytes \<Rightarrow> 16 word option" where
  "DecodeFixed16 kLittleEndian ptr =
     (if kLittleEndian then load_le 2 ptr
      else do {
        b0 \<leftarrow> aget ptr 0; b1 \<leftarrow> aget ptr 1;
        Some (ucast b0 OR push_bit 8 (ucast b1))
      })"

definition DecodeFixed32 :: "bool \<Rightarrow> bytes \<Rightarrow> 32 word option" where
  "DecodeFixed32 kLittleEndian ptr =
     (if kLittleEndian then load_le 4 ptr
      else do {
        b0 \<leftarrow> aget ptr 0; b1 \<leftarrow> aget ptr 1; b2 \<leftarrow> aget ptr 2; b3 \<leftarrow> aget ptr 3;
        Some (ucast b0 OR push_bit 8 (ucast b1) OR push_bit 16 (ucast b2) OR push_bit 24 (ucast b3))
      })"

definition DecodeFixed64 :: "bool \<Rightarrow> bytes \<Rightarrow> 64 word option" where
  "DecodeFixed64 kLittleEndian ptr =
     (if kLittleEndian then load_le 8 ptr
      else do {
        lo \<leftarrow> DecodeFixed32 kLittleEndian ptr;
        hi \<leftarrow> DecodeFixed32 kLittleEndian (drop 4 ptr);
        Some (push_bit 32 (ucast hi) OR ucast lo)
      })"

definition PutFixed16 :: "bytes \<Rightarrow> 16 word \<Rightarrow> bytes" where
  "PutFixed16 dst value = dst @ EncodeFixed16 True value"

definition PutFixed32 :: "bytes \<Rightarrow> 32 word \<Rightarrow> bytes" where
  "PutFixed32 dst value = dst @ EncodeFixed32 True value"

definition PutFixed64 :: "bytes \<Rightarrow> 64 word \<Rightarrow> bytes" where
  "PutFixed64 dst value = dst @ EncodeFixed64 True value"

definition GetFixed16 :: "bytes \<Rightarrow> (16 word \<times> bytes) option" where
  "GetFixed16 input =
     (if length input < 2 then None
      else do { v \<leftarrow> DecodeFixed16 True input; Some (v, drop 2 input) })"

definition GetFixed32 :: "bytes \<Rightarrow> (32 word \<times> bytes) option" where
  "GetFixed32 input =
     (if length input < 4 then None
      else do { v \<leftarrow> DecodeFixed32 True input; Some (v, drop 4 input) })"

definition GetFixed64 :: "bytes \<Rightarrow> (64 word \<times> bytes) option" where
  "GetFixed64 input =
     (if length input < 8 then None
      else do { v \<leftarrow> DecodeFixed64 True input; Some (v, drop 8 input) })"

subsection \<open>Variable-length integers\<close>

definition EncodeVarint32 :: "32 word \<Rightarrow> bytes" where
  "EncodeVarint32 v =
     (let B = 128 in
      if v < 2 ^ 7 then [ucast v]
      else if v < 2 ^ 14 then [ucast (v OR B), ucast (drop_bit 7 v)]
      else if v < 2 ^ 21 then [ucast (v OR B), ucast (drop_bit 7 v OR B), ucast (drop_bit 14 v)]
      else if v < 2 ^ 28 then
        [ucast (v OR B), ucast (drop_bit 7 v OR B), ucast (drop_bit 14 v OR B), ucast (drop_bit 21 v)]
      else
        [ucast (v OR B), ucast (drop_bit 7 v OR B), ucast (drop_bit 14 v OR B),
         ucast (drop_bit 21 v OR B), ucast (drop_bit 28 v)])"

text \<open>The loop of \<open>EncodeVarint64\<close>, at any width.\<close>

function varint_loop :: "'w::len word \<Rightarrow> bytes" where
  "varint_loop v =
     (if 128 \<le> unat v then ucast ((v AND 127) OR 128) # varint_loop (drop_bit 7 v) else [ucast v])"
  by pat_completeness auto
termination
proof (relation "measure unat")
  fix v :: "'w::len word"
  assume "128 \<le> unat v"
  moreover have "unat (drop_bit 7 v) = unat v div 128"
    unfolding unat_drop_bit_eq by (simp add: drop_bit_eq_div)
  ultimately show "(drop_bit 7 v, v) \<in> measure unat" by simp
qed simp

declare varint_loop.simps [simp del]

definition EncodeVarint64 :: "64 word \<Rightarrow> bytes" where
  "EncodeVarint64 v = varint_loop v"

text \<open>
  The loop of the two decoders: \<open>last\<close> is the largest shift, 28 or 63. The bytes are those
  up to the limit.
\<close>

primrec varint_read :: "nat \<Rightarrow> bytes \<Rightarrow> nat \<Rightarrow> 'w::len word \<Rightarrow> ('w word \<times> bytes) option" where
  "varint_read lst [] shift result = None"
| "varint_read lst (b # p) shift result =
     (if shift \<le> lst then
        if b AND 128 \<noteq> 0 then varint_read lst p (shift + 7) (result OR push_bit shift (ucast b AND 127))
        else Some (result OR push_bit shift (ucast b), p)
      else None)"

definition GetVarint32PtrFallback :: "bytes \<Rightarrow> (32 word \<times> bytes) option" where
  "GetVarint32PtrFallback p = varint_read 28 p 0 0"

definition GetVarint32Ptr :: "bytes \<Rightarrow> (32 word \<times> bytes) option" where
  "GetVarint32Ptr p =
     (case p of
        b # q \<Rightarrow> if ucast b AND 128 = (0 :: 32 word) then Some (ucast b, q) else GetVarint32PtrFallback p
      | [] \<Rightarrow> GetVarint32PtrFallback p)"

definition GetVarint64Ptr :: "bytes \<Rightarrow> (64 word \<times> bytes) option" where
  "GetVarint64Ptr p = varint_read 63 p 0 0"

definition PutVarint32 :: "bytes \<Rightarrow> 32 word \<Rightarrow> bytes" where
  "PutVarint32 dst v = dst @ EncodeVarint32 v"

definition PutVarint64 :: "bytes \<Rightarrow> 64 word \<Rightarrow> bytes" where
  "PutVarint64 dst v = dst @ EncodeVarint64 v"

definition PutVarint32Varint32 :: "bytes \<Rightarrow> 32 word \<Rightarrow> 32 word \<Rightarrow> bytes" where
  "PutVarint32Varint32 dst v1 v2 = dst @ EncodeVarint32 v1 @ EncodeVarint32 v2"

definition PutVarint32Varint32Varint32 :: "bytes \<Rightarrow> 32 word \<Rightarrow> 32 word \<Rightarrow> 32 word \<Rightarrow> bytes" where
  "PutVarint32Varint32Varint32 dst v1 v2 v3 =
     dst @ EncodeVarint32 v1 @ EncodeVarint32 v2 @ EncodeVarint32 v3"

definition PutVarint64Varint64 :: "bytes \<Rightarrow> 64 word \<Rightarrow> 64 word \<Rightarrow> bytes" where
  "PutVarint64Varint64 dst v1 v2 = dst @ EncodeVarint64 v1 @ EncodeVarint64 v2"

definition PutVarint32Varint64 :: "bytes \<Rightarrow> 32 word \<Rightarrow> 64 word \<Rightarrow> bytes" where
  "PutVarint32Varint64 dst v1 v2 = dst @ EncodeVarint32 v1 @ EncodeVarint64 v2"

definition PutVarint32Varint32Varint64 :: "bytes \<Rightarrow> 32 word \<Rightarrow> 32 word \<Rightarrow> 64 word \<Rightarrow> bytes" where
  "PutVarint32Varint32Varint64 dst v1 v2 v3 =
     dst @ EncodeVarint32 v1 @ EncodeVarint32 v2 @ EncodeVarint64 v3"

definition GetVarint32 :: "bytes \<Rightarrow> (32 word \<times> bytes) option" where
  "GetVarint32 input = GetVarint32Ptr input"

definition GetVarint64 :: "bytes \<Rightarrow> (64 word \<times> bytes) option" where
  "GetVarint64 input = GetVarint64Ptr input"

function VarintLength :: "64 word \<Rightarrow> nat" where
  "VarintLength v = (if 128 \<le> v then Suc (VarintLength (drop_bit 7 v)) else 1)"
  by pat_completeness auto
termination
proof (relation "measure unat")
  fix v :: "64 word"
  assume "128 \<le> v"
  then have "128 \<le> unat v" by (simp add: word_le_nat_alt)
  moreover have "unat (drop_bit 7 v) = unat v div 128"
    unfolding unat_drop_bit_eq by (simp add: drop_bit_eq_div)
  ultimately show "(drop_bit 7 v, v) \<in> measure unat" by simp
qed simp

declare VarintLength.simps [simp del]

text \<open>Zigzag: the sign goes to the lowest bit. \<open>l >> 63\<close> is an arithmetic shift.\<close>

definition i64ToZigzag :: "64 word \<Rightarrow> 64 word" where
  "i64ToZigzag l = push_bit 1 l XOR signed_drop_bit 63 l"

definition zigzagToI64 :: "64 word \<Rightarrow> 64 word" where
  "zigzagToI64 n = drop_bit 1 n XOR - (n AND 1)"

definition PutVarsignedint64 :: "bytes \<Rightarrow> 64 word \<Rightarrow> bytes" where
  "PutVarsignedint64 dst v = dst @ EncodeVarint64 (i64ToZigzag v)"

definition GetVarsignedint64 :: "bytes \<Rightarrow> (64 word \<times> bytes) option" where
  "GetVarsignedint64 input = do { (u, q) \<leftarrow> GetVarint64Ptr input; Some (zigzagToI64 u, q) }"

subsection \<open>Length-prefixed strings\<close>

definition PutLengthPrefixedSlice :: "bytes \<Rightarrow> bytes \<Rightarrow> bytes" where
  "PutLengthPrefixedSlice dst value = PutVarint32 dst (word_of_nat (length value)) @ value"

definition PutLengthPrefixedSliceParts :: "bytes \<Rightarrow> nat \<Rightarrow> bytes list \<Rightarrow> bytes" where
  "PutLengthPrefixedSliceParts dst total_bytes parts =
     PutVarint32 dst (word_of_nat (foldl (\<lambda>n p. n + length p) total_bytes parts)) @ concat parts"

definition PutLengthPrefixedSlicePartsWithPadding :: "bytes \<Rightarrow> bytes list \<Rightarrow> nat \<Rightarrow> bytes" where
  "PutLengthPrefixedSlicePartsWithPadding dst parts pad_sz =
     PutLengthPrefixedSliceParts dst pad_sz parts @ replicate pad_sz 0"

definition GetLengthPrefixedSlice :: "bytes \<Rightarrow> (bytes \<times> bytes) option" where
  "GetLengthPrefixedSlice input = do {
     (len, input) \<leftarrow> GetVarint32 input;
     if unat len \<le> length input then Some (take (unat len) input, drop (unat len) input) else None
   }"

definition GetSliceUntil :: "bytes \<Rightarrow> 8 word \<Rightarrow> bytes \<times> bytes" where
  "GetSliceUntil s delimiter =
     (let len = length (takeWhile (\<lambda>c. c \<noteq> delimiter) s)
      in (take len s, drop (len + (if len < length s then 1 else 0)) s))"

subsection \<open>The contract of an encoding\<close>

locale codec =
  fixes enc :: "'a \<Rightarrow> bytes"
    and dec :: "bytes \<Rightarrow> ('a \<times> bytes) option"
    and ok :: "'a \<Rightarrow> bool"
  assumes dec_enc: "ok a \<Longrightarrow> dec (enc a @ s) = Some (a, s)"
begin

lemma prefix_free: "ok a \<Longrightarrow> ok b \<Longrightarrow> enc a @ s = enc b @ t \<Longrightarrow> a = b \<and> s = t"
  by (metis dec_enc option.inject prod.inject)

primrec dec_many :: "nat \<Rightarrow> bytes \<Rightarrow> ('a list \<times> bytes) option" where
  "dec_many 0 s = Some ([], s)"
| "dec_many (Suc n) s = do { (a, s) \<leftarrow> dec s; (as, s) \<leftarrow> dec_many n s; Some (a # as, s) }"

lemma dec_many_enc: "\<forall>a\<in>set as. ok a \<Longrightarrow> dec_many (length as) (concat (map enc as) @ s) = Some (as, s)"
  by (induction as) (auto simp: dec_enc)

end

locale codec_pair = fst: codec enc1 dec1 ok1 + snd: codec enc2 dec2 ok2
  for enc1 :: "'a \<Rightarrow> bytes" and dec1 and ok1 and enc2 :: "'b \<Rightarrow> bytes" and dec2 and ok2

sublocale codec_pair \<subseteq> both: codec
  "\<lambda>(a, b). enc1 a @ enc2 b"
  "\<lambda>s. do { (a, s) \<leftarrow> dec1 s; (b, s) \<leftarrow> dec2 s; Some ((a, b), s) }"
  "\<lambda>(a, b). ok1 a \<and> ok2 b"
  by unfold_locales (auto simp: fst.dec_enc snd.dec_enc)

subsection \<open>Fixed-width integers are read back\<close>

lemma ucast_and_ff: "(ucast (x AND 0xff) :: 8 word) = ucast x"
proof (rule bit_word_eqI)
  fix n assume n: "n < LENGTH(8)"
  have "bit (0xff :: 'a word) n \<longleftrightarrow> n < LENGTH('a)"
    using n bit_mask_iff [of 8 n, where ?'a = "'a word"] by (simp add: mask_eq_exp_minus_1)
  then show "bit (ucast (x AND 0xff) :: 8 word) n = bit (ucast x :: 8 word) n"
    using n by (auto simp: bit_simps dest: bit_imp_le_length)
qed

lemma portable_encoders:
  "EncodeFixed16 False v = EncodeFixed16 True v" "EncodeFixed32 False w = EncodeFixed32 True w"
  "EncodeFixed64 False x = EncodeFixed64 True x"
  by (simp_all add: EncodeFixed16_def EncodeFixed32_def EncodeFixed64_def le_bytes_def ucast_and_ff upt_rec)

lemma load_le_bytes:
  fixes w :: "'w::len word"
  assumes "LENGTH('w) = 8 * n"
  shows "load_le n (le_bytes n w @ s) = Some w"
proof -
  have "unat w < 2 ^ LENGTH('w)" by (rule unsigned_less)
  then have "unat w < 256 ^ n" using assms by (simp add: power_mult)
  then show ?thesis by (simp add: load_le_def le_value_le_bytes)
qed

lemma le_bytes_inj:
  fixes w v :: "'w::len word"
  assumes "LENGTH('w) = 8 * n" "le_bytes n w = le_bytes n v"
  shows "w = v"
  using load_le_bytes [OF assms(1), of w "[]"] load_le_bytes [OF assms(1), of v "[]"] assms(2) by simp

lemma le_bytes_load:
  assumes "LENGTH('w::len) = 8 * n" "length bs = n"
  shows "le_bytes n (word_of_nat (le_value bs) :: 'w word) = bs"
proof (rule le_value_inj)
  have "le_value bs < 2 ^ LENGTH('w)" using le_value_bound [of bs] assms by (simp add: power_mult)
  then have "unat (word_of_nat (le_value bs) :: 'w word) = le_value bs" by (simp add: unsigned_of_nat take_bit_nat_eq_self)
  with le_value_bound [of bs] assms(2)
  show "le_value (le_bytes n (word_of_nat (le_value bs) :: 'w word)) = le_value bs" by (simp add: le_value_le_bytes)
qed (simp add: assms(2))

lemma bit_byte_high [simp]: "8 \<le> n \<Longrightarrow> \<not> bit (b :: 8 word) n"
  using bit_imp_le_length [of b n] by auto

lemma portable_decoder:
  assumes "4 \<le> length ptr"
  shows "DecodeFixed32 False ptr = DecodeFixed32 True ptr"
proof -
  obtain b0 b1 b2 b3 r where ptr: "ptr = b0 # b1 # b2 # b3 # r"
    using assms by (auto simp: numeral_eq_Suc Suc_le_length_iff)
  let ?w = "ucast b0 OR push_bit 8 (ucast b1) OR push_bit 16 (ucast b2) OR push_bit 24 (ucast b3) :: 32 word"
  have "le_bytes 4 ?w = [b0, b1, b2, b3]"
    by (auto simp: le_bytes_def upt_rec bit_simps intro!: bit_word_eqI dest: bit_imp_le_length)
  moreover have "le_bytes 4 (word_of_nat (le_value [b0, b1, b2, b3]) :: 32 word) = [b0, b1, b2, b3]"
    by (rule le_bytes_load) simp_all
  ultimately have "?w = word_of_nat (le_value [b0, b1, b2, b3])" by (intro le_bytes_inj [of 4]) simp_all
  then show ?thesis by (simp add: DecodeFixed32_def load_le_def ptr aget_def)
qed

interpretation fixed16: codec "EncodeFixed16 True" GetFixed16 "\<lambda>_. True"
  by unfold_locales (simp add: GetFixed16_def EncodeFixed16_def DecodeFixed16_def load_le_bytes)

interpretation fixed32: codec "EncodeFixed32 True" GetFixed32 "\<lambda>_. True"
  by unfold_locales (simp add: GetFixed32_def EncodeFixed32_def DecodeFixed32_def load_le_bytes)

interpretation fixed64: codec "EncodeFixed64 True" GetFixed64 "\<lambda>_. True"
  by unfold_locales (simp add: GetFixed64_def EncodeFixed64_def DecodeFixed64_def load_le_bytes)

subsection \<open>Variable-length integers are read back\<close>

lemma byte_and_128: "b AND (128 :: 'w::len word) = 0 \<longleftrightarrow> \<not> bit b 7"
  using and_exp_eq_0_iff_not_bit [of b 7] by simp

lemma bit_127_128_int: "bit (127 :: int) n \<longleftrightarrow> n < 7" "bit (128 :: int) n \<longleftrightarrow> n = 7"
  using bit_mask_iff [of 7 n, where ?'a = int] bit_exp_iff [of 7 n, where ?'a = int]
  by (auto simp: mask_eq_exp_minus_1)

lemma less_exp_bits:
  assumes "unat (v :: 'w::len word) < 2 ^ m" "bit v n"
  shows "n < m"
proof (rule ccontr)
  assume "\<not> n < m"
  then have "(2::nat) ^ m \<le> 2 ^ n" by (intro power_increasing) auto
  with assms(1) have "unat v div 2 ^ n = 0" by (intro div_less) linarith
  moreover have "bit (unat v) n" using assms(2) by (simp add: bit_unsigned_iff)
  ultimately show False by (simp add: bit_iff_odd)
qed

lemma varint_chunk:
  fixes v :: "'w::len word"
  assumes "7 < LENGTH('w)"
  shows "push_bit shift (ucast (ucast ((v AND 127) OR 128) :: 8 word) AND 127) OR push_bit (shift + 7) (drop_bit 7 v) =
    push_bit shift v"
proof (rule bit_word_eqI)
  fix n assume n: "n < LENGTH('w)"
  show "bit (push_bit shift (ucast (ucast ((v AND 127) OR 128) :: 8 word) AND 127) OR push_bit (shift + 7) (drop_bit 7 v)) n =
    bit (push_bit shift v) n"
  proof (cases "shift \<le> n")
    case True
    then obtain k where k: "n = shift + k" using le_Suc_ex by blast
    show ?thesis
    proof (cases "k < 7")
      case True
      then show ?thesis using n assms k by (auto simp: bit_simps bit_127_128_int)
    next
      case False
      then have "7 + (n - (shift + 7)) = k" using k by simp
      with False show ?thesis using n k by (simp add: bit_simps bit_127_128_int)
    qed
  qed (use n in \<open>simp add: bit_simps\<close>)
qed

lemma varint_read_loop:
  fixes v result :: "'w::len word"
  assumes "7 dvd shift" "7 dvd lst" "LENGTH('w) \<le> lst + 7" "7 < LENGTH('w)" "shift \<le> lst"
    "unat v < 2 ^ (LENGTH('w) - shift)"
  shows "varint_read lst (varint_loop v @ s) shift result = Some (result OR push_bit shift v, s)"
  using assms(1,5,6)
proof (induction v arbitrary: shift result rule: varint_loop.induct)
  case (1 v)
  show ?case
  proof (cases "128 \<le> unat v")
    case False
    then have hi: "bit v n \<Longrightarrow> n < 7" for n
      using less_exp_bits [of v 7 n] by simp
    then have "\<not> bit (ucast v :: 8 word) 7" by (auto simp: bit_simps)
    moreover have "bit v n \<Longrightarrow> n < 8" for n using hi [of n] by simp
    then have "(ucast (ucast v :: 8 word) :: 'w word) = v"
      by (auto simp: bit_simps intro!: bit_word_eqI)
    ultimately show ?thesis
      using False 1(3) by (subst varint_loop.simps) (simp add: byte_and_128)
  next
    case True
    let ?b = "ucast ((v AND 127) OR 128) :: 8 word"
    have sh: "shift + 7 < LENGTH('w)"
    proof (rule ccontr)
      assume "\<not> shift + 7 < LENGTH('w)"
      then have "(2::nat) ^ (LENGTH('w) - shift) \<le> 2 ^ 7" by (intro power_increasing) auto
      with True 1(4) show False by simp
    qed
    obtain i j where ij: "shift = 7 * i" "lst = 7 * j" using 1(2) assms(2) by (elim dvdE)
    with sh assms(3) have "7 * i < 7 * j" by linarith
    then have le: "shift + 7 \<le> lst" by (simp add: ij)
    have "unat (drop_bit 7 v) = unat v div 2 ^ 7" unfolding unat_drop_bit_eq by (simp add: drop_bit_eq_div)
    also have "\<dots> < 2 ^ (LENGTH('w) - (shift + 7))"
    proof (intro div_less_iff_less_mult [THEN iffD2])
      have "(2::nat) ^ (LENGTH('w) - (shift + 7)) * 2 ^ 7 = 2 ^ (LENGTH('w) - shift)"
        unfolding power_add [symmetric] using sh by simp
      with 1(4) show "unat v < 2 ^ (LENGTH('w) - (shift + 7)) * 2 ^ 7" by (simp only:)
    qed simp
    finally have small: "unat (drop_bit 7 v) < 2 ^ (LENGTH('w) - (shift + 7))" .
    have b: "bit ?b 7" using assms(4) by (simp add: bit_simps bit_127_128_int)
    have "(result OR push_bit shift (ucast ?b AND 127)) OR push_bit (shift + 7) (drop_bit 7 v) = result OR push_bit shift v"
      unfolding or.assoc varint_chunk [OF assms(4)] ..
    then show ?thesis
      using 1(1) [OF True _ le small] 1(2) True b 1(3)
      by (subst varint_loop.simps) (simp add: byte_and_128)
  qed
qed

lemma unat_less_64: "unat (v :: 64 word) < 2 ^ 64" and unat_less_32: "unat (w :: 32 word) < 2 ^ 32"
  using unsigned_less [of v] unsigned_less [of w] by simp_all

lemma varint64_read: "varint_read 63 (varint_loop v @ s) 0 0 = Some (v :: 64 word, s)"
  using varint_read_loop [of 0 63 v s 0] unat_less_64 [of v] by simp

lemma varint32_read: "varint_read 28 (varint_loop v @ s) 0 0 = Some (v :: 32 word, s)"
  using varint_read_loop [of 0 28 v s 0] unat_less_32 [of v] by simp

text \<open>The case distinction of \<open>EncodeVarint32\<close> writes what the loop writes.\<close>

lemma ucast_or_chunk: "(ucast ((v AND 127) OR 128 :: 32 word) :: 8 word) = ucast (v OR 128)"
  by (rule bit_word_eqI) (auto simp: bit_simps bit_127_128_int)

lemma EncodeVarint32_loop: "EncodeVarint32 v = varint_loop v"
proof -
  have d: "128 \<le> unat (drop_bit n v) \<longleftrightarrow> 2 ^ (n + 7) \<le> unat v" for n
    unfolding unat_drop_bit_eq by (simp add: drop_bit_eq_div less_eq_div_iff_mult_less_eq power_add mult.commute)
  have step: "varint_loop (drop_bit n v) =
      (if 2 ^ (n + 7) \<le> unat v then ucast (drop_bit n v OR 128) # varint_loop (drop_bit (n + 7) v) else [ucast (drop_bit n v)])" for n
    by (subst varint_loop.simps) (simp add: d ucast_or_chunk add.commute)
  have "\<not> 2 ^ 35 \<le> unat v" using unat_less_32 [of v] by simp
  then show ?thesis
    using step [of 0] step [of 7] step [of 14] step [of 21] step [of 28]
    by (auto simp: EncodeVarint32_def Let_def word_less_nat_alt)
qed

interpretation varint32: codec EncodeVarint32 GetVarint32 "\<lambda>_. True"
proof unfold_locales
  fix v :: "32 word" and s
  have "GetVarint32Ptr p = GetVarint32PtrFallback p" for p
    by (cases p) (auto simp: GetVarint32Ptr_def GetVarint32PtrFallback_def byte_and_128 bit_simps)
  then show "GetVarint32 (EncodeVarint32 v @ s) = Some (v, s)"
    by (simp add: GetVarint32_def GetVarint32PtrFallback_def EncodeVarint32_loop varint32_read)
qed

interpretation varint64: codec EncodeVarint64 GetVarint64 "\<lambda>_. True"
  by unfold_locales (simp add: GetVarint64_def GetVarint64Ptr_def EncodeVarint64_def varint64_read)

lemma zigzag_inverse: "zigzagToI64 (i64ToZigzag l) = l"
proof -
  have s: "signed_drop_bit 63 l = (if bit l 63 then - 1 else 0)"
  proof (rule bit_word_eqI)
    fix n
    assume "n < LENGTH(64)"
    then show "bit (signed_drop_bit 63 l) n = bit (if bit l 63 then - 1 else 0 :: 64 word) n"
      by (cases "n = 0") (auto simp: bit_simps min_def)
  qed
  have one: "i64ToZigzag l AND 1 = (if bit l 63 then 1 else 0)"
    by (simp add: and_one_eq mod_2_eq_odd i64ToZigzag_def s even_xor_iff)
  have dbl: "bit (l * 2) (Suc n) \<longleftrightarrow> n < 63 \<and> bit l n" for n
    using bit_push_bit_iff [of 1 l "Suc n"] by (simp add: push_bit_eq_mult)
  show ?thesis
    unfolding zigzagToI64_def one
  proof (rule bit_word_eqI)
    fix n
    assume "n < LENGTH(64)"
    then show "bit (drop_bit 1 (i64ToZigzag l) XOR - (if bit l 63 then 1 else 0)) n = bit l n"
      by (cases "n = 63") (auto simp: i64ToZigzag_def s bit_simps dbl dest: bit_imp_le_length)
  qed
qed

interpretation varsigned64: codec "\<lambda>v. EncodeVarint64 (i64ToZigzag v)" GetVarsignedint64 "\<lambda>_. True"
  by unfold_locales (simp add: GetVarsignedint64_def GetVarint64Ptr_def EncodeVarint64_def varint64_read zigzag_inverse)

lemma VarintLength_length: "VarintLength v = length (EncodeVarint64 v)"
  unfolding EncodeVarint64_def
proof (induction v rule: VarintLength.induct)
  case (1 v)
  have "128 \<le> v \<longleftrightarrow> 128 \<le> unat v" by (simp add: word_le_nat_alt)
  with 1 show ?case by (subst VarintLength.simps, subst varint_loop.simps) simp
qed

lemma varint_loop_length: "unat (v :: 'w::len word) < 2 ^ (7 * Suc k) \<Longrightarrow> length (varint_loop v) \<le> Suc k"
proof (induction k arbitrary: v)
  case 0
  then show ?case by (subst varint_loop.simps) simp
next
  case (Suc k)
  have "unat (drop_bit 7 v) = unat v div 2 ^ 7" unfolding unat_drop_bit_eq by (simp add: drop_bit_eq_div)
  moreover have "unat v div 2 ^ 7 < 2 ^ (7 * Suc k)"
    using Suc.prems by (intro div_less_iff_less_mult [THEN iffD2]) (simp_all add: power_add)
  ultimately have "length (varint_loop (drop_bit 7 v)) \<le> Suc k" by (intro Suc.IH) simp
  then show ?case by (subst varint_loop.simps) simp
qed

lemma VarintLength_bound: "VarintLength v \<le> 10"
  using varint_loop_length [of v 9] unat_less_64 [of v] by (simp add: VarintLength_length EncodeVarint64_def)

interpretation prefixed: codec "PutLengthPrefixedSlice []" GetLengthPrefixedSlice "\<lambda>s. length s < 2 ^ 32"
proof unfold_locales
  fix a s :: bytes
  assume "length a < 2 ^ 32"
  then have "unat (word_of_nat (length a) :: 32 word) = length a" by (simp add: unsigned_of_nat take_bit_nat_eq_self)
  then show "GetLengthPrefixedSlice (PutLengthPrefixedSlice [] a @ s) = Some (a, s)"
    by (simp add: GetLengthPrefixedSlice_def PutLengthPrefixedSlice_def PutVarint32_def varint32.dec_enc)
qed

interpretation varint32_64: codec_pair EncodeVarint32 GetVarint32 "\<lambda>_. True" EncodeVarint64 GetVarint64 "\<lambda>_. True" ..

lemma foldl_lengths: "foldl (\<lambda>n p. n + length p) k ps = k + length (concat ps)"
  by (induction ps arbitrary: k) auto

lemma parts_padded:
  assumes "pad + length (concat parts) < 2 ^ 32"
  shows "GetLengthPrefixedSlice (PutLengthPrefixedSlicePartsWithPadding [] parts pad @ s) =
    Some (concat parts @ replicate pad 0, s)"
proof -
  have "PutLengthPrefixedSlicePartsWithPadding [] parts pad = PutLengthPrefixedSlice [] (concat parts @ replicate pad 0)"
    by (simp add: PutLengthPrefixedSlicePartsWithPadding_def PutLengthPrefixedSliceParts_def PutLengthPrefixedSlice_def
        foldl_lengths add.commute)
  then show ?thesis using assms by (simp add: prefixed.dec_enc)
qed

lemma slice_until:
  "d \<notin> set s \<Longrightarrow> GetSliceUntil s d = (s, [])"
  "d \<notin> set p \<Longrightarrow> GetSliceUntil (p @ d # r) d = (p, r)"
proof -
  assume "d \<notin> set s"
  then have "takeWhile (\<lambda>c. c \<noteq> d) s = s" by (auto simp: takeWhile_eq_all_conv)
  then show "GetSliceUntil s d = (s, [])" by (simp only: GetSliceUntil_def Let_def) simp
next
  assume "d \<notin> set p"
  then have "takeWhile (\<lambda>c. c \<noteq> d) (p @ d # r) = p" by (auto simp: takeWhile_append takeWhile_eq_all_conv)
  then show "GetSliceUntil (p @ d # r) d = (p, r)" by (simp only: GetSliceUntil_def Let_def) simp
qed

lemma portable_decoder16:
  assumes "2 \<le> length ptr"
  shows "DecodeFixed16 False ptr = DecodeFixed16 True ptr"
proof -
  obtain b0 b1 r where ptr: "ptr = b0 # b1 # r" using assms by (auto simp: numeral_eq_Suc Suc_le_length_iff)
  let ?w = "ucast b0 OR push_bit 8 (ucast b1) :: 16 word"
  have "le_bytes 2 ?w = [b0, b1]"
    by (auto simp: le_bytes_def upt_rec bit_simps intro!: bit_word_eqI dest: bit_imp_le_length)
  moreover have "le_bytes 2 (word_of_nat (le_value [b0, b1]) :: 16 word) = [b0, b1]"
    by (rule le_bytes_load) simp_all
  ultimately have "?w = word_of_nat (le_value [b0, b1])" by (intro le_bytes_inj [of 2]) simp_all
  then show ?thesis by (simp add: DecodeFixed16_def load_le_def ptr aget_def)
qed

lemma varint_loop_widen: "varint_loop (ucast v :: 64 word) = varint_loop (v :: 32 word)"
proof (induction v rule: varint_loop.induct)
  case (1 v)
  have "unat (ucast v :: 64 word) = unat v"
    using unat_less_32 [of v] by (simp add: unsigned_ucast_eq take_bit_nat_eq_self)
  moreover have "drop_bit 7 (ucast v :: 64 word) = ucast (drop_bit 7 v)"
    by (rule bit_word_eqI) (auto simp: bit_simps dest: bit_imp_le_length)
  moreover have "(ucast ((ucast v :: 64 word) AND 127 OR 128) :: 8 word) = ucast (v AND 127 OR 128)"
    "(ucast (ucast v :: 64 word) :: 8 word) = ucast v"
    by (rule bit_word_eqI, auto simp: bit_simps bit_127_128_int)+
  ultimately show ?case using 1 by (subst (1 2) varint_loop.simps) simp
qed

subsection \<open>Properties\<close>

text \<open>
  C17: what the variable-length encoders write is read back, whatever follows it: 32-bit and
  64-bit numbers and signed ones through their zigzag form.
\<close>

theorem varints_read_back:
  "GetVarint32 (PutVarint32 [] v @ s) = Some (v, s) \<and> GetVarint64 (PutVarint64 [] w @ s) = Some (w, s) \<and>
   GetVarsignedint64 (PutVarsignedint64 [] w @ s) = Some (w, s)"
  using varint32.dec_enc [of v s] varint64.dec_enc [of w s] varsigned64.dec_enc [of w s]
  by (simp add: PutVarint32_def PutVarint64_def PutVarsignedint64_def)

text \<open>
  the unrolled case distinction of \<open>EncodeVarint32\<close> writes the same bytes as the loop of
  \<open>EncodeVarint64\<close> writes for the number widened to 64 bits.
\<close>

lemma varint32_is_varint64:
  "EncodeVarint32 v = EncodeVarint64 (ucast v)"
  by (simp add: EncodeVarint32_loop EncodeVarint64_def varint_loop_widen)

text \<open>
  C26: no encoder overruns the buffer on its caller's stack: a 32-bit number takes at most 5
  bytes and a 64-bit number at most 10, the sizes of the buffers in \<open>PutVarint32\<close>,
  \<open>PutVarint64\<close> and the functions that put two or three numbers; \<open>VarintLength\<close> is the number
  of bytes written.
\<close>

theorem varint_buffers:
  "length (EncodeVarint32 v) \<le> 5 \<and> length (EncodeVarint64 w) \<le> 10 \<and> VarintLength w = length (EncodeVarint64 w) \<and>
   length (PutVarint32Varint32Varint64 [] v v' w) \<le> 20 \<and> length (PutVarint32Varint64 [] v w) \<le> 15"
  using varint_loop_length [of v 4] varint_loop_length [of v' 4] unat_less_32 [of v] unat_less_32 [of v']
    VarintLength_bound [of w] VarintLength_length [of w]
  by (simp add: EncodeVarint32_loop PutVarint32Varint32Varint64_def PutVarint32Varint64_def)

text \<open>
  the encodings of fixed width do not depend on the byte order of the machine, and are
  read back.
\<close>

lemma fixed_width_portable:
  "EncodeFixed16 le u = EncodeFixed16 True u \<and> EncodeFixed32 le v = EncodeFixed32 True v \<and>
   EncodeFixed64 le w = EncodeFixed64 True w \<and>
   DecodeFixed16 le (EncodeFixed16 True u @ s) = Some u \<and> DecodeFixed32 le (EncodeFixed32 True v @ s) = Some v \<and>
   GetFixed64 (EncodeFixed64 True w @ s) = Some (w, s)"
  using portable_encoders(1) [of u] portable_encoders(2) [of v] portable_encoders(3) [of w] portable_decoder [of "EncodeFixed32 True v @ s"]
    portable_decoder16 [of "EncodeFixed16 True u @ s"] fixed64.dec_enc [of w s]
  by (cases le) (simp_all add: EncodeFixed16_def EncodeFixed32_def DecodeFixed16_def DecodeFixed32_def load_le_bytes)

text \<open>
  a length-prefixed string of less than \<open>2 ^ 32\<close> bytes is read back, also when it was
  put from parts and padded with zeros.
\<close>

lemma length_prefixed_read_back:
  assumes "pad + length (concat parts) < 2 ^ 32"
  shows "GetLengthPrefixedSlice (PutLengthPrefixedSlicePartsWithPadding [] parts pad @ s) =
      Some (concat parts @ replicate pad 0, s) \<and>
    GetLengthPrefixedSlice (PutLengthPrefixedSlice [] (concat parts) @ s) = Some (concat parts, s)"
  using parts_padded [OF assms] assms prefixed.dec_enc [of "concat parts" s] by simp

end
