(* ===== verification/Comparator.thy ===== *)
theory Comparator
  imports Bytes
begin

section \<open>Slices and key comparators\<close>

text \<open>
  \<open>Slice\<close> (\<open>include/rocksdb/slice.h\<close>) and the two built-in comparators
  (\<open>util/comparator.cc\<close>). A slice is the bytes it refers to. The locale \<open>key_order\<close> is the
  contract that tables rely on: a total three-way comparison, a separator that lies
  between two keys and a successor that is not smaller than its key. Both comparators
  satisfy it.
\<close>

subsection \<open>Slices\<close>

text \<open>\<open>memcmp\<close>: the sign of the difference of the first pair of bytes that differ.\<close>

fun memcmp :: "bytes \<Rightarrow> bytes \<Rightarrow> int" where
  "memcmp (a # as) (b # bs) = (if a = b then memcmp as bs else if a < b then - 1 else 1)"
| "memcmp _ _ = 0"

definition slice_compare :: "bytes \<Rightarrow> bytes \<Rightarrow> int" where
  "slice_compare a b =
     (let min_len = (if length a < length b then length a else length b);
          r = memcmp (take min_len a) (take min_len b)
      in if r = 0 then
           if length a < length b then - 1 else if length a > length b then 1 else r
         else r)"

definition slice_equal :: "bytes \<Rightarrow> bytes \<Rightarrow> bool" where
  "slice_equal x y \<longleftrightarrow> length x = length y \<and> memcmp x y = 0"

definition starts_with :: "bytes \<Rightarrow> bytes \<Rightarrow> bool" where
  "starts_with s x \<longleftrightarrow> length s \<ge> length x \<and> memcmp (take (length x) s) x = 0"

definition ends_with :: "bytes \<Rightarrow> bytes \<Rightarrow> bool" where
  "ends_with s x \<longleftrightarrow> length s \<ge> length x \<and> memcmp (drop (length s - length x) s) x = 0"

text \<open>\<open>remove_prefix\<close> and \<open>remove_suffix\<close>: the assertion fails beyond the slice.\<close>

definition remove_prefix :: "bytes \<Rightarrow> nat \<Rightarrow> bytes option" where
  "remove_prefix s n = (if n \<le> length s then Some (drop n s) else None)"

definition remove_suffix :: "bytes \<Rightarrow> nat \<Rightarrow> bytes option" where
  "remove_suffix s n = (if n \<le> length s then Some (take (length s - n) s) else None)"

text \<open>The loop that counts equal leading bytes; the two comparators have it inline.\<close>

fun difference_offset :: "bytes \<Rightarrow> bytes \<Rightarrow> nat" where
  "difference_offset (a # as) (b # bs) = (if a \<noteq> b then 0 else Suc (difference_offset as bs))"
| "difference_offset _ _ = 0"

subsection \<open>The bytewise comparator\<close>

text \<open>The loop that skips bytes \<open>0xff\<close> of \<open>start\<close> and increments the first other byte.\<close>

function bump :: "bytes \<Rightarrow> nat \<Rightarrow> bytes" where
  "bump start i =
     (if i < length start then
        if start ! i < 0xff then take i start @ [start ! i + 1] else bump start (i + 1)
      else start)"
  by pat_completeness auto
termination by (relation "measure (\<lambda>(start, i). length start - i)") auto

declare bump.simps [simp del]

definition FindShortestSeparator :: "bytes \<Rightarrow> bytes \<Rightarrow> bytes" where
  "FindShortestSeparator start limit =
     (let min_length = min (length start) (length limit);
          diff_index = difference_offset start limit
      in if diff_index \<ge> min_length then start
         else
           let start_byte = start ! diff_index;
               limit_byte = limit ! diff_index
           in if start_byte \<ge> limit_byte then start
              else if diff_index < length limit - 1 \<or> unat start_byte + 1 < unat limit_byte
              then take diff_index start @ [start_byte + 1]
              else bump start (diff_index + 1))"

function short_successor :: "bytes \<Rightarrow> nat \<Rightarrow> bytes" where
  "short_successor key i =
     (if i < length key then
        if key ! i \<noteq> 0xff then take i key @ [key ! i + 1] else short_successor key (i + 1)
      else key)"
  by pat_completeness auto
termination by (relation "measure (\<lambda>(key, i). length key - i)") auto

declare short_successor.simps [simp del]

definition FindShortSuccessor :: "bytes \<Rightarrow> bytes" where
  "FindShortSuccessor key = short_successor key 0"

definition IsSameLengthImmediateSuccessor :: "bytes \<Rightarrow> bytes \<Rightarrow> bool" where
  "IsSameLengthImmediateSuccessor s t =
     (if length s \<noteq> length t \<or> length s = 0 then False
      else
        let diff_ind = difference_offset s t
        in if diff_ind \<ge> length s then False
           else if s ! diff_ind \<noteq> 0xff \<and> unat (s ! diff_ind) + 1 = unat (t ! diff_ind)
           then list_all (\<lambda>i. s ! i = 0xff \<and> t ! i = 0) [diff_ind + 1..<length s]
           else False)"

subsection \<open>The reverse bytewise comparator\<close>

definition reverse_compare :: "bytes \<Rightarrow> bytes \<Rightarrow> int" where
  "reverse_compare a b = - slice_compare a b"

definition ReverseFindShortestSeparator :: "bytes \<Rightarrow> bytes \<Rightarrow> bytes" where
  "ReverseFindShortestSeparator start limit =
     (let min_length = min (length start) (length limit);
          diff_index = difference_offset start limit
      in if diff_index = min_length then start
         else
           let start_byte = start ! diff_index;
               limit_byte = limit ! diff_index
           in if start_byte > limit_byte \<and> diff_index < length start - 1
              then take (diff_index + 1) start else start)"

definition ReverseFindShortSuccessor :: "bytes \<Rightarrow> bytes" where
  "ReverseFindShortSuccessor key = key"

subsection \<open>The order of slices\<close>

lemma slice_compare_simps [simp]:
  "slice_compare [] [] = 0" "slice_compare [] (b # bs) = - 1" "slice_compare (a # as) [] = 1"
  "slice_compare (a # as) (b # bs) = (if a = b then slice_compare as bs else if a < b then - 1 else 1)"
  by (simp_all add: slice_compare_def Let_def)

lemma slice_compare_order: "slice_compare a b = (if a < b then - 1 else if a = b then 0 else 1)"
proof (induction a arbitrary: b)
  case Nil
  show ?case by (cases b) auto
next
  case (Cons x a)
  then show ?case by (cases b) auto
qed

lemma memcmp_same_length: "length a = length b \<Longrightarrow> memcmp a b = 0 \<longleftrightarrow> a = b"
  by (induction a b rule: list_induct2) auto

lemma slice_equal_eq: "slice_equal x y \<longleftrightarrow> x = y"
  by (auto simp: slice_equal_def memcmp_same_length)

lemma starts_with_prefix: "starts_with s x \<longleftrightarrow> (\<exists>r. s = x @ r)"
proof
  assume "starts_with s x"
  then have "take (length x) s = x" using memcmp_same_length [of "take (length x) s" x] by (simp add: starts_with_def min_def)
  then show "\<exists>r. s = x @ r" by (metis append_take_drop_id)
qed (auto simp: starts_with_def memcmp_same_length)

lemma append_less_append [simp]: "(p @ x :: 'a::linorder list) < p @ y \<longleftrightarrow> x < y"
  by (induction p) auto

lemma append_le_append [simp]: "(p @ x :: 'a::linorder list) \<le> p @ y \<longleftrightarrow> x \<le> y"
  by (induction p) auto

lemma append_not_less [simp]: "\<not> (p @ x :: 'a::linorder list) < p"
  by (induction p) auto

lemma difference_split:
  obtains p as' bs' where "as = p @ as'" "bs = p @ bs'" "length p = difference_offset as bs"
    "as' = [] \<or> bs' = [] \<or> hd as' \<noteq> hd bs'"
proof (induction as bs arbitrary: thesis rule: difference_offset.induct)
  case (1 a as b bs)
  show ?case
  proof (cases "a = b")
    case True
    with 1(1) obtain p as' bs' where "as = p @ as'" "bs = p @ bs'" "length p = difference_offset as bs"
      "as' = [] \<or> bs' = [] \<or> hd as' \<noteq> hd bs'" by blast
    with True show ?thesis by (intro 1(2) [of "a # p" as' bs']) auto
  qed (auto intro: 1(2) [of "[]"])
qed auto

lemma difference_offset_append: "a \<noteq> b \<Longrightarrow> difference_offset (p @ a # x) (p @ b # y) = length p"
  by (induction p) auto

lemma byte_succ:
  assumes "(s :: 8 word) < l"
  shows "unat (s + 1) = unat s + 1" "s < s + 1"
proof -
  have "unat s + 1 < 2 ^ 8" using assms unat_byte [of l] by (simp add: word_less_nat_alt)
  then show e: "unat (s + 1) = unat s + 1" by (simp add: unat_word_ariths)
  then show "s < s + 1" by (simp add: word_less_nat_alt)
qed

lemma bump_spec:
  assumes "i \<le> length x"
  shows "x \<le> bump x i \<and> length (bump x i) \<le> length x \<and> (\<exists>r. bump x i = take i x @ r)"
  using assms
proof (induction x i rule: bump.induct)
  case (1 x i)
  show ?case
  proof (cases "i < length x")
    case False
    then show ?thesis using 1(2) by (subst (1 2 3) bump.simps) auto
  next
    case True
    note x = id_take_nth_drop [OF True]
    show ?thesis
    proof (cases "x ! i < 0xff")
      case lt: True
      then have "x \<le> take i x @ [x ! i + 1]"
        using byte_succ(2) [OF lt] by (subst x) simp
      then show ?thesis using True lt by (subst (1 2 3) bump.simps) auto
    next
      case ge: False
      with True 1(1) [OF True ge] have b: "bump x i = bump x (i + 1)" by (subst bump.simps) simp
      from 1(1) [OF True ge] True obtain r where
        r: "x \<le> bump x (i + 1)" "length (bump x (i + 1)) \<le> length x" "bump x (i + 1) = take (i + 1) x @ r" by auto
      then have "bump x (i + 1) = take i x @ (x ! i # r)" using True by (simp add: take_Suc_conv_app_nth)
      with r b show ?thesis by auto
    qed
  qed
qed

lemma separator_between:
  assumes "start < limit"
  shows "start \<le> FindShortestSeparator start limit \<and> FindShortestSeparator start limit < limit"
proof -
  obtain p s l where p: "start = p @ s" "limit = p @ l" "length p = difference_offset start limit"
    "s = [] \<or> l = [] \<or> hd s \<noteq> hd l" using difference_split .
  show ?thesis
  proof (cases "s = []")
    case True
    with p have "FindShortestSeparator start limit = start" by (simp add: FindShortestSeparator_def Let_def)
    with assms show ?thesis by simp
  next
    case False
    with assms p obtain a s' b l' where sl: "s = a # s'" "l = b # l'" "a < b"
      by (cases s; cases l) auto
    note succ = byte_succ [OF sl(3)]
    note d = difference_offset_append [OF less_imp_neq [OF sl(3)]]
    show ?thesis
    proof (cases "l' \<noteq> [] \<or> unat a + 1 < unat b")
      case True
      then have "FindShortestSeparator start limit = p @ [a + 1]"
        using sl p(1,2) by (simp add: FindShortestSeparator_def Let_def d nth_append not_le min_def)
      moreover have "a + 1 < b \<or> a + 1 = b \<and> l' \<noteq> []"
        using True sl(3) succ(1) by (auto simp: word_less_nat_alt word_unat_eq_iff)
      ultimately show ?thesis using sl succ(2) p(1,2) by (auto simp: neq_Nil_conv)
    next
      case False
      then have r: "FindShortestSeparator start limit = bump start (length p + 1)"
        using sl less_le_not_le [of a b] p(1,2) by (simp add: FindShortestSeparator_def Let_def d nth_append min_def)
      obtain r where "start \<le> bump start (length p + 1)" "bump start (length p + 1) = p @ a # r"
        using bump_spec [of "length p + 1" start] p(1) sl(1) by auto
      with r sl p(2) show ?thesis by simp
    qed
  qed
qed

lemma successor_ge: "key \<le> FindShortSuccessor key"
proof -
  have "key \<le> short_successor key i" for i
  proof (induction key i rule: short_successor.induct)
    case (1 key i)
    show ?case
    proof (cases "i < length key \<and> key ! i \<noteq> 0xff")
      case True
      then have "key ! i < 0xff"
        using unat_byte [of "key ! i"] by (auto simp: word_less_nat_alt word_unat_eq_iff)
      then have "key ! i < key ! i + 1" by (rule byte_succ(2))
      then have "key \<le> take i key @ [key ! i + 1]"
        using id_take_nth_drop [of i key] True by (metis Cons_le_Cons append_le_append)
      with True show ?thesis by (subst short_successor.simps) simp
    next
      case False
      with 1 show ?thesis by (subst short_successor.simps) auto
    qed
  qed
  then show ?thesis by (simp add: FindShortSuccessor_def)
qed

lemma reverse_separator_between:
  assumes "limit < start"
  shows "ReverseFindShortestSeparator start limit \<le> start \<and> limit < ReverseFindShortestSeparator start limit"
proof -
  obtain p s l where p: "start = p @ s" "limit = p @ l" "length p = difference_offset start limit"
    "s = [] \<or> l = [] \<or> hd s \<noteq> hd l" using difference_split .
  show ?thesis
  proof (cases "l = []")
    case True
    with p have "ReverseFindShortestSeparator start limit = start"
      by (auto simp: ReverseFindShortestSeparator_def Let_def)
    with assms show ?thesis by simp
  next
    case False
    with assms p obtain a s' b l' where sl: "s = a # s'" "l = b # l'" "b < a"
      by (cases s; cases l) auto
    have d: "difference_offset (p @ a # s') (p @ b # l') = length p"
      using sl(3) by (intro difference_offset_append) auto
    have "ReverseFindShortestSeparator start limit \<in> {start, p @ [a]}"
      using sl p(1,2) by (simp add: ReverseFindShortestSeparator_def Let_def d nth_append)
    then show ?thesis using sl p(1,2) assms by auto
  qed
qed

subsection \<open>The contract of a comparator\<close>

locale key_order =
  fixes cmp :: "bytes \<Rightarrow> bytes \<Rightarrow> int"
    and sep :: "bytes \<Rightarrow> bytes \<Rightarrow> bytes"
    and successor :: "bytes \<Rightarrow> bytes"
  assumes cmp_zero: "cmp a b = 0 \<longleftrightarrow> a = b"
    and cmp_swap: "cmp a b < 0 \<longleftrightarrow> 0 < cmp b a"
    and cmp_trans: "cmp a b < 0 \<Longrightarrow> cmp b c < 0 \<Longrightarrow> cmp a c < 0"
    and sep_law: "cmp a b < 0 \<Longrightarrow> cmp a (sep a b) \<le> 0 \<and> cmp (sep a b) b < 0"
    and succ_law: "cmp a (successor a) \<le> 0"
begin

lemma cmp_refl [simp]: "cmp a a = 0"
  by (simp add: cmp_zero)

lemma cmp_le_trans: "cmp a b \<le> 0 \<Longrightarrow> cmp b c \<le> 0 \<Longrightarrow> cmp a c \<le> 0"
  by (metis cmp_trans cmp_zero dual_order.order_iff_strict)

lemma cmp_less_le_trans: "cmp a b < 0 \<Longrightarrow> cmp b c \<le> 0 \<Longrightarrow> cmp a c < 0"
  by (metis cmp_trans cmp_zero dual_order.order_iff_strict)

text \<open>
  The keys of an index over consecutive blocks of a sorted table: between two blocks the
  separator of the last key of the one and the first key of the next, after the last
  block the successor of its last key. This is what the separators are made for, stated
  on user keys; the block builder that writes an index is not modelled.
\<close>

fun index_keys :: "bytes list list \<Rightarrow> bytes list" where
  "index_keys [] = []"
| "index_keys [b] = [successor (last b)]"
| "index_keys (b # c # bs) = sep (last b) (hd c) # index_keys (c # bs)"

lemma last_max: "sorted_wrt (\<lambda>a b. cmp a b < 0) b \<Longrightarrow> k \<in> set b \<Longrightarrow> cmp k (last b) \<le> 0"
  by (induction b) (auto simp: less_imp_le)

lemma hd_min: "sorted_wrt (\<lambda>a b. cmp a b < 0) b \<Longrightarrow> k \<in> set b \<Longrightarrow> cmp (hd b) k \<le> 0"
  by (cases b) (auto simp: less_imp_le)

text \<open>The first index key that is not smaller than a stored key is that of its block.\<close>

lemma index_routes:
  assumes "sorted_wrt (\<lambda>a b. cmp a b < 0) (concat bs)" "\<forall>b\<in>set bs. b \<noteq> []" "i < length bs" "k \<in> set (bs ! i)"
  shows "cmp k (index_keys bs ! i) \<le> 0 \<and> (\<forall>j<i. cmp (index_keys bs ! j) k < 0)"
  using assms
proof (induction bs arbitrary: i rule: index_keys.induct)
  case (2 b)
  then have "cmp k (last b) \<le> 0" by (intro last_max) auto
  then show ?case using 2 succ_law [of "last b"] cmp_le_trans by auto
next
  case (3 b c bs)
  have sb: "sorted_wrt (\<lambda>a b. cmp a b < 0) b" and sr: "sorted_wrt (\<lambda>a b. cmp a b < 0) (concat (c # bs))"
    and lt: "\<forall>x\<in>set b. \<forall>y\<in>set (concat (c # bs)). cmp x y < 0"
    using 3(2) by (simp_all add: sorted_wrt_append)
  have ne: "b \<noteq> []" "c \<noteq> []" using 3(3) by auto
  have sep: "cmp (last b) (sep (last b) (hd c)) \<le> 0" "cmp (sep (last b) (hd c)) (hd c) < 0"
    using sep_law lt ne by simp_all
  show ?case
  proof (cases i)
    case 0
    then show ?thesis using last_max [OF sb] sep(1) 3(5) cmp_le_trans by auto
  next
    case (Suc i')
    have "k \<in> set (concat (c # bs))" using 3(4,5) Suc by (auto simp: in_set_conv_nth) (metis less_Suc_eq_0_disj nth_Cons_0 nth_Cons_Suc nth_mem)
    then have "cmp (hd c) k \<le> 0" using hd_min [OF sr] ne by simp
    then have first: "cmp (sep (last b) (hd c)) k < 0" using sep(2) cmp_less_le_trans by blast
    have "cmp k (index_keys (c # bs) ! i') \<le> 0 \<and> (\<forall>j<i'. cmp (index_keys (c # bs) ! j) k < 0)"
      using 3(1) [OF sr, of i'] 3(3-5) Suc by simp
    with first Suc show ?thesis by (auto simp: less_Suc_eq_0_disj)
  qed
qed simp

end

interpretation bytewise: key_order slice_compare FindShortestSeparator FindShortSuccessor
proof unfold_locales
  show "slice_compare a b < 0 \<Longrightarrow> slice_compare a (FindShortestSeparator a b) \<le> 0 \<and>
      slice_compare (FindShortestSeparator a b) b < 0" for a b
    using separator_between [of a b] by (auto simp: slice_compare_order split: if_splits)
  show "slice_compare a (FindShortSuccessor a) \<le> 0" for a
    using successor_ge [of a] by (auto simp: slice_compare_order)
qed (auto simp: slice_compare_order split: if_splits)

lemma reverse_compare_order: "reverse_compare a b = (if b < a then - 1 else if a = b then 0 else 1)"
  by (auto simp: reverse_compare_def slice_compare_order)

interpretation reverse_bytewise: key_order reverse_compare ReverseFindShortestSeparator ReverseFindShortSuccessor
proof unfold_locales
  show "reverse_compare a b < 0 \<Longrightarrow> reverse_compare a (ReverseFindShortestSeparator a b) \<le> 0 \<and>
      reverse_compare (ReverseFindShortestSeparator a b) b < 0" for a b
    using reverse_separator_between [of b a] by (auto simp: reverse_compare_order split: if_splits)
qed (auto simp: reverse_compare_order ReverseFindShortSuccessor_def split: if_splits)

subsection \<open>Immediate successors\<close>

lemma be_value_append: "be_value (as @ bs) = 256 ^ length bs * be_value as + be_value bs"
  by (simp add: be_value_def le_value_append)

lemma be_value_zeros: "be_value (replicate n 0) = 0"
  by (induction n) (auto simp: be_value_Cons, simp add: be_value_def)

lemma be_value_ones: "be_value (replicate n 0xff) + 1 = 256 ^ n"
  by (induction n) (auto simp: be_value_Cons, simp add: be_value_def)

lemma successor_value:
  assumes "IsSameLengthImmediateSuccessor s t"
  shows "length s = length t \<and> be_value t = be_value s + 1"
proof -
  obtain p s' t' where p: "s = p @ s'" "t = p @ t'" "length p = difference_offset s t"
    "s' = [] \<or> t' = [] \<or> hd s' \<noteq> hd t'" using difference_split .
  have len: "length s = length t" using assms by (auto simp: IsSameLengthImmediateSuccessor_def Let_def split: if_splits)
  have a: "difference_offset s t < length s" "unat (s ! length p) + 1 = unat (t ! length p)"
    "\<forall>i\<in>set [length p + 1..<length s]. s ! i = 0xff \<and> t ! i = 0"
    using assms p(3) by (auto simp: IsSameLengthImmediateSuccessor_def Let_def list_all_iff split: if_splits)
  then obtain a as b bs where st: "s' = a # as" "t' = b # bs" using p len by (cases s'; cases t') auto
  have tail: "as ! i = 0xff \<and> bs ! i = 0" if "i < length as" for i
  proof -
    have "length p + 1 + i \<in> set [length p + 1..<length s]" using that unfolding p(1) st by auto
    from bspec [OF a(3) this] show ?thesis unfolding p(1,2) st by (simp add: nth_append)
  qed
  have "as = replicate (length as) 0xff" "bs = replicate (length as) 0"
    using tail len unfolding p(1,2) st by (auto intro!: nth_equalityI)
  then obtain n where n: "as = replicate n 0xff" "bs = replicate n 0" by blast
  have "unat a + 1 = unat b" using a(2) unfolding p(1,2) st by (simp add: nth_append)
  then show ?thesis using len be_value_ones [of n] unfolding p(1,2) st n
    by (simp add: be_value_append be_value_Cons be_value_zeros flip: \<open>unat a + 1 = unat b\<close>)
qed

lemma successor_of_value:
  assumes "length s = length t" "be_value t = be_value s + 1"
  shows "IsSameLengthImmediateSuccessor s t"
proof -
  obtain p s' t' where p: "s = p @ s'" "t = p @ t'" "length p = difference_offset s t"
    "s' = [] \<or> t' = [] \<or> hd s' \<noteq> hd t'" using difference_split .
  have len: "length s' = length t'" using assms(1) p(1,2) by simp
  have "s' \<noteq> []" using assms len unfolding p(1,2) by auto
  then obtain a as b bs where st: "s' = a # as" "t' = b # bs" "a \<noteq> b" "length as = length bs"
    using p(4) len by (cases s'; cases t') auto
  define M :: nat where "M = 256 ^ length bs"
  have eq: "M * unat b + be_value bs = M * unat a + be_value as + 1"
    using assms(2) len unfolding p(1,2) st M_def by (simp add: be_value_append be_value_Cons st(4))
  have bound: "be_value as < M" "be_value bs < M"
    using be_value_bound [of as] be_value_bound [of bs] st(4) by (simp_all add: M_def)
  have "unat a < unat b"
  proof (rule ccontr)
    assume "\<not> unat a < unat b"
    then have "unat b + 1 \<le> unat a" using st(3) by (metis Suc_eq_plus1 Suc_leI linorder_neqE_nat word_unat_eq_iff)
    then have "M * (unat b + 1) \<le> M * unat a" by (rule mult_le_mono2)
    then have "M * unat b + M \<le> M * unat a" by (simp only: distrib_left mult_1_right)
    then show False using eq bound by linarith
  qed
  moreover have "\<not> unat a + 2 \<le> unat b"
  proof
    assume "unat a + 2 \<le> unat b"
    then have "M * (unat a + 2) \<le> M * unat b" by (rule mult_le_mono2)
    then have "M * unat a + M * 2 \<le> M * unat b" by (simp only: distrib_left)
    then show False using eq bound by linarith
  qed
  ultimately have ab: "unat a + 1 = unat b" by linarith
  then have "M * unat b = M * unat a + M" by (simp only: distrib_left mult_1_right flip: ab)
  then have "be_value as + 1 = M" "be_value bs = 0" using eq bound by linarith+
  then have "be_value as = be_value (replicate (length bs) 0xff)" "be_value bs = be_value (replicate (length bs) 0)"
    using be_value_ones [of "length bs"] be_value_zeros [of "length bs"] unfolding M_def by linarith+
  then have "as = replicate (length bs) 0xff" "bs = replicate (length bs) 0"
    using st(4) by (metis be_value_inj length_replicate)+
  then obtain n where n: "as = replicate n 0xff" "bs = replicate n 0" by blast
  have tail: "list_all (\<lambda>i. s ! i = 0xff \<and> t ! i = 0) [length p + 1..<length s]"
  proof -
    have "s ! i = 0xff \<and> t ! i = 0" if "length p + 1 \<le> i" "i < length s" for i
    proof -
      have "\<exists>j. i = length p + Suc j" using le_Suc_ex [OF that(1)] by auto
      then obtain j where "i = length p + Suc j" ..
      then show ?thesis using that(2) unfolding p(1,2) st n by (simp add: nth_append)
    qed
    then show ?thesis by (auto simp: list_all_iff)
  qed
  have "s ! length p = a" "t ! length p = b" "length p < length s" unfolding p(1,2) st by simp_all
  moreover have "a \<noteq> 0xff" using ab unat_byte [of b] by auto
  moreover have "length s \<noteq> 0" using \<open>s' \<noteq> []\<close> p(1) by simp
  ultimately show ?thesis
    unfolding IsSameLengthImmediateSuccessor_def Let_def p(3) [symmetric] using assms(1) ab tail by simp
qed

subsection \<open>Properties\<close>

text \<open>
  comparing slices is the lexicographic order of their bytes as unsigned numbers, a
  proper prefix being smaller; the equality of slices is equality of their bytes.
\<close>

lemma compare_is_lexicographic:
  "slice_compare a b = (if a < b then - 1 else if a = b then 0 else 1) \<and> (slice_equal a b \<longleftrightarrow> a = b)"
  by (simp add: slice_compare_order slice_equal_eq)

text \<open>
  C19: the shortened keys keep their place. For both comparators the separator of two keys in
  order is not before the first and is before the second, and the successor of a key is not
  before it.
\<close>

theorem separators_keep_order:
  "(slice_compare a b < 0 \<longrightarrow>
     slice_compare a (FindShortestSeparator a b) \<le> 0 \<and> slice_compare (FindShortestSeparator a b) b < 0) \<and>
   slice_compare a (FindShortSuccessor a) \<le> 0 \<and>
   (reverse_compare a b < 0 \<longrightarrow>
     reverse_compare a (ReverseFindShortestSeparator a b) \<le> 0 \<and> reverse_compare (ReverseFindShortestSeparator a b) b < 0) \<and>
   reverse_compare a (ReverseFindShortSuccessor a) \<le> 0"
  using bytewise.sep_law bytewise.succ_law reverse_bytewise.sep_law reverse_bytewise.succ_law by blast

theorem separators_keep_order_witness:
  "slice_compare [1, 2, 3] (FindShortestSeparator [1, 2, 3] [1, 5]) \<le> 0 \<and>
   slice_compare (FindShortestSeparator [1, 2, 3] [1, 5]) [1, 5] < 0"
  using separators_keep_order [of "[1, 2, 3]" "[1, 5]"] by (simp add: slice_compare_order)

text \<open>
  C16: an index made of separators finds every key. For consecutive blocks of a sorted table,
  with a separator between neighbours and a successor after the last block, the first
  index key that is not before a stored key is the one of the block that holds it.
\<close>

theorem index_finds_block:
  assumes "sorted_wrt (\<lambda>a b. slice_compare a b < 0) (concat blocks)" "\<forall>b\<in>set blocks. b \<noteq> []"
    "i < length blocks" "key \<in> set (blocks ! i)"
  shows "slice_compare key (bytewise.index_keys blocks ! i) \<le> 0 \<and>
    (\<forall>j<i. slice_compare (bytewise.index_keys blocks ! j) key < 0)"
  using bytewise.index_routes [OF assms] .

theorem index_finds_block_witness:
  "slice_compare [3, 7] (bytewise.index_keys [[[1], [2]], [[3, 7], [4]]] ! 1) \<le> 0 \<and>
   slice_compare (bytewise.index_keys [[[1], [2]], [[3, 7], [4]]] ! 0) [3, 7] < 0"
  using index_finds_block [of "[[[1], [2]], [[3, 7], [4]]]" 1 "[3, 7]"] by (simp add: slice_compare_order)

text \<open>
  C21: \<open>IsSameLengthImmediateSuccessor\<close> answers yes exactly when the two keys have the same
  length and the second, read as a big-endian number, is one more than the first.
\<close>

theorem immediate_successor_iff:
  "IsSameLengthImmediateSuccessor s t \<longleftrightarrow> length s = length t \<and> be_value t = be_value s + 1"
  using successor_value [of s t] successor_of_value [of s t] by blast

end
