(* ===== verification/Versions.thy ===== *)
theory Versions
  imports Comparator "HOL-Library.Product_Lexorder"
begin

section \<open>Files and versions of the LSM tree\<close>

text \<open>
  \<open>FileMetaData\<close> and the parts of \<open>VersionStorageInfo\<close> (\<open>db/version_set.cc\<close>) that the
  compaction picker uses: the files of each level, which of them overlap a range of keys,
  and which are marked for compaction. An internal key is its user key and its 64-bit
  footer (sequence number and type); user keys are compared bytewise, the drivers set no
  other comparator. A file of the model is a value: what the source decides by the address
  of a file is decided by its number. Assertions are not modelled, the release build has
  none; sizes are natural numbers, added and multiplied modulo \<open>2 ^ 64\<close> as in the source.
\<close>

subsection \<open>Internal keys\<close>

type_synonym internal_key = "bytes \<times> 64 word"

definition user_key :: "internal_key \<Rightarrow> bytes" where
  "user_key k = fst k"

text \<open>\<open>InternalKeyComparator::Compare\<close>: increasing user keys, decreasing footers.\<close>

definition icmp_compare :: "internal_key \<Rightarrow> internal_key \<Rightarrow> int" where
  "icmp_compare a b =
     (let r = slice_compare (user_key a) (user_key b)
      in if r = 0 then if snd a > snd b then - 1 else if snd a < snd b then 1 else r else r)"

definition PackSequenceAndType :: "64 word \<Rightarrow> 64 word \<Rightarrow> 64 word" where
  "PackSequenceAndType seq t = push_bit 8 seq OR t"

definition kRangeTombstoneSentinel :: "64 word" where
  "kRangeTombstoneSentinel = PackSequenceAndType (push_bit 56 1 - 1) 0xF"

text \<open>
  The comparison of the boundaries of files: only the sentinel, with which a range deletion
  ends a file before a key, is told apart from other entries of the same user key.
\<close>

definition sstableKeyCompare :: "internal_key \<Rightarrow> internal_key \<Rightarrow> int" where
  "sstableKeyCompare a b =
     (let c = slice_compare (user_key a) (user_key b)
      in if c \<noteq> 0 then c
         else if snd a = kRangeTombstoneSentinel then
           if snd b \<noteq> kRangeTombstoneSentinel then - 1 else 0
         else if snd b = kRangeTombstoneSentinel then 1
         else 0)"

subsection \<open>Files and levels\<close>

record file_meta =
  fnumber :: nat
  file_size :: nat
  compensated_file_size :: nat
  being_compacted :: bool
  marked_for_compaction :: bool
  modification_time :: nat
  smallest :: internal_key
  largest :: internal_key

text \<open>
  \<open>VersionStorageInfo\<close>: the files of each level, newest first in level 0 and in the order of
  their keys in the others, and the files marked for periodic compaction and for
  compaction, with their level.
\<close>

record version =
  levels :: "file_meta list list"
  marked_periodic :: "(nat \<times> file_meta) list"
  marked :: "(nat \<times> file_meta) list"

definition num_levels :: "version \<Rightarrow> nat" where
  "num_levels v = length (levels v)"

definition LevelFiles :: "version \<Rightarrow> nat \<Rightarrow> file_meta list" where
  "LevelFiles v l = (if l < num_levels v then levels v ! l else [])"

definition num_non_empty_levels :: "version \<Rightarrow> nat" where
  "num_non_empty_levels v = length (dropWhile (\<lambda>fs. fs = []) (rev (levels v)))"

definition MaxOutputLevel :: "version \<Rightarrow> bool \<Rightarrow> nat" where
  "MaxOutputLevel v ingest_behind = (if ingest_behind then num_levels v - 2 else num_levels v - 1)"

definition TotalFileSize :: "file_meta list \<Rightarrow> nat" where
  "TotalFileSize fs = sum64 (map file_size fs)"

subsection \<open>Files that overlap a range\<close>

text \<open>
  Levels from 1 on. \<open>std::lower_bound\<close> and \<open>std::upper_bound\<close> give the length of the prefix
  that satisfies the comparison. With \<open>within_interval\<close> the boundaries then move until
  the files on their two sides share no user key.
\<close>

function clean_start :: "file_meta list \<Rightarrow> nat \<Rightarrow> nat" where
  "clean_start fs s =
     (if s < length fs \<and> sstableKeyCompare (largest (fs ! (s - 1))) (smallest (fs ! s)) = 0
      then clean_start fs (s + 1) else s)"
  by pat_completeness auto
termination by (relation "measure (\<lambda>(fs, s). length fs - s)") auto

declare clean_start.simps [simp del]

fun clean_end :: "file_meta list \<Rightarrow> nat \<Rightarrow> nat \<Rightarrow> nat" where
  "clean_end fs s 0 = 0"
| "clean_end fs s (Suc e) =
     (if Suc e > s \<and> sstableKeyCompare (largest (fs ! e)) (smallest (fs ! Suc e)) = 0
      then clean_end fs s e else Suc e)"

definition range_start :: "file_meta list \<Rightarrow> internal_key \<Rightarrow> int \<Rightarrow> bool \<Rightarrow> nat" where
  "range_start fs begin_key hint_index within_interval =
     (let file_key = (\<lambda>f. if within_interval then smallest f else largest f);
          start_index = length (takeWhile (\<lambda>f. sstableKeyCompare (file_key f) begin_key < 0)
            (take (if hint_index = - 1 then length fs else nat hint_index) fs))
      in if start_index > 0 \<and> within_interval then clean_start fs start_index else start_index)"

definition range_end :: "file_meta list \<Rightarrow> nat \<Rightarrow> internal_key \<Rightarrow> bool \<Rightarrow> nat" where
  "range_end fs start_index end_key within_interval =
     (let file_key = (\<lambda>f. if within_interval then largest f else smallest f);
          end_index = start_index + length (takeWhile (\<lambda>f. \<not> sstableKeyCompare end_key (file_key f) < 0)
            (drop start_index fs))
      in if end_index < length fs \<and> within_interval then clean_end fs start_index end_index else end_index)"

definition GetOverlappingInputsRangeBinarySearch ::
  "file_meta list \<Rightarrow> internal_key \<Rightarrow> internal_key \<Rightarrow> int \<Rightarrow> bool \<Rightarrow> file_meta list \<times> int" where
  "GetOverlappingInputsRangeBinarySearch fs begin_key end_key hint_index within_interval =
     (let start_index = range_start fs begin_key hint_index within_interval;
          end_index = range_end fs start_index end_key within_interval
      in if start_index = end_index then ([], - 1)
         else (take (end_index - start_index) (drop start_index fs), int start_index))"

text \<open>
  Level 0: one pass over the indices that are left, which returns those kept and those
  taken, with the range that grows with each file taken; passes until none is taken.
\<close>

fun l0_pass :: "file_meta list \<Rightarrow> nat list \<Rightarrow> bytes \<Rightarrow> bytes \<Rightarrow> nat list \<times> nat list \<times> bytes \<times> bytes" where
  "l0_pass fs [] user_begin user_end = ([], [], user_begin, user_end)"
| "l0_pass fs (i # index) user_begin user_end =
     (let file_start = user_key (smallest (fs ! i));
          file_limit = user_key (largest (fs ! i))
      in if slice_compare file_limit user_begin < 0 \<or> slice_compare file_start user_end > 0 then
           let (kept, taken, b, e) = l0_pass fs index user_begin user_end in (i # kept, taken, b, e)
         else
           let (kept, taken, b, e) = l0_pass fs index
                 (if slice_compare file_start user_begin < 0 then file_start else user_begin)
                 (if slice_compare file_limit user_end > 0 then file_limit else user_end)
           in (kept, i # taken, b, e))"

lemma l0_pass_length:
  "l0_pass fs index b e = (kept, taken, b', e') \<Longrightarrow> length kept + length taken = length index"
  by (induction fs index b e arbitrary: kept taken rule: l0_pass.induct)
    (auto simp: Let_def split: prod.splits if_splits)

lemma l0_pass_shorter: "(kept, taken, b', e') = l0_pass fs index b e \<Longrightarrow> taken \<noteq> [] \<Longrightarrow> length kept < length index"
  using l0_pass_length [of fs index b e kept taken b' e'] by (cases taken) auto

function l0_loop :: "file_meta list \<Rightarrow> nat list \<Rightarrow> bytes \<Rightarrow> bytes \<Rightarrow> nat list" where
  "l0_loop fs index user_begin user_end =
     (if index = [] then []
      else case l0_pass fs index user_begin user_end of
        (kept, taken, b, e) \<Rightarrow> if taken = [] then [] else taken @ l0_loop fs kept b e)"
  by pat_completeness auto
termination
  by (relation "measure (\<lambda>(fs, index, b, e). length index)") (use l0_pass_shorter in \<open>fastforce+\<close>)

declare l0_loop.simps [simp del]

text \<open>
  \<open>GetOverlappingInputs\<close> for a range with both ends. The second result is \<open>*file_index\<close>, which
  all callers pass together with the hint; it is left alone when the level is empty.
\<close>

definition GetOverlappingInputs ::
  "version \<Rightarrow> nat \<Rightarrow> internal_key \<Rightarrow> internal_key \<Rightarrow> int \<Rightarrow> file_meta list \<times> int" where
  "GetOverlappingInputs v level begin_key end_key hint_index =
     (if level \<ge> num_non_empty_levels v then ([], hint_index)
      else if level > 0
      then GetOverlappingInputsRangeBinarySearch (LevelFiles v level) begin_key end_key hint_index False
      else
        let fs = LevelFiles v level;
            taken = l0_loop fs [0..<length fs] (user_key begin_key) (user_key end_key)
        in (map (\<lambda>i. fs ! i) taken, if taken = [] then - 1 else int (hd taken)))"

definition GetCleanInputsWithinInterval ::
  "version \<Rightarrow> nat \<Rightarrow> internal_key \<Rightarrow> internal_key \<Rightarrow> int \<Rightarrow> file_meta list" where
  "GetCleanInputsWithinInterval v level begin_key end_key hint_index =
     (if level \<ge> num_non_empty_levels v \<or> level = 0 \<or> LevelFiles v level = [] then []
      else fst (GetOverlappingInputsRangeBinarySearch (LevelFiles v level) begin_key end_key hint_index True))"

subsection \<open>Files marked for compaction\<close>

definition ComputeFilesMarkedForCompaction :: "version \<Rightarrow> nat \<Rightarrow> (nat \<times> file_meta) list" where
  "ComputeFilesMarkedForCompaction v last_level =
     (let last_qualify_level =
            (case find (\<lambda>level. LevelFiles v level \<noteq> []) (rev [1..<Suc last_level]) of
               Some level \<Rightarrow> level - 1
             | None \<Rightarrow> 0)
      in concat (map (\<lambda>level. map (Pair level)
           (filter (\<lambda>f. \<not> being_compacted f \<and> marked_for_compaction f) (LevelFiles v level)))
           [0..<Suc last_qualify_level]))"

text \<open>
  \<open>ComputeFilesMarkedForPeriodicCompaction\<close> at the time \<open>current_time\<close>. The modification time of a
  file is the first of its three sources that is known, 0 if none is.
\<close>

definition ComputeFilesMarkedForPeriodicCompaction :: "version \<Rightarrow> nat \<Rightarrow> nat \<Rightarrow> nat \<Rightarrow> (nat \<times> file_meta) list" where
  "ComputeFilesMarkedForPeriodicCompaction v current_time periodic_compaction_seconds last_level =
     (if periodic_compaction_seconds > current_time then []
      else
        let allowed_time_limit = current_time - periodic_compaction_seconds
        in concat (map (\<lambda>level. map (Pair level)
             (filter (\<lambda>f. \<not> being_compacted f \<and> modification_time f > 0 \<and>
                modification_time f < allowed_time_limit) (LevelFiles v level)))
             [0..<Suc last_level]))"

end
