(* ===== verification/Picker.thy ===== *)
theory Picker
  imports Versions
begin

section \<open>Compactions and the compaction picker\<close>

text \<open>
  \<open>CompactionPicker\<close> (\<open>db/compaction/compaction_picker.cc\<close>) and \<open>Compaction\<close>
  (\<open>db/compaction/compaction.cc\<close>) as far as universal compaction uses them: the range of
  keys of a set of inputs, its extension to a clean cut, the inputs on the output level,
  and the compactions in progress with the conflicts between them. \<^term>\<open>None\<close> stands for a
  read outside a vector; a function that may decline returns an option inside.
\<close>

subsection \<open>Options and compactions\<close>

datatype stop_style = StopStyleSimilarSize | StopStyleTotalSize

record universal_options =
  size_ratio :: nat
  min_merge_width :: nat
  max_merge_width :: nat
  max_size_amplification_percent :: nat
  compression_size_percent :: int
  stop_style :: stop_style
  allow_trivial_move :: bool
  incremental :: bool

definition CompactionOptionsUniversal :: universal_options where
  "CompactionOptionsUniversal =
     \<lparr>size_ratio = 1, min_merge_width = 2, max_merge_width = 2 ^ 32 - 1,
      max_size_amplification_percent = 200, compression_size_percent = - 1,
      stop_style = StopStyleTotalSize, allow_trivial_move = False, incremental = False\<rparr>"

text \<open>The options that the picker reads, of the column family and of the database.\<close>

record cf_options =
  universal :: universal_options
  level0_file_num_compaction_trigger :: nat
  allow_ingest_behind :: bool
  preclude_last_level_data_seconds :: nat
  opt_periodic_seconds :: nat
  cf_paths :: "nat list"
  target_file_size_base :: nat
  max_compaction_bytes :: nat
  ignore_max_compaction_bytes_for_input :: bool

datatype compaction_reason =
  kUniversalSizeAmplification | kUniversalSizeRatio | kUniversalSortedRunNum |
  kPeriodicCompaction | kFilesMarkedForCompaction

text \<open>\<open>CompactionInputFiles\<close>: the level and its files.\<close>

type_synonym input_files = "nat \<times> file_meta list"

record compaction =
  inputs :: "input_files list"
  output_level :: int
  path_id :: nat
  enable_compression :: bool
  grandparents :: "file_meta list"
  reason :: compaction_reason
  is_trivial_move :: bool
  smallest_user_key :: bytes
  largest_user_key :: bytes
  penultimate_level :: int
  penultimate_smallest :: bytes
  penultimate_largest :: bytes

definition kInvalidLevel :: int where
  "kInvalidLevel = - 1"

subsection \<open>The constructor of a compaction\<close>

text \<open>
  \<open>GetBoundaryKeys\<close>: the smallest and the largest user key of the inputs; of a level other
  than 0 only the first and the last file count. The two keys stay empty without files.
\<close>

definition add_boundary :: "(bytes \<times> bytes) option \<Rightarrow> bytes \<times> bytes \<Rightarrow> (bytes \<times> bytes) option" where
  "add_boundary acc k =
     (case acc of
        None \<Rightarrow> Some k
      | Some (s, l) \<Rightarrow> Some (if slice_compare (fst k) s < 0 then fst k else s,
                            if slice_compare (snd k) l > 0 then snd k else l))"

definition boundary_files :: "input_files \<Rightarrow> (bytes \<times> bytes) list" where
  "boundary_files i =
     (if snd i = [] then []
      else if fst i = 0 then map (\<lambda>f. (user_key (smallest f), user_key (largest f))) (snd i)
      else [(user_key (smallest (hd (snd i))), user_key (largest (last (snd i))))])"

definition GetBoundaryKeys :: "input_files list \<Rightarrow> int \<Rightarrow> bytes \<times> bytes" where
  "GetBoundaryKeys ins exclude_level =
     (case foldl add_boundary None
        (concat (map boundary_files (filter (\<lambda>i. int (fst i) \<noteq> exclude_level) ins))) of
        Some k \<Rightarrow> k
      | None \<Rightarrow> ([], []))"

definition EvaluatePenultimateLevel :: "cf_options \<Rightarrow> version \<Rightarrow> int \<Rightarrow> int \<Rightarrow> int" where
  "EvaluatePenultimateLevel opt v start_level out_level =
     (if out_level \<noteq> int (num_levels v) - 1 then kInvalidLevel
      else
        let penultimate = out_level - 1
        in if penultimate \<le> 0 then kInvalidLevel
           else if start_level = int (num_levels v) - 1 \<and> LevelFiles v (nat penultimate) \<noteq> [] then kInvalidLevel
           else if \<not> preclude_last_level_data_seconds opt > 0 then kInvalidLevel
           else penultimate)"

text \<open>
  \<open>PopulatePenultimateLevelOutputRange\<close>: the last level is left out of the range unless all
  files of the penultimate level are inputs.
\<close>

definition penultimate_range :: "version \<Rightarrow> input_files list \<Rightarrow> int \<Rightarrow> bytes \<times> bytes" where
  "penultimate_range v ins penultimate =
     (if penultimate = kInvalidLevel then ([], [])
      else
        let penultimate_inputs = concat (map (\<lambda>i. if int (fst i) = penultimate then map fnumber (snd i) else []) ins);
            exclude_level = (if list_all (\<lambda>f. fnumber f \<in> set penultimate_inputs) (LevelFiles v (nat penultimate))
              then kInvalidLevel else int (num_levels v) - 1)
        in GetBoundaryKeys ins exclude_level)"

definition Compaction ::
  "cf_options \<Rightarrow> version \<Rightarrow> input_files list \<Rightarrow> int \<Rightarrow> nat \<Rightarrow> bool \<Rightarrow> file_meta list \<Rightarrow> compaction_reason \<Rightarrow> compaction" where
  "Compaction opt v ins out_level path compress gps why =
     (let penultimate = EvaluatePenultimateLevel opt v (case ins of [] \<Rightarrow> kInvalidLevel | i # _ \<Rightarrow> int (fst i)) out_level;
          boundary = GetBoundaryKeys ins kInvalidLevel;
          range = penultimate_range v ins penultimate
      in \<lparr>inputs = ins, output_level = out_level, path_id = path, enable_compression = compress,
          grandparents = gps, reason = why, is_trivial_move = False,
          smallest_user_key = fst boundary, largest_user_key = snd boundary,
          penultimate_level = penultimate,
          penultimate_smallest = fst range, penultimate_largest = snd range\<rparr>)"

definition SupportsPerKeyPlacement :: "compaction \<Rightarrow> bool" where
  "SupportsPerKeyPlacement c \<longleftrightarrow> penultimate_level c \<noteq> kInvalidLevel"

definition OverlapPenultimateLevelOutputRange :: "compaction \<Rightarrow> bytes \<Rightarrow> bytes \<Rightarrow> bool" where
  "OverlapPenultimateLevelOutputRange c smallest_key largest_key =
     (if \<not> SupportsPerKeyPlacement c then False
      else slice_compare smallest_key (penultimate_largest c) \<le> 0 \<and>
        slice_compare largest_key (penultimate_smallest c) \<ge> 0)"

text \<open>\<open>MarkFilesBeingCompacted\<close> on the files of the version that are inputs.\<close>

definition is_input :: "compaction \<Rightarrow> nat \<Rightarrow> file_meta \<Rightarrow> bool" where
  "is_input c l f \<longleftrightarrow> list_ex (\<lambda>(l', fs). l' = l \<and> fnumber f \<in> fnumber ` set fs) (inputs c)"

lemma is_input_iff: "is_input c l f \<longleftrightarrow> (\<exists>(l', fs)\<in>set (inputs c). l' = l \<and> fnumber f \<in> fnumber ` set fs)"
  by (auto simp: is_input_def list_ex_iff)

definition MarkFilesBeingCompacted :: "compaction \<Rightarrow> bool \<Rightarrow> version \<Rightarrow> version" where
  "MarkFilesBeingCompacted c mark_as_compacted v =
     v\<lparr>levels := map (\<lambda>l. map (\<lambda>f. if is_input c l f then f\<lparr>being_compacted := mark_as_compacted\<rparr> else f)
         (levels v ! l)) [0..<num_levels v]\<rparr>"

subsection \<open>Ranges\<close>

text \<open>The range of the files of one level; that of no file is read outside the vector.\<close>

definition GetRange :: "input_files \<Rightarrow> (internal_key \<times> internal_key) option" where
  "GetRange i =
     (case snd i of
        [] \<Rightarrow> None
      | f # fs \<Rightarrow>
          if fst i = 0 then
            Some (foldl (\<lambda>(s, l) f. (if icmp_compare (smallest f) s < 0 then smallest f else s,
                                     if icmp_compare (largest f) l > 0 then largest f else l))
                    (smallest f, largest f) fs)
          else Some (smallest f, largest (last (f # fs))))"

definition GetRange2 :: "input_files \<Rightarrow> input_files \<Rightarrow> (internal_key \<times> internal_key) option" where
  "GetRange2 inputs1 inputs2 =
     (if snd inputs1 = [] then GetRange inputs2
      else if snd inputs2 = [] then GetRange inputs1
      else do {
        (smallest1, largest1) \<leftarrow> GetRange inputs1;
        (smallest2, largest2) \<leftarrow> GetRange inputs2;
        Some (if icmp_compare smallest1 smallest2 < 0 then smallest1 else smallest2,
              if icmp_compare largest1 largest2 < 0 then largest2 else largest1)
      })"

text \<open>The range of several levels; \<^term>\<open>None\<close> when all of them are empty or excluded.\<close>

definition GetRanges :: "input_files list \<Rightarrow> int \<Rightarrow> (internal_key \<times> internal_key) option" where
  "GetRanges ins exclude_level =
     foldl (\<lambda>acc i.
       if snd i = [] \<or> int (fst i) = exclude_level then acc
       else case (acc, GetRange i) of
         (_, None) \<Rightarrow> acc
       | (None, Some r) \<Rightarrow> Some r
       | (Some (s, l), Some (s', l')) \<Rightarrow>
           Some (if icmp_compare s' s < 0 then s' else s, if icmp_compare l' l > 0 then l' else l))
       None ins"

definition AreFilesInCompaction :: "file_meta list \<Rightarrow> bool" where
  "AreFilesInCompaction fs = list_ex being_compacted fs"

subsection \<open>Compactions in progress\<close>

text \<open>
  The state of the picker: the compactions in progress. What it asks of its environment is
  recorded with it: the random draw of \<open>PickFilesMarkedForCompaction\<close> and the time.
\<close>

record picker =
  compactions_in_progress :: "compaction list"
  level0_compactions_in_progress :: "compaction list"
  random_file :: nat
  current_time :: nat

text \<open>Under universal compaction every compaction is in both sets.\<close>

definition RegisterCompaction :: "compaction \<Rightarrow> picker \<Rightarrow> picker" where
  "RegisterCompaction c pk =
     pk\<lparr>level0_compactions_in_progress := c # level0_compactions_in_progress pk,
        compactions_in_progress := c # compactions_in_progress pk\<rparr>"

definition UnregisterCompaction :: "compaction \<Rightarrow> picker \<Rightarrow> picker" where
  "UnregisterCompaction c pk =
     pk\<lparr>level0_compactions_in_progress := remove1 c (level0_compactions_in_progress pk),
        compactions_in_progress := remove1 c (compactions_in_progress pk)\<rparr>"

definition RangeOverlapWithCompaction :: "picker \<Rightarrow> bytes \<Rightarrow> bytes \<Rightarrow> int \<Rightarrow> bool" where
  "RangeOverlapWithCompaction pk smallest_key largest_key level =
     list_ex (\<lambda>c. output_level c = level \<and>
         slice_compare smallest_key (largest_user_key c) \<le> 0 \<and>
         slice_compare largest_key (smallest_user_key c) \<ge> 0 \<or>
       SupportsPerKeyPlacement c \<and> OverlapPenultimateLevelOutputRange c smallest_key largest_key)
       (compactions_in_progress pk)"

definition FilesRangeOverlapWithCompaction :: "picker \<Rightarrow> input_files list \<Rightarrow> int \<Rightarrow> int \<Rightarrow> bool" where
  "FilesRangeOverlapWithCompaction pk ins level penultimate =
     (case GetRanges ins kInvalidLevel of
        None \<Rightarrow> False
      | Some (s, l) \<Rightarrow>
          if penultimate \<noteq> kInvalidLevel \<and> RangeOverlapWithCompaction pk (user_key s) (user_key l) penultimate
          then True
          else RangeOverlapWithCompaction pk (user_key s) (user_key l) level)"

subsection \<open>Clean cuts\<close>

lemma range_search_length:
  "length (fst (GetOverlappingInputsRangeBinarySearch fs b e hint w)) \<le> length fs"
  by (auto simp: GetOverlappingInputsRangeBinarySearch_def Let_def intro: min.coboundedI1)

lemma overlapping_length:
  assumes "level > 0"
  shows "length (fst (GetOverlappingInputs v level b e hint)) \<le> length (LevelFiles v level)"
  using assms by (simp add: GetOverlappingInputs_def range_search_length)

text \<open>The loop of \<open>ExpandInputsToCleanCut\<close>, on a level other than 0.\<close>

function expand_loop :: "version \<Rightarrow> nat \<Rightarrow> file_meta list \<Rightarrow> int \<Rightarrow> file_meta list option" where
  "expand_loop v level fs hint_index =
     (case GetRange (level, fs) of
        None \<Rightarrow> None
      | Some (s, l) \<Rightarrow>
          let r = GetOverlappingInputs v level s l hint_index
          in if level > 0 \<and> length (fst r) > length fs then expand_loop v level (fst r) (snd r)
             else Some (fst r))"
  by pat_completeness auto
termination
proof (relation "measure (\<lambda>(v, level, fs, hint). length (LevelFiles v level) - length fs)", goal_cases)
  case (2 v level fs hint x s l r)
  then show ?case using overlapping_length [of level v s l hint]
    by (auto simp: case_prod_unfold)
qed simp

declare expand_loop.simps [simp del]

text \<open>The inner option is the return value: \<^term>\<open>None\<close> when a file is being compacted.\<close>

definition ExpandInputsToCleanCut :: "version \<Rightarrow> input_files \<Rightarrow> file_meta list option option" where
  "ExpandInputsToCleanCut v i =
     (if fst i = 0 then Some (Some (snd i))
      else map_option (\<lambda>fs. if AreFilesInCompaction fs then None else Some fs)
        (expand_loop v (fst i) (snd i) (- 1)))"

definition IsRangeInCompaction :: "version \<Rightarrow> internal_key \<Rightarrow> internal_key \<Rightarrow> nat \<Rightarrow> int option \<Rightarrow> bool" where
  "IsRangeInCompaction v s l level level_index =
     AreFilesInCompaction (fst (GetOverlappingInputs v level s l
       (case level_index of Some i \<Rightarrow> i | None \<Rightarrow> 0)))"

subsection \<open>Inputs of the output level\<close>

text \<open>Whether more inputs are taken: there are more of them, they are small enough and idle.\<close>

definition may_expand :: "cf_options \<Rightarrow> file_meta list \<Rightarrow> file_meta list \<Rightarrow> file_meta list \<Rightarrow> nat \<Rightarrow> bool" where
  "may_expand opt fs outs expanded expanded_size \<longleftrightarrow>
     length expanded > length fs \<and>
     (ignore_max_compaction_bytes_for_input opt \<or> add64 (TotalFileSize outs) expanded_size < max_compaction_bytes opt) \<and>
     \<not> AreFilesInCompaction expanded"

text \<open>
  The first attempt to grow the inputs: all files of their level that overlap the whole
  range, provided that the number of files of the output level stays the same.
\<close>

definition grow_overlapping ::
  "cf_options \<Rightarrow> version \<Rightarrow> input_files \<Rightarrow> input_files \<Rightarrow> internal_key \<Rightarrow> internal_key \<Rightarrow> int \<Rightarrow> int \<Rightarrow>
     file_meta list option option" where
  "grow_overlapping opt v ins outs all_start all_limit parent_index base_index =
     (let expanded_inputs = fst (GetOverlappingInputs v (fst ins) all_start all_limit base_index);
          expanded_size = TotalFileSize expanded_inputs
      in do {
        cut \<leftarrow> ExpandInputsToCleanCut v (fst ins, expanded_inputs);
        case cut of
          None \<Rightarrow> Some None
        | Some expanded_inputs \<Rightarrow>
            if may_expand opt (snd ins) (snd outs) expanded_inputs expanded_size then do {
              (new_start, new_limit) \<leftarrow> GetRange (fst ins, expanded_inputs);
              let expanded_outs = fst (GetOverlappingInputs v (fst outs) new_start new_limit parent_index);
              if AreFilesInCompaction expanded_outs then Some None
              else do {
                cut \<leftarrow> ExpandInputsToCleanCut v (fst outs, expanded_outs);
                Some (case cut of
                    None \<Rightarrow> None
                  | Some expanded_outs \<Rightarrow>
                      if length expanded_outs = length (snd outs) then Some expanded_inputs else None)
              }
            } else Some None
      })"

text \<open>
  \<open>SetupOtherInputs\<close>, which in universal compaction may expand in both directions. The result
  is the inputs of the two levels.
\<close>

definition SetupOtherInputs ::
  "cf_options \<Rightarrow> version \<Rightarrow> input_files \<Rightarrow> nat \<Rightarrow> int \<Rightarrow> int \<Rightarrow> (file_meta list \<times> file_meta list) option option" where
  "SetupOtherInputs opt v ins out_level parent_index base_index =
     (if fst ins = out_level then Some (Some (snd ins, []))
      else do {
        (s, l) \<leftarrow> GetRange ins;
        let r = GetOverlappingInputs v out_level s l parent_index;
        if AreFilesInCompaction (fst r) then Some None
        else do {
          cut \<leftarrow> (if fst r \<noteq> [] then ExpandInputsToCleanCut v (out_level, fst r) else Some (Some (fst r)));
          case cut of
            None \<Rightarrow> Some None
          | Some outs \<Rightarrow>
              if outs = [] then Some (Some (snd ins, outs))
              else do {
                (all_start, all_limit) \<leftarrow> GetRange2 ins (out_level, outs);
                grown \<leftarrow> grow_overlapping opt v ins (out_level, outs) all_start all_limit (snd r) base_index;
                case grown of
                  Some expanded_inputs \<Rightarrow> Some (Some (expanded_inputs, outs))
                | None \<Rightarrow>
                    let expanded_inputs = GetCleanInputsWithinInterval v (fst ins) all_start all_limit base_index
                    in if may_expand opt (snd ins) outs expanded_inputs (TotalFileSize expanded_inputs)
                       then Some (Some (expanded_inputs, outs)) else Some (Some (snd ins, outs))
              }
        }
      })"

definition GetGrandparents :: "version \<Rightarrow> input_files \<Rightarrow> input_files \<Rightarrow> file_meta list option" where
  "GetGrandparents v ins outs = do {
     (start, limit) \<leftarrow> GetRange2 ins outs;
     Some (case find (\<lambda>level. fst (GetOverlappingInputs v level start limit (- 1)) \<noteq> [])
         [fst outs + 1..<num_levels v] of
         Some level \<Rightarrow> fst (GetOverlappingInputs v level start limit (- 1))
       | None \<Rightarrow> [])
   }"

subsection \<open>Files marked for compaction\<close>

definition try_marked :: "picker \<Rightarrow> version \<Rightarrow> nat \<times> file_meta \<Rightarrow> input_files option option" where
  "try_marked pk v level_file =
     (if fst level_file = 0 \<and> level0_compactions_in_progress pk \<noteq> [] then Some None
      else map_option (map_option (Pair (fst level_file)))
        (ExpandInputsToCleanCut v (fst level_file, [snd level_file])))"

fun first_marked :: "picker \<Rightarrow> version \<Rightarrow> (nat \<times> file_meta) list \<Rightarrow> input_files option option" where
  "first_marked pk v [] = Some None"
| "first_marked pk v (m # ms) = do {
     r \<leftarrow> try_marked pk v m;
     case r of Some i \<Rightarrow> Some (Some i) | None \<Rightarrow> first_marked pk v ms
   }"

definition PickFilesMarkedForCompaction :: "picker \<Rightarrow> version \<Rightarrow> input_files option option" where
  "PickFilesMarkedForCompaction pk v =
     (if marked v = [] then Some None
      else first_marked pk v ((marked v ! (random_file pk mod length (marked v))) # marked v))"

definition GetOverlappingL0Files :: "version \<Rightarrow> file_meta list \<Rightarrow> nat \<Rightarrow> int option \<Rightarrow> file_meta list option option" where
  "GetOverlappingL0Files v fs out_level parent_index = do {
     (s, l) \<leftarrow> GetRange (0, fs);
     let fs = fst (GetOverlappingInputs v 0 s l (- 1));
     (s, l) \<leftarrow> GetRange (0, fs);
     Some (if IsRangeInCompaction v s l out_level parent_index then None else Some fs)
   }"

end
