(* ===== verification/Universal.thy ===== *)
theory Universal
  imports Picker
begin

section \<open>Picking universal compactions\<close>

text \<open>
  \<open>db/compaction/compaction_picker_universal.cc\<close> as changed for this repository (the last
  fallback of \<open>PickCompaction\<close>, a compaction that ignores the size ratios, is commented
  out). Sizes are added and multiplied modulo \<open>2 ^ 64\<close>, as the source does in \<open>uint64_t\<close>;
  the comparisons that the source makes in \<open>double\<close> are made exactly. Log messages,
  statistics, compression types and output file sizes are not modelled.
\<close>

subsection \<open>When a compaction is needed\<close>

text \<open>
  The part of \<open>ComputeCompactionScore\<close> for level 0 under universal compaction: the number of
  sorted runs that are not being compacted, over the trigger. The score is at least 1 when
  the quotient is.
\<close>

definition num_sorted_runs :: "cf_options \<Rightarrow> version \<Rightarrow> nat" where
  "num_sorted_runs opt v =
     length (filter (\<lambda>f. \<not> being_compacted f) (LevelFiles v 0)) +
     length (filter (\<lambda>i. LevelFiles v i \<noteq> [] \<and> \<not> being_compacted (hd (LevelFiles v i)))
       [1..<Suc (MaxOutputLevel v (allow_ingest_behind opt))])"

definition NeedsCompaction :: "cf_options \<Rightarrow> version \<Rightarrow> bool" where
  "NeedsCompaction opt v =
     (if level0_file_num_compaction_trigger opt \<le> num_sorted_runs opt v then True
      else if marked_periodic v \<noteq> [] then True
      else if marked v \<noteq> [] then True
      else False)"

subsection \<open>Sorted runs\<close>

record sorted_run =
  sr_level :: nat
  sr_file :: "file_meta option"
  sr_size :: nat
  sr_compensated :: nat
  sr_compacted :: bool

definition run_of_file :: "file_meta \<Rightarrow> sorted_run" where
  "run_of_file f = \<lparr>sr_level = 0, sr_file = Some f, sr_size = file_size f,
     sr_compensated = compensated_file_size f, sr_compacted = being_compacted f\<rparr>"

definition run_of_level :: "nat \<Rightarrow> file_meta list \<Rightarrow> sorted_run list" where
  "run_of_level level fs =
     (let total_compensated_size = sum64 (map compensated_file_size fs);
          total_size = sum64 (map file_size fs);
          compacted = list_ex being_compacted fs
      in if total_compensated_size > 0
         then [\<lparr>sr_level = level, sr_file = None, sr_size = total_size,
                sr_compensated = total_compensated_size, sr_compacted = compacted\<rparr>]
         else [])"

definition CalculateSortedRuns :: "version \<Rightarrow> nat \<Rightarrow> sorted_run list" where
  "CalculateSortedRuns v last_level =
     map run_of_file (LevelFiles v 0) @
     concat (map (\<lambda>level. run_of_level level (LevelFiles v level)) [1..<Suc last_level])"

subsection \<open>Paths and inputs\<close>

text \<open>
  \<open>GetPathId\<close>: the loop over all paths but the last one; \<open>size_ratio\<close> is subtracted from 100
  in 32-bit unsigned arithmetic.
\<close>

fun path_loop :: "nat \<Rightarrow> nat \<Rightarrow> nat \<Rightarrow> nat \<Rightarrow> nat list \<Rightarrow> nat" where
  "path_loop fsize future accumulated p (target # t # ts) =
     (if target > fsize \<and> add64 accumulated (target - fsize) > future then p
      else path_loop fsize future (add64 accumulated target) (p + 1) (t # ts))"
| "path_loop fsize future accumulated p _ = p"

definition GetPathId :: "cf_options \<Rightarrow> nat \<Rightarrow> nat" where
  "GetPathId opt fsize =
     (let future_size = mul64 fsize (nat ((100 - int (size_ratio (universal opt))) mod 2 ^ 32)) div 100
      in path_loop fsize future_size 0 0 (cf_paths opt))"

text \<open>
  The vector of inputs has one entry per level from the start level on; a picked run of
  level 0 adds its file to the first entry, another run all files of its level.
\<close>

definition run_files :: "version \<Rightarrow> sorted_run \<Rightarrow> file_meta list" where
  "run_files v sr =
     (if sr_level sr = 0 then (case sr_file sr of Some f \<Rightarrow> [f] | None \<Rightarrow> [])
      else LevelFiles v (sr_level sr))"

definition gather_inputs :: "version \<Rightarrow> nat \<Rightarrow> nat \<Rightarrow> sorted_run list \<Rightarrow> input_files list" where
  "gather_inputs v max_output_level start_level picked =
     map (\<lambda>i. (start_level + i,
            concat (map (run_files v)
              (filter (\<lambda>sr. (if sr_level sr = 0 then 0 else sr_level sr - start_level) = i) picked))))
       [0..<Suc max_output_level]"

subsection \<open>Compactions that reduce the number of sorted runs\<close>

text \<open>
  The inner loop: how many runs after the first candidate are picked. \<open>sz < size\<close> is the
  comparison of \<open>candidate_size * (100 + ratio) / 100\<close> with the next size.
\<close>

fun extend_candidates :: "universal_options \<Rightarrow> nat \<Rightarrow> nat \<Rightarrow> nat \<Rightarrow> nat \<Rightarrow> sorted_run list \<Rightarrow> nat" where
  "extend_candidates u ratio max_files count csize [] = count"
| "extend_candidates u ratio max_files count csize (sr # srs) =
     (if \<not> count < max_files then count
      else if sr_compacted sr then count
      else if csize * (100 + ratio) < sr_size sr * 100 then count
      else if stop_style u = StopStyleSimilarSize then
        if sr_size sr * (100 + ratio) < csize * 100 then count
        else extend_candidates u ratio max_files (count + 1) (sr_compensated sr) srs
      else extend_candidates u ratio max_files (count + 1) (add64 csize (sr_compensated sr)) srs)"

text \<open>
  The outer loop over the runs from index \<open>loop\<close> on: runs being compacted are skipped; the
  first series that is long enough is taken. The result is its start and length.
\<close>

fun find_candidates ::
  "universal_options \<Rightarrow> nat \<Rightarrow> nat \<Rightarrow> nat \<Rightarrow> nat \<Rightarrow> sorted_run list \<Rightarrow> (nat \<times> nat) option" where
  "find_candidates u ratio max_files min_width loop [] = None"
| "find_candidates u ratio max_files min_width loop (sr # srs) =
     (if sr_compacted sr then find_candidates u ratio max_files min_width (loop + 1) srs
      else
        let candidate_count = extend_candidates u ratio max_files 1 (sr_compensated sr) srs
        in if candidate_count \<ge> min_width then Some (loop, candidate_count)
           else find_candidates u ratio max_files min_width (loop + 1) srs)"

text \<open>The loop from the oldest run back to the first run after the picked ones.\<close>

fun old_enough :: "nat \<Rightarrow> int \<Rightarrow> nat \<Rightarrow> sorted_run list \<Rightarrow> bool" where
  "old_enough tot ratio older [] = False"
| "old_enough tot ratio older (sr # srs) =
     (let older = add64 older (sr_size sr)
      in if mul64 tot (nat ratio) \<le> mul64 older 100 then True else old_enough tot ratio older srs)"

definition PickCompactionToReduceSortedRuns ::
  "picker \<Rightarrow> cf_options \<Rightarrow> version \<Rightarrow> sorted_run list \<Rightarrow> nat \<Rightarrow> nat \<Rightarrow> compaction option" where
  "PickCompactionToReduceSortedRuns pk opt v runs ratio max_number_of_files_to_compact =
     (let u = universal opt;
          max_files_to_compact = min (max_merge_width u) max_number_of_files_to_compact;
          min_width = max (min_merge_width u) 2
      in case find_candidates u ratio max_files_to_compact min_width 0 runs of
           None \<Rightarrow> None
         | Some (start_index, candidate_count) \<Rightarrow>
             if candidate_count \<le> 1 then None
             else
               let first_index_after = start_index + candidate_count;
                   ratio_to_compress = compression_size_percent u;
                   total_size = sum64 (map sr_compensated runs);
                   compress = \<not> (ratio_to_compress \<ge> 0 \<and>
                     old_enough total_size ratio_to_compress 0 (rev (drop first_index_after runs)));
                   estimated_total_size = sum64 (map sr_size (take first_index_after runs));
                   path = GetPathId opt estimated_total_size;
                   start_level = sr_level (runs ! start_index);
                   max_output_level = MaxOutputLevel v (allow_ingest_behind opt);
                   out_level = (if first_index_after = length runs then int max_output_level
                     else if sr_level (runs ! first_index_after) = 0 then 0
                     else int (sr_level (runs ! first_index_after)) - 1);
                   ins = gather_inputs v max_output_level start_level
                     (take candidate_count (drop start_index runs));
                   gps = (if incremental u \<and> first_index_after < length runs \<and> sr_level (runs ! first_index_after) > 1
                     then LevelFiles v (sr_level (runs ! first_index_after)) else []);
                   penultimate = EvaluatePenultimateLevel opt v (int start_level) out_level
               in if out_level \<noteq> 0 \<and> FilesRangeOverlapWithCompaction pk ins out_level penultimate then None
                  else Some (Compaction opt v ins out_level path compress gps
                    (if max_number_of_files_to_compact = 2 ^ 32 - 1
                     then kUniversalSizeRatio else kUniversalSortedRunNum)))"

subsection \<open>Incremental compactions\<close>

text \<open>
  \<open>PickIncrementalForReduceSizeAmp\<close>: a window slides over the files of the second last level.
  The sizes of the window are 64-bit numbers. A fanout, a quotient of two of them that the
  source computes in \<open>double\<close>, is the pair of dividend and divisor.
\<close>

definition fanout_less :: "nat \<times> nat \<Rightarrow> nat \<times> nat \<Rightarrow> bool" where
  "fanout_less x y \<longleftrightarrow> fst x * snd y < fst y * snd x"

text \<open>\<open>>=\<close>, which is false when one of the two is 0 / 0.\<close>

definition fanout_ge :: "nat \<times> nat \<Rightarrow> nat \<times> nat \<Rightarrow> bool" where
  "fanout_ge x y \<longleftrightarrow> x \<noteq> (0, 0) \<and> y \<noteq> (0, 0) \<and> fst x * snd y \<ge> fst y * snd x"

record window =
  start_idx :: nat
  bottom_start_idx :: nat
  bottom_end_idx :: nat
  non_bottom_size :: nat
  bottom_size :: nat
  end_bottom_size_counted :: bool
  picked_start_idx :: nat
  picked_end_idx :: nat
  picked_fanout :: "nat \<times> nat"

text \<open>The files of the last level before the current file; also how many there are.\<close>

function skip_bottom :: "file_meta list \<Rightarrow> file_meta \<Rightarrow> window \<Rightarrow> nat \<Rightarrow> window \<times> nat" where
  "skip_bottom bottom_files end_file w num_skipped =
     (if bottom_end_idx w < length bottom_files \<and>
         icmp_compare (largest (bottom_files ! bottom_end_idx w)) (smallest end_file) < 0
      then
        let w = (if end_bottom_size_counted w then w
              else w\<lparr>bottom_size := add64 (bottom_size w) (file_size (bottom_files ! bottom_end_idx w))\<rparr>)
        in skip_bottom bottom_files end_file
             (w\<lparr>bottom_end_idx := bottom_end_idx w + 1, end_bottom_size_counted := False\<rparr>) (num_skipped + 1)
      else (w, num_skipped))"
  by pat_completeness auto
termination by (relation "measure (\<lambda>(bs, f, w, n). length bs - bottom_end_idx w)") auto

declare skip_bottom.simps [simp del]

text \<open>The files of the last level that overlap the current file.\<close>

function include_bottom :: "file_meta list \<Rightarrow> file_meta \<Rightarrow> window \<Rightarrow> window" where
  "include_bottom bottom_files end_file w =
     (if bottom_end_idx w < length bottom_files \<and>
         icmp_compare (smallest (bottom_files ! bottom_end_idx w)) (largest end_file) < 0
      then
        let w = (if end_bottom_size_counted w then w
              else w\<lparr>bottom_size := add64 (bottom_size w) (file_size (bottom_files ! bottom_end_idx w)),
                     end_bottom_size_counted := True\<rparr>)
        in if icmp_compare (largest (bottom_files ! bottom_end_idx w)) (largest end_file) > 0 then w
           else include_bottom bottom_files end_file
             (w\<lparr>bottom_end_idx := bottom_end_idx w + 1, end_bottom_size_counted := False\<rparr>)
      else w)"
  by pat_completeness auto
termination by (relation "measure (\<lambda>(bs, f, w). length bs - bottom_end_idx w)") (auto split: if_splits)

declare include_bottom.simps [simp del]

text \<open>The files of the last level before the new start; the index is not compared with their number.\<close>

function shrink_bottom :: "file_meta list \<Rightarrow> file_meta \<Rightarrow> window \<Rightarrow> window option" where
  "shrink_bottom bottom_files start_file w =
     (if bottom_start_idx w \<le> bottom_end_idx w then
        if bottom_start_idx w < length bottom_files then
          if icmp_compare (largest (bottom_files ! bottom_start_idx w)) (smallest start_file) < 0
          then shrink_bottom bottom_files start_file
            (w\<lparr>bottom_size := sub64 (bottom_size w) (file_size (bottom_files ! bottom_start_idx w)),
               bottom_start_idx := bottom_start_idx w + 1\<rparr>)
          else Some w
        else None
      else Some w)"
  by pat_completeness auto
termination by (relation "measure (\<lambda>(bs, f, w). length bs - bottom_start_idx w)") auto

declare shrink_bottom.simps [simp del]

lemma shrink_bottom_start: "shrink_bottom bs f w = Some w' \<Longrightarrow> start_idx w' = start_idx w"
proof (induction bs f w rule: shrink_bottom.induct)
  case (1 bs f w)
  show ?case using 1(2) 1(1) by (subst (asm) shrink_bottom.simps) (auto split: if_splits)
qed

function shrink_window :: "file_meta list \<Rightarrow> file_meta list \<Rightarrow> nat \<Rightarrow> nat \<Rightarrow> window \<Rightarrow> window option" where
  "shrink_window files bottom_files comp_thres_size end_idx w =
     (if add64 (non_bottom_size w) (bottom_size w) > comp_thres_size \<and> start_idx w \<le> end_idx then
        let w = w\<lparr>non_bottom_size := sub64 (non_bottom_size w) (file_size (files ! start_idx w)),
                  start_idx := start_idx w + 1\<rparr>
        in case (if start_idx w < length files then shrink_bottom bottom_files (files ! start_idx w) w else Some w) of
             None \<Rightarrow> None
           | Some w \<Rightarrow> shrink_window files bottom_files comp_thres_size end_idx w
      else Some w)"
  by pat_completeness auto
termination
  by (relation "measure (\<lambda>(fs, bs, t, e, w). Suc e - start_idx w)")
    (auto split: if_splits dest: shrink_bottom_start)

declare shrink_window.simps [simp del]

text \<open>One turn of the loop, for the file \<open>end_idx\<close> of the second last level.\<close>

definition slide_window :: "file_meta list \<Rightarrow> file_meta list \<Rightarrow> nat \<Rightarrow> window \<Rightarrow> nat \<Rightarrow> window option" where
  "slide_window files bottom_files comp_thres_size w end_idx =
     (let end_file = files ! end_idx;
          (w, num_skipped) = skip_bottom bottom_files end_file w 0;
          w = (if num_skipped > 1 then w\<lparr>start_idx := end_idx\<rparr> else w);
          w = (if start_idx w = end_idx
            then w\<lparr>non_bottom_size := 0, bottom_size := 0, bottom_start_idx := bottom_end_idx w,
                   end_bottom_size_counted := False\<rparr> else w);
          w = w\<lparr>non_bottom_size := add64 (non_bottom_size w) (file_size end_file)\<rparr>;
          w = include_bottom bottom_files end_file w
      in if (add64 (non_bottom_size w) (bottom_size w) > comp_thres_size \<or> end_idx = length files - 1) \<and>
            non_bottom_size w > 0
         then
           let fanout = (bottom_size w, non_bottom_size w);
               w = (if fanout_less fanout (picked_fanout w)
                 then w\<lparr>picked_start_idx := start_idx w, picked_end_idx := end_idx, picked_fanout := fanout\<rparr> else w)
           in shrink_window files bottom_files comp_thres_size end_idx w
         else Some w)"

text \<open>The files of the levels above that fall into the range, from the lowest level up.\<close>

fun upper_inputs ::
  "version \<Rightarrow> nat list \<Rightarrow> internal_key \<Rightarrow> internal_key \<Rightarrow> input_files list \<Rightarrow> input_files list option" where
  "upper_inputs v [] s l ins = Some ins"
| "upper_inputs v (level # ls) s l ins =
     (if level = 0 then Some ins
      else
        let level_inputs = GetCleanInputsWithinInterval v level s l (- 1)
        in if level_inputs = [] then upper_inputs v ls s l ins
           else do {
             (s, l) \<leftarrow> GetRange (level, level_inputs);
             upper_inputs v ls s l ((level, level_inputs) # ins)
           })"

definition PickIncrementalForReduceSizeAmp ::
  "picker \<Rightarrow> cf_options \<Rightarrow> version \<Rightarrow> sorted_run list \<Rightarrow> nat \<times> nat \<Rightarrow> compaction option option" where
  "PickIncrementalForReduceSizeAmp pk opt v runs fanout_threshold =
     (let second_last_level = sr_level (runs ! (length runs - 2));
          out_level = sr_level (last runs);
          bottom_files = LevelFiles v out_level;
          files = LevelFiles v second_last_level;
          comp_thres_size = max_compaction_bytes opt div 2;
          w = \<lparr>start_idx = 0, bottom_start_idx = 0, bottom_end_idx = 0, non_bottom_size = 0, bottom_size = 0,
               end_bottom_size_counted = False, picked_start_idx = 0, picked_end_idx = 0,
               picked_fanout = fanout_threshold\<rparr>
      in if second_last_level = 0 then Some None
         else do {
           w \<leftarrow> foldM (slide_window files bottom_files comp_thres_size) w [0..<length files];
           if fanout_ge (picked_fanout w) fanout_threshold then Some None
           else
             let picked = take (picked_end_idx w + 1 - picked_start_idx w) (drop (picked_start_idx w) files)
             in if list_ex being_compacted picked then Some None
                else do {
                  cut \<leftarrow> ExpandInputsToCleanCut v (second_last_level, picked);
                  case cut of
                    None \<Rightarrow> Some None
                  | Some second_last_inputs \<Rightarrow> do {
                      other \<leftarrow> SetupOtherInputs opt v (second_last_level, second_last_inputs) out_level (- 1) (- 1);
                      case other of
                        None \<Rightarrow> Some None
                      | Some (second_last_inputs, bottom_inputs) \<Rightarrow> do {
                          (s, l) \<leftarrow> GetRange (second_last_level, second_last_inputs);
                          ins \<leftarrow> upper_inputs v (map sr_level (drop 2 (rev runs))) s l
                            [(second_last_level, second_last_inputs), (out_level, bottom_inputs)];
                          let start_level = (case find (\<lambda>i. snd i \<noteq> []) ins of
                              Some i \<Rightarrow> int (fst i) | None \<Rightarrow> kInvalidLevel);
                          Some (if out_level \<noteq> 0 \<and> FilesRangeOverlapWithCompaction pk ins (int out_level)
                                   (EvaluatePenultimateLevel opt v start_level (int out_level))
                                then None
                                else Some (Compaction opt v ins (int out_level) 0 True [] kUniversalSizeAmplification))
                        }
                    }
                }
         })"

subsection \<open>Compactions that reduce space amplification\<close>

definition PickCompactionWithSortedRunRange ::
  "picker \<Rightarrow> cf_options \<Rightarrow> version \<Rightarrow> sorted_run list \<Rightarrow> nat \<Rightarrow> nat \<Rightarrow> compaction_reason \<Rightarrow> compaction option" where
  "PickCompactionWithSortedRunRange pk opt v runs start_index end_index why =
     (let picked = take (end_index + 1 - start_index) (drop start_index runs);
          estimated_total_size = sum64 (map sr_size picked);
          path = GetPathId opt estimated_total_size;
          start_level = sr_level (runs ! start_index);
          max_output_level = MaxOutputLevel v (allow_ingest_behind opt);
          ins = gather_inputs v max_output_level start_level picked;
          out_level = (if end_index = length runs - 1 then int max_output_level
            else int (sr_level (runs ! (end_index + 1))) - 1)
      in if out_level \<noteq> 0 \<and> FilesRangeOverlapWithCompaction pk ins out_level
              (EvaluatePenultimateLevel opt v (int start_level) out_level)
         then None
         else Some (Compaction opt v ins out_level path True [] why))"

definition PickCompactionToOldest ::
  "picker \<Rightarrow> cf_options \<Rightarrow> version \<Rightarrow> sorted_run list \<Rightarrow> nat \<Rightarrow> compaction_reason \<Rightarrow> compaction option" where
  "PickCompactionToOldest pk opt v runs start_index why =
     PickCompactionWithSortedRunRange pk opt v runs start_index (length runs - 1) why"

definition PickCompactionToReduceSizeAmp ::
  "picker \<Rightarrow> cf_options \<Rightarrow> version \<Rightarrow> sorted_run list \<Rightarrow> compaction option option" where
  "PickCompactionToReduceSizeAmp pk opt v runs =
     (let u = universal opt;
          ratio = max_size_amplification_percent u
      in if sr_compacted (last runs) then Some None
         else
           case find (\<lambda>i. \<not> sr_compacted (runs ! i)) [0..<length runs - 1] of
             None \<Rightarrow> Some None
           | Some start_index \<Rightarrow>
               let tiered = preclude_last_level_data_seconds opt > 0 \<and> num_levels v > 2 \<and>
                     sr_level (last runs) = num_levels v - 1 \<and> length runs > 1;
                   sr_end_idx = (if tiered then length runs - 2 else length runs - 1);
                   base_sr_size = sr_size (runs ! sr_end_idx);
                   candidates = take (sr_end_idx - start_index) (drop start_index runs)
               in if list_ex sr_compacted candidates then Some None
                  else
                    let candidate_size = sum64 (map sr_compensated candidates);
                        candidate_count = length candidates
                    in if candidate_count = 0 then Some None
                       else if mul64 candidate_size 100 < mul64 ratio base_sr_size then Some None
                       else do {
                         picked \<leftarrow> (if incremental u
                           then PickIncrementalForReduceSizeAmp pk opt v runs (base_sr_size * 18, candidate_size * 10)
                           else Some None);
                         Some (case picked of
                             Some c \<Rightarrow> Some c
                           | None \<Rightarrow> PickCompactionWithSortedRunRange pk opt v runs start_index sr_end_idx
                               kUniversalSizeAmplification)
                       })"

subsection \<open>Periodic and delete-triggered compactions\<close>

definition PickPeriodicCompaction :: "picker \<Rightarrow> cf_options \<Rightarrow> version \<Rightarrow> sorted_run list \<Rightarrow> compaction option" where
  "PickPeriodicCompaction pk opt v runs =
     (let start_index = length runs - length (takeWhile (\<lambda>sr. \<not> sr_compacted sr) (rev runs))
      in if start_index = length runs then None
         else if start_index = length runs - 1 \<and>
           \<not> list_ex (\<lambda>(level, f). if sr_level (runs ! start_index) \<noteq> 0
                then sr_level (runs ! start_index) = level
                else map_option fnumber (sr_file (runs ! start_index)) = Some (fnumber f)) (marked_periodic v)
         then None
         else PickCompactionToOldest pk opt v runs start_index kPeriodicCompaction)"

text \<open>
  \<open>PickDeleteTriggeredCompaction\<close>. With one level: from the first marked file that is not
  being compacted, the last one excepted, on to the next file being compacted.
\<close>

definition single_level_marked :: "version \<Rightarrow> sorted_run list \<Rightarrow> file_meta list option" where
  "single_level_marked v runs =
     (case find (\<lambda>i. \<not> sr_compacted (runs ! i) \<and> marked_for_compaction (LevelFiles v 0 ! i))
        [0..<length runs - 1] of
        None \<Rightarrow> None
      | Some i \<Rightarrow>
          let n = length (takeWhile (\<lambda>sr. \<not> sr_compacted sr) (drop (i + 1) runs));
              fs = take (n + 1) (drop i (LevelFiles v 0))
          in if length fs \<le> 1 then None else Some fs)"

text \<open>With more levels: the inputs, the output level and the grandparents.\<close>

definition multi_level_marked ::
  "picker \<Rightarrow> cf_options \<Rightarrow> version \<Rightarrow> (input_files list \<times> nat \<times> file_meta list) option option" where
  "multi_level_marked pk opt v = do {
     start \<leftarrow> PickFilesMarkedForCompaction pk v;
     case start of
       None \<Rightarrow> Some None
     | Some (start_level, fs) \<Rightarrow>
         let max_output_level = MaxOutputLevel v (allow_ingest_behind opt)
         in case (case find (\<lambda>l. LevelFiles v l \<noteq> []) [start_level + 1..<Suc max_output_level] of
                Some l \<Rightarrow> Some l
              | None \<Rightarrow> if start_level = 0 then Some max_output_level else None) of
              None \<Rightarrow> Some None
            | Some out_level \<Rightarrow>
                if out_level = 0 then Some (Some ([(start_level, fs)], out_level, []))
                else do {
                  overlapping \<leftarrow> (if start_level = 0 then GetOverlappingL0Files v fs out_level None else Some (Some fs));
                  case overlapping of
                    None \<Rightarrow> Some None
                  | Some fs \<Rightarrow> do {
                      other \<leftarrow> SetupOtherInputs opt v (start_level, fs) out_level (- 1) (- 1);
                      case other of
                        None \<Rightarrow> Some None
                      | Some (fs, outs) \<Rightarrow>
                          let ins = (start_level, fs) # (if outs = [] then [] else [(out_level, outs)])
                          in if FilesRangeOverlapWithCompaction pk ins (int out_level)
                               (EvaluatePenultimateLevel opt v (int start_level) (int out_level))
                             then Some None
                             else map_option (\<lambda>gps. Some (ins, out_level, gps))
                               (GetGrandparents v (start_level, fs) (out_level, outs))
                    }
                }
   }"

definition PickDeleteTriggeredCompaction ::
  "picker \<Rightarrow> cf_options \<Rightarrow> version \<Rightarrow> sorted_run list \<Rightarrow> compaction option option" where
  "PickDeleteTriggeredCompaction pk opt v runs = do {
     picked \<leftarrow> (if num_levels v = 1
       then Some (map_option (\<lambda>fs. ([(0, fs)], 0, [])) (single_level_marked v runs))
       else multi_level_marked pk opt v);
     Some (map_option (\<lambda>(ins, out_level, gps).
       Compaction opt v ins (int out_level) (GetPathId opt (TotalFileSize (LevelFiles v out_level))) True gps
         kFilesMarkedForCompaction) picked)
   }"

subsection \<open>Trivial moves\<close>

text \<open>
  \<open>IsInputFilesNonOverlapping\<close>. The heap holds files with the index of their level in the
  inputs and their index there; its top is a file with the smallest key.
\<close>

record input_file_info =
  info_file :: file_meta
  info_level :: nat
  info_index :: nat

definition create_level_heap :: "compaction \<Rightarrow> input_file_info list" where
  "create_level_heap c =
     concat (map (\<lambda>l.
       let (level, fs) = inputs c ! l
       in if fs = [] then []
          else if l = 0 \<and> level = 0
          then map (\<lambda>i. \<lparr>info_file = fs ! i, info_level = 0, info_index = i\<rparr>) [0..<length fs]
          else [\<lparr>info_file = fs ! 0, info_level = l, info_index = 0\<rparr>])
       [0..<length (inputs c)])"

fun heap_top :: "input_file_info \<Rightarrow> input_file_info list \<Rightarrow> input_file_info" where
  "heap_top i [] = i"
| "heap_top i (j # js) =
     heap_top (if slice_compare (user_key (smallest (info_file i))) (user_key (smallest (info_file j))) > 0
       then j else i) js"

text \<open>The next file of the same level, unless that is level 0.\<close>

definition next_info :: "compaction \<Rightarrow> input_file_info \<Rightarrow> input_file_info list" where
  "next_info c cur =
     (let (level, fs) = inputs c ! info_level cur
      in if level \<noteq> 0 \<and> info_index cur < length fs - 1
         then [cur\<lparr>info_file := fs ! (info_index cur + 1), info_index := info_index cur + 1\<rparr>]
         else [])"

definition info_left :: "compaction \<Rightarrow> input_file_info \<Rightarrow> nat" where
  "info_left c i = length (snd (inputs c ! info_level i)) - info_index i"

lemma heap_top_in: "heap_top i js \<in> set (i # js)"
  by (induction i js rule: heap_top.induct) auto

text \<open>Each turn takes a file from the heap and adds at most its successor.\<close>

definition heap_measure :: "compaction \<Rightarrow> input_file_info list \<Rightarrow> nat" where
  "heap_measure c heap = sum_list (map (\<lambda>i. Suc (length (snd (inputs c ! info_level i)) - info_index i)) heap)"

lemma heap_turn:
  "heap_measure c (next_info c (heap_top i heap) @ remove1 (heap_top i heap) (i # heap)) < heap_measure c (i # heap)"
proof -
  let ?g = "\<lambda>i. Suc (length (snd (inputs c ! info_level i)) - info_index i)"
  have "sum_list (map ?g (i # heap)) = ?g (heap_top i heap) + sum_list (map ?g (remove1 (heap_top i heap) (i # heap)))"
    by (rule sum_list_map_remove1 [OF heap_top_in])
  moreover have "sum_list (map ?g (next_info c (heap_top i heap))) < ?g (heap_top i heap)"
    by (auto simp: next_info_def Let_def split: prod.splits)
  ultimately show ?thesis by (simp add: heap_measure_def del: remove1.simps)
qed

function non_overlapping_loop :: "compaction \<Rightarrow> input_file_info list \<Rightarrow> file_meta option \<Rightarrow> bool" where
  "non_overlapping_loop c [] prev = True"
| "non_overlapping_loop c (i # heap) prev =
     (let cur = heap_top i heap
      in if (case prev of None \<Rightarrow> False
             | Some p \<Rightarrow> slice_compare (user_key (largest p)) (user_key (smallest (info_file cur))) \<ge> 0)
         then False
         else non_overlapping_loop c (next_info c cur @ remove1 cur (i # heap)) (Some (info_file cur)))"
  by pat_completeness auto
termination
  by (relation "measure (\<lambda>(c, heap, prev). heap_measure c heap)") (use heap_turn in \<open>simp_all del: remove1.simps\<close>)

declare non_overlapping_loop.simps(2) [simp del]

definition IsInputFilesNonOverlapping :: "compaction \<Rightarrow> bool" where
  "IsInputFilesNonOverlapping c = non_overlapping_loop c (create_level_heap c) None"

subsection \<open>PickCompaction\<close>

text \<open>
  The choice, then the effects on the state: the constructor marks the files, the picker
  registers the compaction, and \<open>ComputeCompactionScore\<close> computes the marked files again.
\<close>

definition choose_compaction :: "picker \<Rightarrow> cf_options \<Rightarrow> version \<Rightarrow> compaction option option" where
  "choose_compaction pk opt v =
     (let runs = CalculateSortedRuns v (MaxOutputLevel v (allow_ingest_behind opt));
          trigger = level0_file_num_compaction_trigger opt
      in if length runs = 0 \<or> (marked_periodic v = [] \<and> marked v = [] \<and> length runs < trigger)
         then Some None
         else
           let c = (if marked_periodic v \<noteq> [] then PickPeriodicCompaction pk opt v runs else None)
           in do {
             c \<leftarrow> (if c = None \<and> length runs \<ge> trigger then do {
                      amp \<leftarrow> PickCompactionToReduceSizeAmp pk opt v runs;
                      Some (case amp of
                          Some c \<Rightarrow> Some c
                        | None \<Rightarrow> PickCompactionToReduceSortedRuns pk opt v runs
                            (size_ratio (universal opt)) (2 ^ 32 - 1))
                    } else Some c);
             c \<leftarrow> (if c = None then PickDeleteTriggeredCompaction pk opt v runs else Some c);
             Some (map_option (\<lambda>c. if allow_trivial_move (universal opt) \<and> reason c \<noteq> kPeriodicCompaction
                then c\<lparr>is_trivial_move := IsInputFilesNonOverlapping c\<rparr> else c) c)
           })"

definition ComputeCompactionScore :: "picker \<Rightarrow> cf_options \<Rightarrow> version \<Rightarrow> version" where
  "ComputeCompactionScore pk opt v =
     (let max_output_level = MaxOutputLevel v (allow_ingest_behind opt);
          v = v\<lparr>marked := ComputeFilesMarkedForCompaction v max_output_level\<rparr>
      in if opt_periodic_seconds opt > 0
         then v\<lparr>marked_periodic := ComputeFilesMarkedForPeriodicCompaction v (current_time pk)
                (opt_periodic_seconds opt) max_output_level\<rparr>
         else v)"

definition PickCompaction :: "picker \<Rightarrow> cf_options \<Rightarrow> version \<Rightarrow> (compaction option \<times> picker \<times> version) option" where
  "PickCompaction pk opt v = do {
     choice \<leftarrow> choose_compaction pk opt v;
     Some (case choice of
         None \<Rightarrow> (None, pk, v)
       | Some c \<Rightarrow> (Some c, RegisterCompaction c pk,
           ComputeCompactionScore pk opt (MarkFilesBeingCompacted c True v)))
   }"

text \<open>\<open>ReleaseCompactionFiles\<close>, at the end of a compaction.\<close>

definition ReleaseCompactionFiles :: "compaction \<Rightarrow> picker \<Rightarrow> version \<Rightarrow> picker \<times> version" where
  "ReleaseCompactionFiles c pk v = (UnregisterCompaction c pk, MarkFilesBeingCompacted c False v)"

definition GetMaxOverlappingBytes :: "cf_options \<Rightarrow> nat" where
  "GetMaxOverlappingBytes opt =
     (if \<not> incremental (universal opt) then 2 ^ 64 - 1 else target_file_size_base opt div 2 * 3)"

end
