(* ===== verification/Workload.thy ===== *)
theory Workload
  imports Prelude "HOL-Library.Word"
begin

section \<open>Workload files\<close>

text \<open>
  \<open>workload_gen.cc\<close> writes random 64-bit numbers in decimal, one per line, spread over one
  file per thread; the RocksDB driver reads such a file back with \<open>file >> q\<close>. Both sides
  are modelled on the text: what \<open>operator<<\<close> prints for a \<open>uint64_t\<close> and what
  \<open>operator>>\<close> reads (leading blanks skipped, the longest run of digits, failure when there
  is none or the number does not fit). The random numbers are a parameter: \<open>draw n\<close> is the
  \<open>n\<close>-th number drawn.
\<close>

subsection \<open>Numbers as text\<close>

definition digit_char :: "nat \<Rightarrow> char" where
  "digit_char d = char_of (48 + d)"

fun show_u64 :: "nat \<Rightarrow> string" where
  "show_u64 n = (if n < 10 then [digit_char n] else show_u64 (n div 10) @ [digit_char (n mod 10)])"

declare show_u64.simps [simp del]

definition is_digit :: "char \<Rightarrow> bool" where
  "is_digit c \<longleftrightarrow> 48 \<le> (of_char c :: nat) \<and> (of_char c :: nat) \<le> 57"

definition is_blank :: "char \<Rightarrow> bool" where
  "is_blank c \<longleftrightarrow> (of_char c :: nat) = 32 \<or> 9 \<le> (of_char c :: nat) \<and> (of_char c :: nat) \<le> 13"

definition digits_value :: "string \<Rightarrow> nat" where
  "digits_value s = foldl (\<lambda>n c. 10 * n + (of_char c - 48)) 0 s"

definition read_u64 :: "string \<Rightarrow> (64 word \<times> string) option" where
  "read_u64 s =
     (let s = dropWhile is_blank s;
          ds = takeWhile is_digit s
      in if ds = [] \<or> 2 ^ 64 \<le> digits_value ds then None
         else Some (word_of_nat (digits_value ds), dropWhile is_digit s))"

text \<open>The loop \<open>while (file >> q)\<close>: the numbers read until the first failure.\<close>

function read_all :: "string \<Rightarrow> 64 word list" where
  "read_all s = (case read_u64 s of None \<Rightarrow> [] | Some (q, rest) \<Rightarrow> q # read_all rest)"
  by pat_completeness auto

lemma length_dropWhile_less: "takeWhile P xs \<noteq> [] \<Longrightarrow> length (dropWhile P xs) < length xs"
  by (metis append_Nil length_greater_0_conv length_append less_add_same_cancel2 takeWhile_dropWhile_id)

lemma read_u64_shorter: "read_u64 s = Some (q, rest) \<Longrightarrow> length rest < length s"
proof -
  assume "read_u64 s = Some (q, rest)"
  then have "takeWhile is_digit (dropWhile is_blank s) \<noteq> []" "rest = dropWhile is_digit (dropWhile is_blank s)"
    by (auto simp: read_u64_def Let_def split: if_splits)
  then have "length rest < length (dropWhile is_blank s)" by (simp add: length_dropWhile_less)
  also have "\<dots> \<le> length s" by (rule length_dropWhile_le)
  finally show ?thesis .
qed

termination read_all
  by (relation "measure length") (auto dest: read_u64_shorter)

declare read_all.simps [simp del]

subsection \<open>The generator\<close>

text \<open>The line \<open>fout << number << "\n"\<close>.\<close>

definition show_line :: "64 word \<Rightarrow> string" where
  "show_line w = show_u64 (unat w) @ [char_of (10::nat)]"

text \<open>
  The inner loop: \<open>j\<close> counts the lines of the file, \<open>total\<close> the numbers drawn so far. It
  returns the text of the file and the new \<open>total\<close>.
\<close>

function gen_file :: "(nat \<Rightarrow> 64 word) \<Rightarrow> nat \<Rightarrow> nat \<Rightarrow> nat \<Rightarrow> nat \<Rightarrow> string \<times> nat" where
  "gen_file draw sz nkeys j tot =
     (if j < sz \<and> tot < nkeys then
        let (s, tot') = gen_file draw sz nkeys (j + 1) (tot + 1)
        in (show_line (draw tot) @ s, tot')
      else ([], tot))"
  by pat_completeness auto
termination
  by (relation "measure (\<lambda>(draw, sz, nkeys, j, tot). sz - j)") auto

declare gen_file.simps [simp del]

text \<open>The outer loop over the threads; \<open>n\<close> files remain to be written.\<close>

primrec gen_files :: "(nat \<Rightarrow> 64 word) \<Rightarrow> nat \<Rightarrow> nat \<Rightarrow> nat \<Rightarrow> nat \<Rightarrow> string list" where
  "gen_files draw sz nkeys 0 tot = []"
| "gen_files draw sz nkeys (Suc n) tot =
     (let (s, tot') = gen_file draw sz nkeys 0 tot in s # gen_files draw sz nkeys n tot')"

text \<open>
  \<open>main\<close>: with \<open>nthreads = 0\<close> the assertion fails. The file of thread \<open>i\<close> is the \<open>i\<close>-th of
  the result, under \<open>DATA_DIR/nthreads/nkeys/i\<close>. \<open>nkeys + (nthreads - 1)\<close> is a \<open>size_t\<close> sum.
\<close>

definition file_path :: "string \<Rightarrow> nat \<Rightarrow> nat \<Rightarrow> nat \<Rightarrow> string" where
  "file_path dir nthreads nkeys i =
     dir @ ''/'' @ show_u64 nthreads @ ''/'' @ show_u64 nkeys @ ''/'' @ show_u64 i"

definition workload_gen :: "(nat \<Rightarrow> 64 word) \<Rightarrow> string \<Rightarrow> nat \<Rightarrow> nat \<Rightarrow> (string \<times> string) list option" where
  "workload_gen draw dir nkeys nthreads =
     (if nthreads = 0 then None
      else
        let sz = (nkeys + (nthreads - 1)) mod 2 ^ 64 div nthreads;
            files = gen_files draw sz nkeys nthreads 0
        in Some (map (\<lambda>i. (file_path dir nthreads nkeys i, files ! i)) [0..<nthreads]))"

subsection \<open>Printing and reading a number\<close>

lemma digit_char_digit: "d < 10 \<Longrightarrow> is_digit (digit_char d) \<and> of_char (digit_char d) - 48 = d"
  by (simp add: is_digit_def digit_char_def)

lemma show_u64_digits: "(\<forall>c\<in>set (show_u64 n). is_digit c) \<and> show_u64 n \<noteq> []"
proof (induction n rule: show_u64.induct)
  case (1 n)
  show ?case using 1 digit_char_digit [of n] digit_char_digit [of "n mod 10"] by (subst (1 2) show_u64.simps) auto
qed

lemma digits_value_snoc: "digits_value (s @ [c]) = 10 * digits_value s + (of_char c - 48)"
  by (simp add: digits_value_def)

lemma digits_value_show: "digits_value (show_u64 n) = n"
proof (induction n rule: show_u64.induct)
  case (1 n)
  show ?case
    using 1 digit_char_digit [of n] digit_char_digit [of "n mod 10"]
    by (subst show_u64.simps) (auto simp: digits_value_snoc digits_value_def)
qed

lemma not_blank_digit: "is_digit c \<Longrightarrow> \<not> is_blank c"
  by (auto simp: is_digit_def is_blank_def)

lemma newline_class: "\<not> is_digit (char_of (10::nat))" "is_blank (char_of (10::nat))"
  by (simp_all add: is_digit_def is_blank_def)

lemma read_show_line:
  assumes "\<forall>c\<in>set pre. is_blank c"
  shows "read_u64 (pre @ show_line w @ s) = Some (w, char_of (10::nat) # s)"
proof -
  let ?d = "show_u64 (unat w)"
  obtain c cs where d: "?d = c # cs" "is_digit c" using show_u64_digits [of "unat w"] by (cases ?d) auto
  have "dropWhile is_blank (pre @ show_line w @ s) = show_line w @ s"
    using assms d not_blank_digit by (subst dropWhile_append2) (auto simp: show_line_def)
  moreover have "takeWhile is_digit (show_line w @ s) = ?d" "dropWhile is_digit (show_line w @ s) = char_of (10::nat) # s"
    using show_u64_digits [of "unat w"] newline_class(1)
    by (simp_all add: show_line_def takeWhile_append2 dropWhile_append2)
  moreover have "unat w < 2 ^ 64" using unsigned_less [of w] by simp
  ultimately show ?thesis using digits_value_show [of "unat w"] d by (simp add: read_u64_def Let_def)
qed

lemma read_all_blank: "\<forall>c\<in>set pre. is_blank c \<Longrightarrow> read_all pre = []"
proof (subst read_all.simps)
  assume "\<forall>c\<in>set pre. is_blank c"
  then have "dropWhile is_blank pre = []" by (simp only: dropWhile_eq_Nil_conv)
  then show "(case read_u64 pre of None \<Rightarrow> [] | Some (q, rest) \<Rightarrow> q # read_all rest) = []" by (simp only: read_u64_def Let_def takeWhile.simps simp_thms if_True option.case)
qed

lemma read_all_lines: "\<forall>c\<in>set pre. is_blank c \<Longrightarrow> read_all (pre @ concat (map show_line ws)) = ws"
proof (induction ws arbitrary: pre)
  case (Cons w ws)
  show ?case
    using Cons.IH [of "[char_of (10::nat)]"] newline_class(2) read_show_line [OF Cons.prems]
    by (subst read_all.simps) simp
qed (simp add: read_all_blank)

subsection \<open>What the generator writes\<close>

lemma gen_file_eq:
  "j \<le> sz \<Longrightarrow> tot \<le> nkeys \<Longrightarrow> gen_file draw sz nkeys j tot =
     (let k = min (sz - j) (nkeys - tot) in (concat (map (\<lambda>i. show_line (draw i)) [tot..<tot + k]), tot + k))"
proof (induction draw sz nkeys j tot rule: gen_file.induct)
  case (1 draw sz nkeys j tot)
  show ?case
  proof (cases "j < sz \<and> tot < nkeys")
    case True
    then have "min (sz - j) (nkeys - tot) = Suc (min (sz - (j + 1)) (nkeys - (tot + 1)))" by auto
    moreover have "[tot..<tot + Suc k] = tot # [Suc tot..<Suc tot + k]" for k
      by (simp add: upt_conv_Cons)
    ultimately show ?thesis using True 1 by (subst gen_file.simps) (simp add: Let_def)
  next
    case False
    with 1(2,3) have "min (sz - j) (nkeys - tot) = 0" by auto
    with False show ?thesis by (subst gen_file.simps) auto
  qed
qed

text \<open>The share of thread \<open>i\<close>: the numbers \<open>i * sz\<close> up to \<open>(i + 1) * sz\<close>, as far as there are any.\<close>

definition share :: "nat \<Rightarrow> nat \<Rightarrow> nat \<Rightarrow> nat list" where
  "share sz nkeys i = [min nkeys (i * sz)..<min nkeys (Suc i * sz)]"

lemma gen_files_eq:
  "gen_files draw sz nkeys n (min nkeys (i * sz)) =
     map (\<lambda>k. concat (map (\<lambda>j. show_line (draw j)) (share sz nkeys k))) [i..<i + n]"
proof (induction n arbitrary: i)
  case (Suc n)
  have "min nkeys (i * sz) + min sz (nkeys - min nkeys (i * sz)) = min nkeys (Suc i * sz)" by auto
  then show ?case
    using Suc [of "Suc i"] gen_file_eq [of 0 sz "min nkeys (i * sz)" nkeys draw]
    by (simp add: upt_conv_Cons share_def Let_def del: upt_Suc)
qed simp

lemma concat_shares: "concat (map (share sz nkeys) [0..<n]) = [0..<min nkeys (n * sz)]"
proof (induction n)
  case (Suc n)
  have "min nkeys (n * sz) \<le> min nkeys (Suc n * sz)" by (simp add: min.coboundedI2)
  then obtain d where "min nkeys (Suc n * sz) = min nkeys (n * sz) + d" using le_Suc_ex by blast
  then show ?case using Suc upt_add_eq_append [of 0 "min nkeys (n * sz)" d] by (simp add: share_def)
qed simp

lemma ceiling_div:
  assumes "0 < (n::nat)"
  shows "k \<le> n * ((k + (n - 1)) div n)"
proof -
  have "(k + (n - 1)) mod n < n" using assms by simp
  moreover have "n * ((k + (n - 1)) div n) + (k + (n - 1)) mod n = k + (n - 1)" by simp
  ultimately show ?thesis by linarith
qed

lemma workload_files:
  assumes "0 < nthreads" "nkeys + (nthreads - 1) < 2 ^ 64"
  obtains files where "workload_gen draw dir nkeys nthreads = Some files" "length files = nthreads"
    "concat (map (\<lambda>f. read_all (snd f)) files) = map draw [0..<nkeys]"
    "\<forall>f\<in>set files. length (read_all (snd f)) \<le> (nkeys + (nthreads - 1)) div nthreads"
proof -
  let ?sz = "(nkeys + (nthreads - 1)) div nthreads"
  let ?fs = "gen_files draw ?sz nkeys nthreads 0"
  have fs: "?fs = map (\<lambda>k. concat (map show_line (map draw (share ?sz nkeys k)))) [0..<nthreads]"
    using gen_files_eq [of draw ?sz nkeys nthreads 0] by (simp add: comp_def)
  have rd: "read_all (?fs ! i) = map draw (share ?sz nkeys i)" if "i < nthreads" for i
    unfolding fs using that read_all_lines [of "[]" "map draw (share ?sz nkeys i)"] by simp
  let ?out = "map (\<lambda>i. (file_path dir nthreads nkeys i, ?fs ! i)) [0..<nthreads]"
  have w: "workload_gen draw dir nkeys nthreads = Some ?out"
    using assms by (simp add: workload_gen_def)
  have "nkeys \<le> nthreads * ?sz" using assms(1) by (rule ceiling_div)
  then have sh: "concat (map (share ?sz nkeys) [0..<nthreads]) = [0..<nkeys]"
    by (simp only: concat_shares min_def if_True)
  have "map (\<lambda>f. read_all (snd f)) ?out = map (map draw) (map (share ?sz nkeys) [0..<nthreads])"
    using rd by simp
  then have "concat (map (\<lambda>f. read_all (snd f)) ?out) = map draw [0..<nkeys]"
    by (simp only: sh map_concat [symmetric])
  moreover have "\<forall>f\<in>set ?out. length (read_all (snd f)) \<le> ?sz"
    using rd by (auto simp: share_def)
  ultimately show ?thesis by (intro that [OF w]) simp_all
qed

subsection \<open>Properties\<close>

text \<open>
  C23: the generator shares the numbers out to the threads' files: there is one file per
  thread, none holds more than the rounded-up share, and reading the files one after the
  other with \<open>>>\<close> gives exactly the numbers drawn, in order.
\<close>

theorem workload_files_read_back:
  assumes "0 < nthreads" "nkeys + (nthreads - 1) < 2 ^ 64"
  shows "\<exists>files. workload_gen draw dir nkeys nthreads = Some files \<and> length files = nthreads \<and>
    concat (map (\<lambda>f. read_all (snd f)) files) = map draw [0..<nkeys] \<and>
    (\<forall>f\<in>set files. length (read_all (snd f)) \<le> (nkeys + (nthreads - 1)) div nthreads)"
  by (rule workload_files [OF assms, of draw dir]) blast

theorem workload_files_read_back_witness:
  "\<exists>files. workload_gen (\<lambda>i. word_of_nat (i * i)) ''d'' 5 2 = Some files \<and> length files = 2 \<and>
    concat (map (\<lambda>f. read_all (snd f)) files) = [0, 1, 4, 9, 16]"
  using workload_files_read_back [of 2 5 "\<lambda>i. word_of_nat (i * i)" "''d''"] by (auto simp: upt_rec)

end
