(* ===== verification/Mqssd.thy ===== *)
theory Mqssd
  imports Universal Workload
begin

section \<open>The RocksDB driver\<close>

text \<open>
  \<open>mqssd/mqssd.cc\<close>, \<open>mqssd/mqssd_util.cc\<close>, \<open>mqssd/dbb.cc\<close> and \<open>mqssd/reader.cc\<close>: the form of
  the keys, the values, the options of the two compaction styles, the workloads and the
  wait for background work. The database is a parameter: \<open>put\<close> and \<open>get\<close> stand for
  \<open>DB::Put\<close> and \<open>DB::Get\<close> on byte strings (\<^term>\<open>None\<close> of \<open>put\<close> is a status that is not ok).
  Workload files are their text, read by \<open>read_all\<close>.
\<close>

unbundle bit_operations_syntax

subsection \<open>Keys and values\<close>

definition bswap64 :: "64 word \<Rightarrow> 64 word" where
  "bswap64 w = word_of_nat (le_value (rev (le_bytes 8 w)))"

definition uint64ToString :: "64 word \<Rightarrow> bytes" where
  "uint64ToString word = le_bytes 8 (bswap64 word)"

text \<open>
  \<open>setValueBuffer\<close>: \<open>draw n\<close> is the \<open>n\<close>-th number of the generator, \<open>value_buf\<close> the buffer. A
  \<open>memset\<close> or \<open>memcpy\<close> past the end of the buffer is \<^term>\<open>None\<close>. The result is the buffer and
  how many numbers were drawn. The size is an \<open>int\<close> in the source, here a number: the callers
  pass the size of the buffer.
\<close>

function fill_random :: "(nat \<Rightarrow> 64 word) \<Rightarrow> nat \<Rightarrow> nat \<Rightarrow> nat \<Rightarrow> bytes \<Rightarrow> (bytes \<times> nat) option" where
  "fill_random draw n sz pos value_buf =
     (if pos < sz then
        if pos + 8 \<le> length value_buf
        then fill_random draw (n + 1) sz (pos + 8)
          (take pos value_buf @ le_bytes 8 (draw n) @ drop (pos + 8) value_buf)
        else None
      else Some (value_buf, n))"
  by pat_completeness auto
termination by (relation "measure (\<lambda>(draw, n, sz, pos, value_buf). sz - pos)") auto

declare fill_random.simps [simp del]

definition setValueBuffer :: "(nat \<Rightarrow> 64 word) \<Rightarrow> nat \<Rightarrow> nat \<Rightarrow> bytes \<Rightarrow> (bytes \<times> nat) option" where
  "setValueBuffer draw n sz value_buf =
     (if length value_buf < sz then None
      else fill_random draw n sz (sz div 2) (replicate sz 0 @ drop sz value_buf))"

subsection \<open>Options\<close>

datatype compaction_style = CompactionStyleLevel | CompactionStyleUniversal

text \<open>The options set by the two mains, with their types: \<open>int\<close>, \<open>unsigned int\<close>, \<open>uint64_t\<close> and \<open>double\<close>.\<close>

record db_options =
  write_buffer_size :: "64 word"
  opt_file_size_base :: "64 word"
  max_background_jobs :: int
  max_background_flushes :: int
  max_background_compactions :: int
  max_subcompactions :: "32 word"
  opt_num_levels :: int
  style :: compaction_style
  dynamic_level_bytes :: bool
  target_file_size_multiplier :: int
  max_bytes_for_level_base :: "64 word"
  max_bytes_for_level_multiplier :: nat
  level0_trigger :: int
  periodic_compaction_seconds :: "64 word"
  universal_opts :: universal_options

text \<open>\<open>size_t\<close> converted to \<open>int\<close>.\<close>

definition to_int :: "64 word \<Rightarrow> int" where
  "to_int w = sint (ucast w :: 32 word)"

text \<open>
  The universal options for a fanout, in \<open>size_t\<close> arithmetic cut to \<open>unsigned int\<close>; a fanout
  of 1 divides by zero.
\<close>

definition mqssd_universal :: "64 word \<Rightarrow> universal_options option" where
  "mqssd_universal fanout =
     (if fanout - 1 = 0 then None
      else Some (CompactionOptionsUniversal
        \<lparr>max_size_amplification_percent :=
           unat (ucast (100 * ((fanout - 1) + fanout div (fanout - 1))) :: 32 word),
         size_ratio := 1,
         min_merge_width := unat (ucast fanout :: 32 word),
         max_merge_width := unat (ucast fanout :: 32 word)\<rparr>))"

text \<open>The options of \<open>mqssd.cc\<close>; \<open>def\<close> are the defaults of RocksDB.\<close>

definition mqssd_options ::
  "db_options \<Rightarrow> 64 word \<Rightarrow> 64 word \<Rightarrow> 64 word \<Rightarrow> bool \<Rightarrow> bool \<Rightarrow> 64 word \<Rightarrow> db_options option" where
  "mqssd_options def nflushthreads ncompthreads fanout leveled dynamic_level filesize =
     (let num_L1_files = 4;
          opt = def\<lparr>write_buffer_size := filesize * 1048576,
            opt_file_size_base := filesize * 1048576,
            max_background_jobs := to_int (nflushthreads + ncompthreads),
            max_background_flushes := to_int nflushthreads,
            max_background_compactions := to_int ncompthreads,
            max_subcompactions := ucast ncompthreads\<rparr>
      in if leveled then
           Some (opt\<lparr>opt_num_levels := 9, style := CompactionStyleLevel,
             dynamic_level_bytes := dynamic_level, target_file_size_multiplier := 1,
             max_bytes_for_level_base := num_L1_files * opt_file_size_base opt,
             max_bytes_for_level_multiplier := unat fanout, level0_trigger := to_int num_L1_files\<rparr>)
         else do {
           u \<leftarrow> mqssd_universal fanout;
           Some (opt\<lparr>opt_num_levels := to_int (fanout * 5), style := CompactionStyleUniversal,
             periodic_compaction_seconds := 0, level0_trigger := to_int fanout,
             universal_opts := u\<rparr>)
         })"

text \<open>The options of \<open>dbb.cc\<close>, which has one flush thread.\<close>

definition dbb_options ::
  "db_options \<Rightarrow> 64 word \<Rightarrow> 64 word \<Rightarrow> bool \<Rightarrow> bool \<Rightarrow> 64 word \<Rightarrow> db_options option" where
  "dbb_options def ncompthreads fanout leveled dynamic_level filesize =
     (let nflushthreads = 1;
          opt = def\<lparr>write_buffer_size := filesize * 1048576,
            opt_file_size_base := filesize * 1048576,
            max_background_jobs := to_int (nflushthreads + ncompthreads),
            max_background_flushes := to_int nflushthreads,
            max_background_compactions := to_int ncompthreads,
            max_subcompactions := ucast ncompthreads\<rparr>
      in if leveled then
           let num_L1_files = 4 in
           Some (opt\<lparr>opt_num_levels := 9, style := CompactionStyleLevel,
             dynamic_level_bytes := dynamic_level, target_file_size_multiplier := 1,
             max_bytes_for_level_base := num_L1_files * opt_file_size_base opt,
             max_bytes_for_level_multiplier := unat fanout, level0_trigger := to_int num_L1_files\<rparr>)
         else do {
           u \<leftarrow> mqssd_universal fanout;
           Some (opt\<lparr>opt_num_levels := to_int (fanout * 5), style := CompactionStyleUniversal,
             periodic_compaction_seconds := 0, level0_trigger := to_int fanout,
             universal_opts := u\<rparr>)
         })"

text \<open>
  The part of \<open>SanitizeCfOptions\<close> (\<open>db/column_family.cc\<close>) that RocksDB applies to the period of
  periodic compactions when it opens the database: whether there is a compaction filter,
  whether the tables are block based, the \<open>ttl\<close> and the period asked for.
\<close>

definition kDefaultTtl :: "64 word" where
  "kDefaultTtl = 0xfffffffffffffffe"

definition kDefaultPeriodicCompSecs :: "64 word" where
  "kDefaultPeriodicCompSecs = 0xfffffffffffffffe"

definition sanitize_periodic :: "compaction_style \<Rightarrow> bool \<Rightarrow> bool \<Rightarrow> 64 word \<Rightarrow> 64 word \<Rightarrow> 64 word" where
  "sanitize_periodic st compaction_filter is_block_based_table ttl periodic =
     (let kAdjustedTtl = 30 * 24 * 60 * 60;
          ttl = (if ttl = kDefaultTtl then if is_block_based_table then kAdjustedTtl else 0 else ttl);
          kAdjustedPeriodicCompSecs = 30 * 24 * 60 * 60;
          periodic = (case st of
              CompactionStyleLevel \<Rightarrow>
                if compaction_filter \<and> periodic = kDefaultPeriodicCompSecs \<and> is_block_based_table
                then kAdjustedPeriodicCompSecs else periodic
            | CompactionStyleUniversal \<Rightarrow>
                if periodic = kDefaultPeriodicCompSecs \<and> is_block_based_table
                then kAdjustedPeriodicCompSecs else periodic);
          periodic = (if st = CompactionStyleUniversal then
              if periodic = 0 then ttl else if ttl \<noteq> 0 then min ttl periodic else periodic
            else periodic)
      in if periodic = kDefaultPeriodicCompSecs then 0 else periodic)"

subsection \<open>Workloads\<close>

text \<open>\<open>runWriteWorkload\<close> up to the flush: one \<open>Put\<close> per number of the key file, with a new value.\<close>

definition runWriteWorkload ::
  "('db \<Rightarrow> bytes \<Rightarrow> bytes \<Rightarrow> 'db option) \<Rightarrow> (nat \<Rightarrow> 64 word) \<Rightarrow> string \<Rightarrow> nat \<Rightarrow> 'db \<Rightarrow> 'db option" where
  "runWriteWorkload put draw key_file val_sz db = do {
     (db, _, _) \<leftarrow> foldM (\<lambda>(db, buf, n) key. do {
         (buf, n) \<leftarrow> setValueBuffer draw n val_sz buf;
         db \<leftarrow> put db (uint64ToString key) buf;
         Some (db, buf, n)
       }) (db, replicate val_sz 0, 0) (read_all key_file);
     Some db
   }"

text \<open>The check of a value read: \<open>assert(val.size() >= sizeof(q))\<close>, then its first eight bytes.\<close>

definition check_value :: "bytes option \<Rightarrow> 64 word option option" where
  "check_value r =
     (case r of
        None \<Rightarrow> Some None
      | Some val \<Rightarrow> if length val \<ge> 8 then Some (Some (word_of_nat (le_value (take 8 val)))) else None)"

definition runReadWorkload :: "('db \<Rightarrow> bytes \<Rightarrow> bytes option) \<Rightarrow> string \<Rightarrow> 'db \<Rightarrow> 64 word option list option" where
  "runReadWorkload get query_file db =
     foldM (\<lambda>out q. do {
         r \<leftarrow> check_value (get db (uint64ToString q));
         Some (out @ [r])
       }) [] (read_all query_file)"

text \<open>\<open>warmCache\<close> skips \<open>8 * sample_gap\<close> characters after each query it runs.\<close>

function warm_loop :: "('db \<Rightarrow> bytes \<Rightarrow> bytes option) \<Rightarrow> nat \<Rightarrow> 'db \<Rightarrow> string \<Rightarrow> 64 word list option" where
  "warm_loop get gap db s =
     (case read_u64 s of
        None \<Rightarrow> Some []
      | Some (q, rest) \<Rightarrow> do {
          _ \<leftarrow> check_value (get db (uint64ToString q));
          qs \<leftarrow> warm_loop get gap db (drop (8 * gap) rest);
          Some (q # qs)
        })"
  by pat_completeness auto
termination
  by (relation "measure (\<lambda>(get, gap, db, s). length s)") (auto dest!: read_u64_shorter)

declare warm_loop.simps [simp del]

definition warmCache :: "('db \<Rightarrow> bytes \<Rightarrow> bytes option) \<Rightarrow> string \<Rightarrow> 'db \<Rightarrow> 64 word list option" where
  "warmCache get query_file db = warm_loop get (max (length query_file div 1000000) 1) db query_file"

text \<open>\<open>main\<close> of \<open>reader.cc\<close>: a lookup that does not succeed aborts; otherwise the number of queries.\<close>

definition reader_main :: "('db \<Rightarrow> bytes \<Rightarrow> bytes option) \<Rightarrow> string \<Rightarrow> 'db \<Rightarrow> nat option" where
  "reader_main get query_file db =
     foldM (\<lambda>count q. case get db (uint64ToString q) of None \<Rightarrow> None | Some _ \<Rightarrow> Some (count + 1))
       0 (read_all query_file)"

subsection \<open>Waiting for background work\<close>

text \<open>
  One reading of the four properties; \<^term>\<open>None\<close> where \<open>GetIntProperty\<close> fails.
\<close>

record sample =
  running_flushes :: "nat option"
  running_compactions :: "nat option"
  flush_pending :: "nat option"
  compaction_pending :: "nat option"

definition quiet_sample :: "bool \<Rightarrow> sample \<Rightarrow> bool" where
  "quiet_sample is_leveled s =
     (case running_flushes s of None \<Rightarrow> False | Some n \<Rightarrow>
      if n > 0 then False else
      case running_compactions s of None \<Rightarrow> False | Some n \<Rightarrow>
      if n > 0 then False else
      case flush_pending s of None \<Rightarrow> False | Some n \<Rightarrow>
      if n = 1 then False else
      if is_leveled then (case compaction_pending s of None \<Rightarrow> False | Some n \<Rightarrow> n \<noteq> 1)
      else True)"

text \<open>
  The loop, from sample \<open>i\<close> on, for at most \<open>fuel\<close> turns: the number of the sample at which it
  ends, \<^term>\<open>None\<close> if it has not ended yet.
\<close>

primrec wait_loop :: "nat \<Rightarrow> bool \<Rightarrow> (nat \<Rightarrow> sample) \<Rightarrow> bool \<Rightarrow> nat \<Rightarrow> nat option" where
  "wait_loop 0 is_leveled samples double_checked i = None"
| "wait_loop (Suc fuel) is_leveled samples double_checked i =
     (if \<not> quiet_sample is_leveled (samples i) then wait_loop fuel is_leveled samples double_checked (i + 1)
      else if double_checked then Some i
      else wait_loop fuel is_leveled samples True (i + 1))"

definition waitForBGCompactions :: "nat \<Rightarrow> bool \<Rightarrow> (nat \<Rightarrow> sample) \<Rightarrow> nat option" where
  "waitForBGCompactions fuel is_leveled samples = wait_loop fuel is_leveled samples False 0"

subsection \<open>Printing the LSM tree\<close>

record level_meta =
  level_no :: int
  level_files :: "(nat \<times> string) list"

datatype lsm_line =
  Total_Size nat | Total_File_Count nat | Largest_Level int |
  Level_Line int nat | File_Line nat string

definition largest_used_level :: "level_meta list \<Rightarrow> int" where
  "largest_used_level ls = foldl (\<lambda>m l. if level_files l \<noteq> [] then level_no l else m) (- 1) ls"

fun print_levels :: "int \<Rightarrow> level_meta list \<Rightarrow> lsm_line list" where
  "print_levels deepest [] = []"
| "print_levels deepest (l # ls) =
     Level_Line (level_no l) (sum_list (map fst (level_files l))) #
     map (\<lambda>(sz, name). File_Line sz name) (level_files l) @
     (if level_no l = deepest then [] else print_levels deepest ls)"

definition printLSM :: "nat \<Rightarrow> nat \<Rightarrow> level_meta list \<Rightarrow> lsm_line list" where
  "printLSM cf_size file_count ls =
     [Total_Size cf_size, Total_File_Count file_count, Largest_Level (largest_used_level ls)] @
     print_levels (largest_used_level ls) ls"

subsection \<open>Keys keep their order\<close>

lemma uint64ToString_rev: "uint64ToString w = rev (le_bytes 8 w)"
proof (rule le_value_inj)
  let ?bs = "rev (le_bytes 8 w)"
  have "le_value ?bs < 2 ^ 64" using le_value_bound [of ?bs] by simp
  then show "le_value (uint64ToString w) = le_value ?bs"
    by (simp add: uint64ToString_def bswap64_def le_value_le_bytes unsigned_of_nat take_bit_nat_eq_self)
qed (simp add: uint64ToString_def)

lemma length_uint64ToString [simp]: "length (uint64ToString w) = 8"
  by (simp add: uint64ToString_def)

lemma be_value_uint64ToString: "be_value (uint64ToString w) = unat w"
proof -
  have "unat w < 2 ^ 64" using unsigned_less [of w] by simp
  then show ?thesis by (simp add: uint64ToString_rev be_value_def le_value_le_bytes)
qed

lemma uint64ToString_less: "uint64ToString a < uint64ToString b \<longleftrightarrow> a < b"
  by (simp add: less_be_value be_value_uint64ToString word_less_nat_alt)

lemma uint64ToString_inj: "uint64ToString a = uint64ToString b \<longleftrightarrow> a = b"
  by (metis be_value_uint64ToString word_unat_eq_iff)

subsection \<open>Values\<close>

lemma fill_random_spec:
  assumes "pos + 8 * k = sz" "sz \<le> length buf"
  shows "fill_random draw n sz pos buf =
    Some (take pos buf @ concat (map (\<lambda>i. le_bytes 8 (draw (n + i))) [0..<k]) @ drop sz buf, n + k)"
  using assms
proof (induction k arbitrary: n pos buf)
  case 0
  then show ?case by (subst fill_random.simps) simp
next
  case (Suc k)
  let ?buf = "take pos buf @ le_bytes 8 (draw n) @ drop (pos + 8) buf"
  have len: "length ?buf = length buf" using Suc.prems by simp
  have "fill_random draw (n + 1) sz (pos + 8) ?buf =
    Some (take (pos + 8) ?buf @ concat (map (\<lambda>i. le_bytes 8 (draw (n + 1 + i))) [0..<k]) @ drop sz ?buf, n + 1 + k)"
    using Suc.prems len by (intro Suc.IH) auto
  moreover have "take (pos + 8) ?buf = take pos buf @ le_bytes 8 (draw n)" "drop sz ?buf = drop sz buf"
    using Suc.prems by simp_all
  moreover have "map (\<lambda>i. le_bytes 8 (draw (n + i))) [0..<Suc k] =
      le_bytes 8 (draw n) # map (\<lambda>i. le_bytes 8 (draw (n + 1 + i))) [0..<k]"
    by (simp add: upt_conv_Cons map_Suc_upt [symmetric] del: upt_Suc)
  ultimately show ?case using Suc.prems by (subst fill_random.simps) (simp del: upt_Suc)
qed

lemma fill_random_overrun:
  assumes "pos < sz" "length buf = sz" "(sz - pos) mod 8 \<noteq> 0"
  shows "fill_random draw n sz pos buf = None"
  using assms
proof (induction draw n sz pos buf rule: fill_random.induct)
  case (1 draw n sz pos buf)
  show ?case
  proof (cases "pos + 8 \<le> length buf")
    case True
    with 1(3) have "pos + 8 \<le> sz" by simp
    moreover from this 1(4) have "(sz - (pos + 8)) mod 8 \<noteq> 0"
      using le_mod_geq [of 8 "sz - pos"] by simp
    moreover from this have "pos + 8 < sz" by (metis diff_is_0_eq mod_0 not_le)
    ultimately show ?thesis using 1(1) [OF 1(2) True] 1(2,3) True by (subst fill_random.simps) simp
  qed (use 1(2) in \<open>subst fill_random.simps, simp\<close>)
qed

lemma setValueBuffer_spec:
  assumes "length buf = sz" "sz = 2 * (8 * k)"
  shows "setValueBuffer draw n sz buf =
    Some (replicate (8 * k) 0 @ concat (map (\<lambda>i. le_bytes 8 (draw (n + i))) [0..<k]), n + k)"
  using assms fill_random_spec [of "8 * k" k sz "replicate sz 0" draw n]
  by (simp add: setValueBuffer_def min_def)

lemma length_concat_words: "length (concat (map (\<lambda>i. le_bytes 8 (draw (n + i :: nat))) xs)) = 8 * length xs"
  by (induction xs) simp_all

lemma setValueBuffer_overrun:
  assumes "length buf = sz" "(sz - sz div 2) mod 8 \<noteq> 0"
  shows "setValueBuffer draw n sz buf = None"
proof -
  have "sz div 2 < sz" using assms(2) by (cases sz) auto
  then show ?thesis using assms by (simp add: setValueBuffer_def fill_random_overrun)
qed

subsection \<open>Options of the two programs\<close>

lemma dbb_mqssd_options:
  "dbb_options def ncompthreads fanout leveled dynamic_level filesize =
   mqssd_options def 1 ncompthreads fanout leveled dynamic_level filesize"
  by (simp add: dbb_options_def mqssd_options_def Let_def)

lemma universal_fanout_one: "mqssd_options def nf nc 1 False dynamic_level filesize = None"
  by (simp add: mqssd_options_def mqssd_universal_def Let_def)

text \<open>For a fanout that fits in an \<open>unsigned int\<close> with its percentage, nothing wraps.\<close>

lemma mqssd_universal_value:
  assumes "2 \<le> f" "f \<le> 1000"
  shows "mqssd_universal (word_of_nat f) =
    Some (CompactionOptionsUniversal
      \<lparr>max_size_amplification_percent := 100 * ((f - 1) + f div (f - 1)),
       size_ratio := 1, min_merge_width := f, max_merge_width := f\<rparr>)"
proof -
  let ?w = "word_of_nat f :: 64 word" and ?m = "100 * ((f - 1) + f div (f - 1))"
  have "f div (f - 1) \<le> 2 * (f - 1) div (f - 1)" using assms by (intro div_le_mono) linarith
  then have q: "f div (f - 1) \<le> 2" using assms by simp
  have u: "unat (word_of_nat a :: 64 word) = a" if "a < 2 ^ 64" for a
    using that by (simp add: unsigned_of_nat take_bit_nat_eq_self)
  have u': "unat (ucast (word_of_nat a :: 64 word) :: 32 word) = a" if "a < 2 ^ 32" for a
    using that by (simp add: unsigned_ucast_eq unsigned_of_nat take_bit_nat_eq_self)
  have w1: "?w - 1 = word_of_nat (f - 1)" using assms by (simp add: of_nat_diff)
  have d: "?w div (?w - 1) = word_of_nat (f div (f - 1))"
    unfolding w1 using assms q by (simp add: word_unat_eq_iff unat_div u del: of_nat_diff)
  have m: "100 * ((?w - 1) + ?w div (?w - 1)) = word_of_nat ?m" unfolding d unfolding w1 by simp
  have "(f - 1) + f div (f - 1) \<le> 999 + 2" using assms by (intro add_mono q) simp
  then have "?m < 2 ^ 32" using mult_le_mono2 [of _ _ 100] by fastforce
  then have um: "unat (ucast (word_of_nat ?m :: 64 word) :: 32 word) = ?m" by (rule u')
  have uf: "unat (ucast ?w :: 32 word) = f" using assms by (intro u') simp
  have nz: "?w - 1 \<noteq> 0" unfolding w1 using assms u [of "f - 1"]
    by (auto simp: word_unat_eq_iff simp del: of_nat_diff)
  show ?thesis unfolding mqssd_universal_def m um uf using nz by (simp only: if_False)
qed

subsection \<open>Workloads\<close>

text \<open>The values of a workload: the \<open>i\<close>-th one is half zeros, half drawn numbers.\<close>

definition workload_value :: "(nat \<Rightarrow> 64 word) \<Rightarrow> nat \<Rightarrow> nat \<Rightarrow> bytes" where
  "workload_value draw k i =
     replicate (8 * k) 0 @ concat (map (\<lambda>j. le_bytes 8 (draw (k * i + j))) [0..<k])"

lemma length_workload_value [simp]: "length (workload_value draw k i) = 2 * (8 * k)"
  by (simp add: workload_value_def length_concat_words)

lemma write_loop:
  assumes "\<And>db key val. \<exists>db'. put db key val = Some db'" "length buf = 2 * (8 * k)"
  shows "\<exists>buf'. foldM (\<lambda>(db, buf, n) key. do {
         (buf, n) \<leftarrow> setValueBuffer draw n (2 * (8 * k)) buf;
         db \<leftarrow> put db (uint64ToString key) buf;
         Some (db, buf, n)
       }) (db, buf, k * i) ws =
     Some (fold (\<lambda>(j, w) db. the (put db (uint64ToString w) (workload_value draw k j))) (enumerate i ws) db,
       buf', k * (i + length ws))"
  using assms(2)
proof (induction ws arbitrary: db buf i)
  case (Cons w ws)
  let ?v = "workload_value draw k i"
  obtain db' where db': "put db (uint64ToString w) ?v = Some db'" using assms(1) by blast
  have "setValueBuffer draw (k * i) (2 * (8 * k)) buf = Some (?v, k * Suc i)"
    using setValueBuffer_spec [OF Cons.prems refl, of draw "k * i"] by (simp add: workload_value_def)
  with db' Cons.IH [of ?v db' "Suc i"] show ?case by (simp del: mult_Suc_right)
qed simp

lemma runWriteWorkload_eq:
  assumes "\<And>db key val. \<exists>db'. put db key val = Some db'"
  shows "runWriteWorkload put draw key_file (2 * (8 * k)) db =
    Some (fold (\<lambda>(j, w) db. the (put db (uint64ToString w) (workload_value draw k j)))
      (enumerate 0 (read_all key_file)) db)"
proof -
  have "length (replicate (2 * (8 * k)) (0 :: 8 word)) = 2 * (8 * k)" by simp
  from write_loop [where put = put, OF assms this, where draw = draw and db = db and i = 0 and ws = "read_all key_file"]
  show ?thesis unfolding mult_0_right runWriteWorkload_def by (elim exE) (simp only: bind.bind_lunit prod.case)
qed

text \<open>The value of the last write of a key, by a database in which a read gives what was last written.\<close>

lemma fold_put_get:
  assumes "\<And>db key val. \<exists>db'. put db key val = Some db'"
    and "\<And>db key val db' key'. put db key val = Some db' \<Longrightarrow> get db' key' = (if key' = key then Some val else get db key')"
  shows "get (fold (\<lambda>(j, w) db. the (put db (uint64ToString w) (workload_value draw k j))) (enumerate i ws) db)
      (uint64ToString q) =
    (case find (\<lambda>(j, w). w = q) (rev (enumerate i ws)) of
       None \<Rightarrow> get db (uint64ToString q) | Some (j, _) \<Rightarrow> Some (workload_value draw k j))"
proof (induction ws rule: rev_induct)
  case (snoc w ws)
  let ?db = "fold (\<lambda>(j, w) db. the (put db (uint64ToString w) (workload_value draw k j))) (enumerate i ws) db"
  obtain db' where db': "put ?db (uint64ToString w) (workload_value draw k (i + length ws)) = Some db'"
    using assms(1) by blast
  show ?case
    using snoc db' assms(2) [OF db', of "uint64ToString q"]
    by (auto simp: enumerate_append_eq uint64ToString_inj split: option.splits)
qed simp

lemma find_enumerate_None: "find (\<lambda>(j, w). w = q) (rev (enumerate i ws)) = None \<longleftrightarrow> q \<notin> set ws"
  by (induction ws rule: rev_induct) (auto simp: enumerate_append_eq)

text \<open>The first eight bytes of a value are zero.\<close>

lemma check_workload_value: "0 < k \<Longrightarrow> check_value (Some (workload_value draw k j)) = Some (Some 0)"
proof -
  assume "0 < k"
  then obtain k' where "8 * k = 8 + 8 * k'" by (cases k) auto
  then have "take 8 (workload_value draw k j) = replicate 8 0"
    by (simp add: workload_value_def replicate_add)
  moreover have "le_value (replicate n 0) = 0" for n by (induction n) simp_all
  ultimately show ?thesis using \<open>0 < k\<close> by (simp add: check_value_def)
qed

lemma foldM_out:
  assumes "\<And>q. q \<in> set qs \<Longrightarrow> h q = Some (g q)"
  shows "foldM (\<lambda>out q. do { r \<leftarrow> h q; Some (out @ [r]) }) out qs = Some (out @ map g qs)"
  using assms by (induction qs arbitrary: out) simp_all

lemma foldM_count:
  "foldM (\<lambda>count q. case h q of None \<Rightarrow> None | Some _ \<Rightarrow> Some (count + 1)) n qs =
     (if \<forall>q\<in>set qs. h q \<noteq> None then Some (n + length qs) else None)"
  by (induction qs arbitrary: n) (auto split: option.splits)

subsection \<open>The wait for background work\<close>

lemma wait_checked:
  "wait_loop fuel lv samples True i = Some n \<longleftrightarrow>
     n < i + fuel \<and> i \<le> n \<and> quiet_sample lv (samples n) \<and> (\<forall>j. i \<le> j \<and> j < n \<longrightarrow> \<not> quiet_sample lv (samples j))"
proof (induction fuel arbitrary: i)
  case (Suc fuel)
  show ?case
  proof (cases "quiet_sample lv (samples i)")
    case True
    then show ?thesis by (auto simp: le_less)
  next
    case False
    then have "(\<forall>j. i \<le> j \<and> j < n \<longrightarrow> \<not> quiet_sample lv (samples j)) \<longleftrightarrow>
        (\<forall>j. Suc i \<le> j \<and> j < n \<longrightarrow> \<not> quiet_sample lv (samples j))"
      by (metis Suc_leD Suc_leI le_neq_implies_less)
    then show ?thesis using False Suc.IH [of "Suc i"] by (auto simp: Suc_le_eq le_less)
  qed
qed simp

lemma wait_first:
  "wait_loop fuel lv samples False i = Some n \<longleftrightarrow>
     n < i + fuel \<and> quiet_sample lv (samples n) \<and>
     (\<exists>m. i \<le> m \<and> m < n \<and> quiet_sample lv (samples m) \<and>
        (\<forall>j. i \<le> j \<and> j < n \<and> j \<noteq> m \<longrightarrow> \<not> quiet_sample lv (samples j)))"
proof (induction fuel arbitrary: i)
  case (Suc fuel)
  show ?case
  proof (cases "quiet_sample lv (samples i)")
    case True
    then show ?thesis
      by (auto simp: wait_checked Suc_le_eq intro!: exI [of _ i]) (metis le_refl less_trans not_less)
  next
    case False
    then show ?thesis using Suc.IH [of "Suc i"]
      by (auto simp: Suc_le_eq) (metis le_neq_implies_less less_imp_le_nat)+
  qed
qed auto

lemma quiet_count:
  "card {j. j < n \<and> quiet_sample lv (samples j)} = 1 \<longleftrightarrow>
     (\<exists>m. m < n \<and> quiet_sample lv (samples m) \<and> (\<forall>j. j < n \<and> j \<noteq> m \<longrightarrow> \<not> quiet_sample lv (samples j)))"
  by (auto simp: card_1_singleton_iff set_eq_iff)

text \<open>What a reading must show: the number of pending compactions matters for leveled compaction only.\<close>

definition at_rest :: "bool \<Rightarrow> sample \<Rightarrow> bool" where
  "at_rest is_leveled s \<longleftrightarrow> running_flushes s = Some 0 \<and> running_compactions s = Some 0 \<and>
     flush_pending s \<in> Some ` (- {1}) \<and> (if is_leveled then compaction_pending s \<in> Some ` (- {1}) else True)"

lemma quiet_at_rest: "quiet_sample lv s = at_rest lv s"
  by (auto simp: quiet_sample_def at_rest_def split: option.splits if_splits)

subsection \<open>Numbers cut by skipping characters\<close>

lemma digits_value_append: "digits_value (xs @ ys) = digits_value xs * 10 ^ length ys + digits_value ys"
proof (induction ys rule: rev_induct)
  case (snoc y ys)
  then show ?case using digits_value_snoc [of "xs @ ys" y] by (simp add: digits_value_snoc algebra_simps)
qed (simp add: digits_value_def)

lemma digits_value_less: "\<forall>c\<in>set ds. is_digit c \<Longrightarrow> digits_value ds < 10 ^ length ds"
proof (induction ds rule: rev_induct)
  case (snoc c ds)
  then have "of_char c - 48 \<le> (9 :: nat)" "digits_value ds < 10 ^ length ds" by (auto simp: is_digit_def)
  then show ?case by (simp add: digits_value_snoc)
qed (simp add: digits_value_def)

lemma digits_value_drop:
  assumes "k \<le> length (show_u64 n)"
  shows "digits_value (drop k (show_u64 n)) = n mod 10 ^ (length (show_u64 n) - k)"
proof -
  let ?d = "show_u64 n"
  have "\<forall>c\<in>set (drop k ?d). is_digit c" using show_u64_digits [of n] by (meson in_set_dropD)
  then have "digits_value (drop k ?d) < 10 ^ (length ?d - k)" using digits_value_less by fastforce
  moreover have "n = digits_value (take k ?d) * 10 ^ (length ?d - k) + digits_value (drop k ?d)"
    using digits_value_append [of "take k ?d" "drop k ?d"] by (simp add: digits_value_show)
  ultimately show ?thesis by (metis mod_less mod_mult_self3)
qed

lemma show_u64_ge: "0 < n \<Longrightarrow> 10 ^ (length (show_u64 n) - 1) \<le> n"
proof (induction n rule: show_u64.induct)
  case (1 n)
  show ?case
  proof (cases "n < 10")
    case True
    then show ?thesis using 1 by (subst show_u64.simps) simp
  next
    case False
    then have "10 ^ (length (show_u64 (n div 10)) - 1) \<le> n div 10" using 1 by simp
    moreover have "length (show_u64 (n div 10)) = Suc (length (show_u64 (n div 10)) - 1)"
      using show_u64_digits [of "n div 10"] by (cases "show_u64 (n div 10)") auto
    ultimately show ?thesis using False
      by (subst show_u64.simps) (simp, metis div_le_mono div_mult_self1_is_m dual_order.trans mult_le_mono2 power_Suc times_div_less_eq_dividend)
  qed
qed

lemma cut_less:
  assumes "0 < n" "0 < k"
  shows "n mod 10 ^ (length (show_u64 n) - k) < n"
proof -
  let ?d = "show_u64 n"
  have "(10 :: nat) ^ (length ?d - k) \<le> 10 ^ (length ?d - 1)" using assms(2) by (intro power_increasing) simp_all
  also have "\<dots> \<le> n" using assms(1) by (rule show_u64_ge)
  finally have "10 ^ (length ?d - k) \<le> n" .
  moreover have "n mod 10 ^ (length ?d - k) < 10 ^ (length ?d - k)" by (rule mod_less_divisor) simp
  ultimately show ?thesis by (rule less_le_trans [rotated])
qed

lemma read_digits:
  assumes "\<forall>c\<in>set ds. is_digit c" "ds \<noteq> []" "digits_value ds < 2 ^ 64"
  shows "read_u64 (ds @ char_of (10 :: nat) # s) = Some (word_of_nat (digits_value ds), char_of (10 :: nat) # s)"
proof -
  have "dropWhile is_blank (ds @ char_of (10 :: nat) # s) = ds @ char_of (10 :: nat) # s"
    using assms(1,2) not_blank_digit by (cases ds) auto
  moreover have "\<not> is_digit (char_of (10 :: nat))" by (simp add: is_digit_def)
  ultimately show ?thesis using assms by (simp add: read_u64_def takeWhile_append dropWhile_append)
qed

lemma warm_returns:
  assumes "\<forall>q. check_value (get db (uint64ToString q)) \<noteq> None"
  shows "\<exists>qs. warm_loop get gap db s = Some qs"
proof (induction s rule: length_induct)
  case (1 s)
  show ?case
  proof (cases "read_u64 s")
    case None
    then show ?thesis by (simp add: warm_loop.simps)
  next
    case (Some r)
    obtain q rest where r: "r = (q, rest)" by (cases r)
    have "length (drop (8 * gap) rest) < length s" using read_u64_shorter Some r by fastforce
    then obtain qs where "warm_loop get gap db (drop (8 * gap) rest) = Some qs" using 1 by blast
    moreover obtain x where "check_value (get db (uint64ToString q)) = Some x" using assms by blast
    ultimately show ?thesis using Some r by (subst warm_loop.simps) simp
  qed
qed

subsection \<open>Printing\<close>

fun file_lines :: "lsm_line list \<Rightarrow> (nat \<times> string) list" where
  "file_lines (File_Line sz name # ls) = (sz, name) # file_lines ls"
| "file_lines (_ # ls) = file_lines ls"
| "file_lines [] = []"

lemma file_lines_append: "file_lines (as @ bs) = file_lines as @ file_lines bs"
  by (induction as rule: file_lines.induct) simp_all

lemma file_lines_files: "file_lines (map (\<lambda>(sz, name). File_Line sz name) fs) = fs"
  by (induction fs) auto

lemma foldl_last_used:
  "foldl (\<lambda>m l. if level_files l \<noteq> [] then level_no l else m) d ls =
     (case find (\<lambda>l. level_files l \<noteq> []) (rev ls) of None \<Rightarrow> d | Some l \<Rightarrow> level_no l)"
  by (induction ls rule: rev_induct) simp_all

lemma find_append: "find P (xs @ ys) = (case find P xs of None \<Rightarrow> find P ys | Some x \<Rightarrow> Some x)"
  by (induction xs) auto

lemma find_in_set: "find P xs = Some x \<Longrightarrow> x \<in> set xs \<and> P x"
  by (induction xs) (auto split: if_splits)

lemma print_levels_files:
  assumes "distinct (map level_no ls)" "\<And>l. l \<in> set ls \<Longrightarrow> level_no l \<noteq> d"
  shows "file_lines (print_levels
      (case find (\<lambda>l. level_files l \<noteq> []) (rev ls) of None \<Rightarrow> d | Some l \<Rightarrow> level_no l) ls) =
    concat (map level_files ls)"
  using assms
proof (induction ls arbitrary: d)
  case (Cons l ls)
  show ?case
  proof (cases "find (\<lambda>l. level_files l \<noteq> []) (rev ls)")
    case None
    then have rest: "\<And>l. l \<in> set ls \<Longrightarrow> level_files l = []" by (auto simp: find_None_iff)
    then have empty: "concat (map level_files ls) = []" by simp
    have "file_lines (print_levels d ls) = []" if "\<And>l. l \<in> set ls \<Longrightarrow> level_files l = []" for d
      using that by (induction ls) simp_all
    with None empty rest show ?thesis
      by (auto simp: find_append file_lines_append file_lines_files split: option.splits)
  next
    case (Some l')
    then have "l' \<in> set ls" using find_in_set by fastforce
    then have "level_no l \<noteq> level_no l'" using Cons.prems(1) by force
    moreover have "file_lines (print_levels (level_no l') ls) = concat (map level_files ls)"
      using Cons.IH [of d] Cons.prems Some by simp
    ultimately show ?thesis
      using Some by (simp add: find_append file_lines_append file_lines_files)
  qed
qed simp

subsection \<open>Properties\<close>

text \<open>
  C18: the key of a number in the database compares, byte by byte, as the number does:
  \<open>uint64ToString\<close> keeps the order of the numbers and gives different numbers different keys.
\<close>

theorem keys_keep_order:
  "(slice_compare (uint64ToString a) (uint64ToString b) < 0 \<longleftrightarrow> a < b) \<and>
   (slice_compare (uint64ToString a) (uint64ToString b) = 0 \<longleftrightarrow> a = b)"
  by (simp add: slice_compare_order uint64ToString_less uint64ToString_inj)

text \<open>
  C14: a key file that \<open>workload_gen\<close> writes for one thread, written to the database by
  \<open>runWriteWorkload\<close> with the values of 512 bytes that \<open>main\<close> asks for, can be read back: over
  a database whose \<open>Put\<close> succeeds and whose \<open>Get\<close> gives the value last put, \<open>reader\<close> finds
  every key and counts \<open>nkeys\<close> of them, and \<open>runReadWorkload\<close> reads a zero word from each.
\<close>

theorem workload_written_and_read:
  assumes "\<And>db key val. \<exists>db'. put db key val = Some db'"
    and "\<And>db key val db' key'. put db key val = Some db' \<Longrightarrow> get db' key' = (if key' = key then Some val else get db key')"
    and "nkeys < 2 ^ 64" "workload_gen keys dir nkeys 1 = Some [(path, contents)]"
  shows "\<exists>db'. runWriteWorkload put draw contents 512 db = Some db' \<and>
    reader_main get contents db' = Some nkeys \<and>
    runReadWorkload get contents db' = Some (replicate nkeys (Some 0))"
proof -
  obtain files where "workload_gen keys dir nkeys 1 = Some files"
    "concat (map (\<lambda>f. read_all (snd f)) files) = map keys [0..<nkeys]"
    using workload_files [of 1 nkeys keys dir] assms(3) by auto
  with assms(4) have rd: "read_all contents = map keys [0..<nkeys]" by auto
  let ?db = "fold (\<lambda>(j, w) db. the (put db (uint64ToString w) (workload_value draw 32 j)))
    (enumerate 0 (read_all contents)) db"
  note law = fold_put_get [where put = put and get = get, OF assms(1,2), of draw 32 0 "read_all contents" db]
  have got: "\<exists>j. get ?db (uint64ToString q) = Some (workload_value draw 32 j)"
    if "q \<in> set (read_all contents)" for q
    using that law [of q] find_enumerate_None [of q 0 "read_all contents"]
    by (cases "find (\<lambda>(j, w). w = q) (rev (enumerate 0 (read_all contents)))") auto
  have "runWriteWorkload put draw contents 512 db = Some ?db"
    using runWriteWorkload_eq [where put = put and k = 32, OF assms(1)] by simp
  moreover have "reader_main get contents ?db = Some nkeys"
    unfolding reader_main_def foldM_count using got by (fastforce simp: rd)
  moreover have "runReadWorkload get contents ?db = Some ([] @ map (\<lambda>_. Some 0) (read_all contents))"
    unfolding runReadWorkload_def
  proof (rule foldM_out)
    show "check_value (get ?db (uint64ToString q)) = Some (Some 0)" if "q \<in> set (read_all contents)" for q
      using got [OF that] check_workload_value [of 32] by auto
  qed
  then have "runReadWorkload get contents ?db = Some (replicate nkeys (Some 0))"
    by (simp only: rd append_Nil map_replicate_const length_map length_upt diff_zero)
  ultimately show ?thesis by blast
qed

theorem workload_written_and_read_witness:
  "\<exists>db'. runWriteWorkload (\<lambda>m key val. Some (m(key \<mapsto> val))) (\<lambda>i. 7) (show_line 5 @ show_line 6) 512 Map.empty = Some db' \<and>
    reader_main (\<lambda>m key. m key) (show_line 5 @ show_line 6) db' = Some 2 \<and>
    runReadWorkload (\<lambda>m key. m key) (show_line 5 @ show_line 6) db' = Some (replicate 2 (Some 0))"
proof (rule workload_written_and_read)
  show "workload_gen (\<lambda>i. word_of_nat (5 + i)) ''k'' 2 1 = Some [(file_path ''k'' 1 2 0, show_line 5 @ show_line 6)]"
    by (simp add: workload_gen_def gen_file.simps)
qed auto

text \<open>
  \<open>reader\<close> aborts exactly when a number of the query file is not in the database; otherwise
  it counts every query.
\<close>

lemma reader_aborts:
  "reader_main get contents db =
     (if (\<exists>q \<in> set (read_all contents). get db (uint64ToString q) = None) then None
      else Some (length (read_all contents)))"
  by (auto simp: reader_main_def foldM_count)

text \<open>
  C39: \<open>warmCache\<close> skips characters, not numbers. In every workload file of less than 2000000
  characters whose second number has at least eight digits, the second number that it
  looks up is not in that place of the file: it is the rest of the second number without
  its first seven digits.
\<close>

theorem warm_cache_cuts_numbers:
  assumes "10 ^ 7 \<le> unat b" "length (concat (map show_line (a # b # ns))) < 2000000"
    "\<forall>q. check_value (get db (uint64ToString q)) \<noteq> None"
  shows "\<exists>q qs. warmCache get (concat (map show_line (a # b # ns))) db = Some (a # q # qs) \<and>
    unat q = unat b mod 10 ^ (length (show_u64 (unat b)) - 7) \<and> q \<noteq> b"
proof -
  let ?nl = "char_of (10 :: nat)" and ?d = "show_u64 (unat b)" and ?s = "concat (map show_line ns)"
  have digits: "\<forall>c\<in>set ?d. is_digit c" using show_u64_digits by blast
  have "10 ^ 7 < (10 :: nat) ^ length ?d"
    using assms(1) digits_value_less [OF digits] by (simp add: digits_value_show)
  then have len: "7 < length ?d" by (simp only: power_strict_increasing_iff)
  have v: "digits_value (drop 7 ?d) = unat b mod 10 ^ (length ?d - 7)" using len by (intro digits_value_drop) simp
  have "digits_value (drop 7 ?d) \<le> unat b" unfolding v by (rule mod_less_eq_dividend)
  moreover have "unat b < 2 ^ 64" using unsigned_less [of b] by simp
  ultimately have b: "digits_value (drop 7 ?d) < 2 ^ 64" by (rule le_less_trans)
  have less: "unat b mod 10 ^ (length ?d - 7) < unat b" using assms(1) by (intro cut_less) simp_all
  let ?q = "word_of_nat (digits_value (drop 7 ?d)) :: 64 word"
  have q: "unat ?q = digits_value (drop 7 ?d)" using b by (simp add: unsigned_of_nat take_bit_nat_eq_self)
  have first: "read_u64 (concat (map show_line (a # b # ns))) = Some (a, ?nl # show_line b @ ?s)"
    using read_show_line [of "[]" a "show_line b @ ?s"] by simp
  have skip: "drop 8 (?nl # show_line b @ ?s) = drop 7 ?d @ ?nl # ?s" using len by (simp add: show_line_def)
  have "\<forall>c\<in>set (drop 7 ?d). is_digit c" using digits by (meson in_set_dropD)
  then have second: "read_u64 (drop 7 ?d @ ?nl # ?s) = Some (?q, ?nl # ?s)"
    using len b by (intro read_digits) simp_all
  obtain qs where "warm_loop get 1 db (drop 8 (?nl # ?s)) = Some qs" using warm_returns [of get db 1] assms(3) by blast
  moreover obtain x where "check_value (get db (uint64ToString ?q)) = Some x" using assms(3) by blast
  ultimately have loop2: "warm_loop get 1 db (drop 7 ?d @ ?nl # ?s) = Some (?q # qs)"
    by (subst warm_loop.simps) (simp add: second)
  obtain y where "check_value (get db (uint64ToString a)) = Some y" using assms(3) by blast
  with loop2 skip have "warm_loop get 1 db (concat (map show_line (a # b # ns))) = Some (a # ?q # qs)"
    by (subst warm_loop.simps) (simp only: first, simp)
  moreover have "max (length (concat (map show_line (a # b # ns))) div 1000000) 1 = 1" using assms(2) by simp
  ultimately have "warmCache get (concat (map show_line (a # b # ns))) db = Some (a # ?q # qs)"
    by (simp only: warmCache_def)
  moreover have "?q \<noteq> b" using q v less by auto
  ultimately show ?thesis using q v by auto
qed

theorem warm_cache_cuts_numbers_witness:
  "\<exists>q qs. warmCache (\<lambda>db key. None) (concat (map show_line [123456789, 987654321])) () = Some (123456789 # q # qs) \<and> unat q = 21"
proof -
  have "length (concat (map show_line [123456789, 987654321])) < 2000000" "length (show_u64 987654321) = 9"
    by (simp_all add: show_line_def show_u64.simps)
  with warm_cache_cuts_numbers [of 987654321 123456789 "[]" "\<lambda>db key. None" "()"] show ?thesis
    by (fastforce simp: check_value_def)
qed

text \<open>
  C24: \<open>waitForBGCompactions\<close> returns exactly at the second reading at which no flush and no
  compaction runs, no flush is pending and, with leveled compaction, no compaction is
  pending, whatever was read in between. With universal compaction a pending compaction
  does not delay the return.
\<close>

theorem wait_returns_at:
  "waitForBGCompactions fuel lv samples = Some n \<longleftrightarrow>
     n < fuel \<and> at_rest lv (samples n) \<and> card {j. j < n \<and> at_rest lv (samples j)} = 1"
  unfolding waitForBGCompactions_def wait_first quiet_at_rest [symmetric] quiet_count by simp

text \<open>
  C25: the wait ends: when two readings are quiet, it returns at the later one or before.
\<close>

theorem wait_ends:
  assumes "i < j" "quiet_sample lv (samples i)" "quiet_sample lv (samples j)" "j < fuel"
  shows "\<exists>n \<le> j. waitForBGCompactions fuel lv samples = Some n"
proof -
  let ?Q = "\<lambda>n. quiet_sample lv (samples n)"
  define m where "m = (LEAST n. ?Q n)"
  define n where "n = (LEAST n. m < n \<and> ?Q n)"
  have m: "m \<le> i" "?Q m" unfolding m_def by (rule Least_le LeastI, rule assms(2))+
  then have j: "m < j \<and> ?Q j" using assms by simp
  have n: "m < n \<and> ?Q n" "n \<le> j" unfolding n_def by (rule LeastI Least_le, rule j)+
  have "\<not> ?Q k" if "k < n" "k \<noteq> m" for k
    using that not_less_Least [of k ?Q] not_less_Least [of k "\<lambda>n. m < n \<and> ?Q n"]
    unfolding m_def [symmetric] n_def [symmetric] by linarith
  with m n assms(4) have "waitForBGCompactions fuel lv samples = Some n"
    unfolding waitForBGCompactions_def wait_first by auto
  with n(2) show ?thesis by blast
qed

theorem wait_ends_witness:
  "\<exists>n \<le> 2. waitForBGCompactions 3 False
     (\<lambda>i. \<lparr>running_flushes = Some (if i = 1 then 1 else 0), running_compactions = Some 0,
       flush_pending = Some 0, compaction_pending = None\<rparr>) = Some n"
  by (rule wait_ends [of 0 2]) (simp_all add: quiet_sample_def)

text \<open>
  \<open>printLSM\<close> prints a line for every file of the tree, in order: stopping after the last
  level that has files loses none.
\<close>

lemma print_all_files:
  assumes "distinct (map level_no ls)" "- 1 \<notin> set (map level_no ls)"
  shows "file_lines (printLSM cf_size n ls) = concat (map level_files ls)"
  using assms print_levels_files [of ls "- 1"]
  by (force simp: printLSM_def largest_used_level_def foldl_last_used)

text \<open>
  C31: a value buffer is half zeros and half the next numbers of the generator when its half
  is a multiple of eight bytes, as for the 512 bytes that \<open>main\<close> uses; when its second half
  is not, the last copy runs over the end of the buffer.
\<close>

theorem value_buffer:
  assumes "length buf = sz" "even sz"
  shows "setValueBuffer draw n sz buf =
    (if sz mod 16 = 0
     then Some (replicate (sz div 2) 0 @ concat (map (\<lambda>i. le_bytes 8 (draw (n + i))) [0..<sz div 16]), n + sz div 16)
     else None)"
proof (cases "sz mod 16 = 0")
  case True
  then obtain k where "sz = 2 * (8 * k)" by auto
  with setValueBuffer_spec [OF assms(1) this] show ?thesis by simp
next
  case False
  from assms(2) obtain h where h: "sz = 2 * h" by (elim evenE)
  with False have "h mod 8 \<noteq> 0" by presburger
  with h setValueBuffer_overrun [OF assms(1)] False show ?thesis by simp
qed

theorem value_buffer_witness:
  "setValueBuffer (\<lambda>i. 1) 0 16 (replicate 16 9) = Some (replicate 8 0 @ le_bytes 8 (1 :: 64 word), 1)"
  by (subst value_buffer) simp_all

text \<open>
  \<open>dbb\<close> opens its database with the options that \<open>mqssd\<close> sets with one flush thread, for
  both compaction styles.
\<close>

lemma dbb_same_options:
  "dbb_options def ncompthreads fanout leveled dynamic_level filesize =
   mqssd_options def 1 ncompthreads fanout leveled dynamic_level filesize"
  by (rule dbb_mqssd_options)

end
