(* ===== verification/Sorted_Runs.thy ===== *)
theory Sorted_Runs
  imports Universal
begin

section \<open>Sorted runs and the inputs gathered from them\<close>

text \<open>
  Facts about \<open>CalculateSortedRuns\<close> and about the loops that choose a series of runs, shared
  by the theories on tiering, on running compactions and on termination: the runs are
  ordered by level, a run that is not being compacted has idle files only, and the inputs
  gathered from some runs are exactly their files.
\<close>

subsection \<open>The order of the runs\<close>

abbreviation level_runs_of :: "version \<Rightarrow> nat \<Rightarrow> nat \<Rightarrow> sorted_run list" where
  "level_runs_of v a b \<equiv> concat (map (\<lambda>l. run_of_level l (LevelFiles v l)) [a..<b])"

lemma run_of_level_level: "sr \<in> set (run_of_level l fs) \<Longrightarrow> sr_level sr = l"
  by (auto simp: run_of_level_def Let_def split: if_splits)

lemma run_of_level_length: "length (run_of_level l fs) \<le> 1"
  by (simp add: run_of_level_def Let_def)

lemma calculated_run_cases:
  assumes "sr \<in> set (CalculateSortedRuns v m)"
  obtains f where "f \<in> set (LevelFiles v 0)" "sr = run_of_file f"
    | l where "1 \<le> l" "l \<le> m" "sr \<in> set (run_of_level l (LevelFiles v l))"
  using assms by (auto simp: CalculateSortedRuns_def simp del: upt_Suc)

lemma sorted_level_runs_of: "sorted (map sr_level (level_runs_of v a b))"
proof (induction b)
  case (Suc b)
  have "sr_level sr < b" if "sr \<in> set (level_runs_of v a b)" for sr
    using that by (auto dest: run_of_level_level)
  then show ?case using Suc by (auto simp: sorted_append run_of_level_def Let_def less_imp_le)
qed simp

lemma sorted_calculated_runs: "sorted (map sr_level (CalculateSortedRuns v m))"
  by (auto simp: CalculateSortedRuns_def sorted_append sorted_level_runs_of run_of_file_def sorted_replicate comp_def
      map_replicate_const simp del: upt_Suc)

lemma run_files_idle:
  assumes "sr \<in> set (CalculateSortedRuns v m)" "f \<in> set (run_files v sr)"
  shows "f \<in> set (LevelFiles v (sr_level sr))" "\<not> sr_compacted sr \<Longrightarrow> \<not> being_compacted f" "sr_level sr \<le> m"
proof -
  from assms(1) have "f \<in> set (LevelFiles v (sr_level sr)) \<and> (\<not> sr_compacted sr \<longrightarrow> \<not> being_compacted f) \<and> sr_level sr \<le> m"
  proof (cases rule: calculated_run_cases)
    case (1 g)
    then show ?thesis using assms(2) by (simp add: run_files_def run_of_file_def)
  next
    case (2 l)
    then have "sr_level sr = l" "sr_compacted sr = list_ex being_compacted (LevelFiles v l)"
      by (auto simp: run_of_level_def Let_def split: if_splits)
    then show ?thesis using 2 assms(2) by (auto simp: run_files_def list_ex_iff)
  qed
  then show "f \<in> set (LevelFiles v (sr_level sr))" "\<not> sr_compacted sr \<Longrightarrow> \<not> being_compacted f" "sr_level sr \<le> m"
    by auto
qed

subsection \<open>Gathered inputs\<close>

lemma gather_inputs_mem:
  assumes "\<forall>sr\<in>set picked. (sr_level sr = 0 \<longrightarrow> s = 0) \<and> s \<le> sr_level sr \<and> sr_level sr \<le> m"
  shows "(\<exists>(l', fs)\<in>set (gather_inputs v m s picked). l' = l \<and> f \<in> g ` set fs) \<longleftrightarrow>
    (\<exists>sr\<in>set picked. sr_level sr = l \<and> f \<in> g ` set (run_files v sr))"
proof -
  have lev: "(if sr_level sr = 0 then 0 else sr_level sr - s) = i \<longleftrightarrow> sr_level sr = s + i" if "sr \<in> set picked" for sr i
    using that assms by auto
  show ?thesis
  proof
    assume "\<exists>(l', fs)\<in>set (gather_inputs v m s picked). l' = l \<and> f \<in> g ` set fs"
    then obtain i where "l = s + i" "f \<in> g ` set (concat (map (run_files v)
        (filter (\<lambda>sr. (if sr_level sr = 0 then 0 else sr_level sr - s) = i) picked)))"
      by (auto simp: gather_inputs_def)
    then show "\<exists>sr\<in>set picked. sr_level sr = l \<and> f \<in> g ` set (run_files v sr)"
      using lev by auto
  next
    assume "\<exists>sr\<in>set picked. sr_level sr = l \<and> f \<in> g ` set (run_files v sr)"
    then obtain sr where sr: "sr \<in> set picked" "sr_level sr = l" "f \<in> g ` set (run_files v sr)" by blast
    let ?fs = "concat (map (run_files v)
      (filter (\<lambda>x. (if sr_level x = 0 then 0 else sr_level x - s) = l - s) picked))"
    have "l = s + (l - s)" "l - s \<le> m" using sr assms by auto
    then have "(l, ?fs) \<in> set (gather_inputs v m s picked)"
      unfolding gather_inputs_def by (auto intro!: image_eqI [of _ _ "l - s"])
    moreover have "f \<in> g ` set ?fs" using sr lev [OF sr(1), of "l - s"] assms by auto
    ultimately show "\<exists>(l', fs)\<in>set (gather_inputs v m s picked). l' = l \<and> f \<in> g ` set fs" by blast
  qed
qed

text \<open>A series of consecutive runs, from the index \<open>i\<close> on.\<close>

lemma series_levels:
  assumes "sorted (map sr_level rs)" "i < length rs" "sr \<in> set (take n (drop i rs))"
  shows "sr_level (rs ! i) \<le> sr_level sr" "sr_level sr = 0 \<Longrightarrow> sr_level (rs ! i) = 0"
proof -
  from assms(3) have "sr \<in> set (drop i rs)" by (rule in_set_takeD)
  then obtain k where "k < length (drop i rs)" "sr = drop i rs ! k" unfolding in_set_conv_nth by auto
  with assms(2) have "i + k < length rs" "sr = rs ! (i + k)" by auto
  then show "sr_level (rs ! i) \<le> sr_level sr"
    using sorted_nth_mono [OF assms(1), of i "i + k"] assms(2) by simp
  then show "sr_level sr = 0 \<Longrightarrow> sr_level (rs ! i) = 0" by simp
qed

lemma gather_series_mem:
  assumes "i < length (CalculateSortedRuns v m)"
  defines "rs \<equiv> CalculateSortedRuns v m"
  shows "(\<exists>(l', fs)\<in>set (gather_inputs v m (sr_level (rs ! i)) (take n (drop i rs))). l' = l \<and> f \<in> g ` set fs) \<longleftrightarrow>
    (\<exists>sr\<in>set (take n (drop i rs)). sr_level sr = l \<and> f \<in> g ` set (run_files v sr))"
proof (rule gather_inputs_mem, intro ballI conjI impI)
  fix sr assume sr: "sr \<in> set (take n (drop i rs))"
  note lev = series_levels [OF sorted_calculated_runs assms(1), folded rs_def, OF sr]
  show "sr_level (rs ! i) = 0" if "sr_level sr = 0" using lev(2) that .
  show "sr_level (rs ! i) \<le> sr_level sr" by (rule lev(1))
  have "sr \<in> set rs" using sr by (meson in_set_dropD in_set_takeD)
  then show "sr_level sr \<le> m"
    unfolding rs_def by (cases rule: calculated_run_cases) (auto simp: run_of_file_def dest: run_of_level_level)
qed

text \<open>The inputs gathered from idle runs are idle files of their level.\<close>

lemma gather_series_idle:
  assumes "i < length (CalculateSortedRuns v m)" "\<forall>sr\<in>set (take n (drop i (CalculateSortedRuns v m))). \<not> sr_compacted sr"
    "(l, fs) \<in> set (gather_inputs v m (sr_level (CalculateSortedRuns v m ! i)) (take n (drop i (CalculateSortedRuns v m))))"
    "f \<in> set fs"
  shows "f \<in> set (LevelFiles v l)" "\<not> being_compacted f"
proof -
  have "\<exists>(l', fs)\<in>set (gather_inputs v m (sr_level (CalculateSortedRuns v m ! i)) (take n (drop i (CalculateSortedRuns v m)))).
      l' = l \<and> f \<in> id ` set fs"
    using assms(3,4) by force
  then obtain sr where sr: "sr \<in> set (take n (drop i (CalculateSortedRuns v m)))" "sr_level sr = l" "f \<in> set (run_files v sr)"
    unfolding gather_series_mem [OF assms(1)] by auto
  then have "sr \<in> set (CalculateSortedRuns v m)" by (meson in_set_dropD in_set_takeD)
  with sr assms(2) run_files_idle [of sr v m f] show "f \<in> set (LevelFiles v l)" "\<not> being_compacted f" by auto
qed

subsection \<open>Candidate series\<close>

lemma extend_candidates_idle:
  assumes "extend_candidates u ratio m c csize srs = c + k"
  shows "k \<le> length srs" "\<forall>sr\<in>set (take k srs). \<not> sr_compacted sr"
proof -
  have "k \<le> length srs \<and> (\<forall>sr\<in>set (take k srs). \<not> sr_compacted sr)"
    using assms
  proof (induction srs arbitrary: c csize k)
    case (Cons sr srs)
    show ?case
    proof (cases k)
      case (Suc k')
      with Cons.prems have "\<not> sr_compacted sr" "\<exists>csize'. extend_candidates u ratio m (Suc c) csize' srs = Suc c + k'"
        by (auto split: if_splits)
      with Cons.IH Suc show ?thesis by fastforce
    qed simp
  qed simp
  then show "k \<le> length srs" "\<forall>sr\<in>set (take k srs). \<not> sr_compacted sr" by auto
qed

lemma extend_candidates_ge: "c \<le> extend_candidates u ratio m c csize srs"
proof (induction srs arbitrary: c csize)
  case (Cons sr srs)
  then show ?case by (auto intro: Suc_leD order_trans [of c "Suc c"])
qed simp

lemma find_candidates_idle:
  assumes "find_candidates u ratio m w loop srs = Some (start, count)"
  shows "loop \<le> start" "start - loop + count \<le> length srs" "w \<le> count" "0 < count"
    "\<forall>sr\<in>set (take count (drop (start - loop) srs)). \<not> sr_compacted sr"
proof -
  have "loop \<le> start \<and> start - loop + count \<le> length srs \<and> w \<le> count \<and> 0 < count \<and>
      (\<forall>sr\<in>set (take count (drop (start - loop) srs)). \<not> sr_compacted sr)"
    using assms
  proof (induction srs arbitrary: loop)
    case (Cons sr srs)
    show ?case
    proof (cases "\<not> sr_compacted sr \<and> w \<le> extend_candidates u ratio m 1 (sr_compensated sr) srs")
      case True
      let ?n = "extend_candidates u ratio m 1 (sr_compensated sr) srs"
      from True Cons.prems have "start = loop" "count = ?n" by (auto simp: Let_def)
      moreover obtain k where k: "?n = 1 + k" using extend_candidates_ge [of 1 u ratio m "sr_compensated sr" srs] le_iff_add by blast
      moreover note extend_candidates_idle [OF k]
      ultimately show ?thesis using True by auto
    next
      case False
      with Cons.prems have "find_candidates u ratio m w (Suc loop) srs = Some (start, count)" by (auto simp: Let_def split: if_splits)
      from Cons.IH [OF this] have ih: "Suc loop \<le> start" "start - Suc loop + count \<le> length srs" "w \<le> count" "0 < count"
        "\<forall>sr\<in>set (take count (drop (start - Suc loop) srs)). \<not> sr_compacted sr" by auto
      then have "start - loop = Suc (start - Suc loop)" by simp
      with ih show ?thesis by simp
    qed
  qed simp
  then show "loop \<le> start" "start - loop + count \<le> length srs" "w \<le> count" "0 < count"
    "\<forall>sr\<in>set (take count (drop (start - loop) srs)). \<not> sr_compacted sr" by auto
qed

end
