(* ===== verification/Tiering.thy ===== *)
theory Tiering
  imports Mqssd Sorted_Runs
begin

section \<open>Universal compaction as tiering\<close>

text \<open>
  The comment in \<open>mqssd.cc\<close> says that its universal options \<open>should theoretically get behavior
  similar to standard tiering\<close> and gives an example for fanout 4. This theory proves it for
  the picker of \<open>Universal\<close>: whatever the number of flushes, the sizes of the sorted runs are
  the digits of that number in base fanout. A flush adds a file to level 0; a compaction is
  picked, its inputs are replaced by one run, until the picker gives none.
\<close>

subsection \<open>Flushes and finished compactions\<close>

text \<open>The options of the picker, from those that the driver sets.\<close>

definition tier_options :: "nat \<Rightarrow> cf_options" where
  "tier_options fanout =
     \<lparr>universal = (case mqssd_universal (word_of_nat fanout) of Some u \<Rightarrow> u | None \<Rightarrow> CompactionOptionsUniversal),
      level0_file_num_compaction_trigger = fanout, allow_ingest_behind = False,
      preclude_last_level_data_seconds = 0,
      opt_periodic_seconds = unat (sanitize_periodic CompactionStyleUniversal False True kDefaultTtl 0),
      cf_paths = [2 ^ 64 - 1], target_file_size_base = 64 * 2 ^ 20, max_compaction_bytes = 25 * (64 * 2 ^ 20),
      ignore_max_compaction_bytes_for_input = True\<rparr>"

definition empty_version :: "nat \<Rightarrow> version" where
  "empty_version nl = \<lparr>levels = replicate nl [], marked_periodic = [], marked = []\<rparr>"

text \<open>A file written at the time \<open>t\<close>; its keys play no role here.\<close>

definition new_file :: "nat \<Rightarrow> nat \<Rightarrow> nat \<Rightarrow> file_meta" where
  "new_file t n sz = \<lparr>fnumber = n, file_size = sz, compensated_file_size = sz, being_compacted = False,
     marked_for_compaction = False, modification_time = t, smallest = ([], 0), largest = ([], 0)\<rparr>"

definition add_file :: "nat \<Rightarrow> nat \<Rightarrow> nat \<Rightarrow> version \<Rightarrow> version" where
  "add_file t n sz v = v\<lparr>levels := (new_file t n sz # hd (levels v)) # tl (levels v)\<rparr>"

definition input_size :: "compaction \<Rightarrow> nat" where
  "input_size c = sum_list (map (\<lambda>(l, fs). sum_list (map file_size fs)) (inputs c))"

text \<open>
  The inputs leave their levels; the output takes their place on its level. The execution
  of a compaction is not modelled: its output is taken to be one file of the size of its
  inputs, that is, no entry of them is dropped.
\<close>

definition replace_inputs :: "('a \<Rightarrow> bool) \<Rightarrow> 'a \<Rightarrow> 'a list \<Rightarrow> 'a list" where
  "replace_inputs P out fs =
     takeWhile (\<lambda>f. \<not> P f) fs @ out # filter (\<lambda>f. \<not> P f) (dropWhile (\<lambda>f. \<not> P f) fs)"

definition install :: "nat \<Rightarrow> compaction \<Rightarrow> nat \<Rightarrow> version \<Rightarrow> version" where
  "install t c n v = v\<lparr>levels := map (\<lambda>l.
     if int l = output_level c then replace_inputs (is_input c l) (new_file t n (input_size c)) (levels v ! l)
     else filter (\<lambda>f. \<not> is_input c l f) (levels v ! l)) [0..<num_levels v]\<rparr>"

text \<open>
  Compactions until none is picked; \<^term>\<open>None\<close> when the fuel is used up before. Each new version
  gets its scores, a finished compaction is taken off the picker's set.
\<close>

primrec settle :: "nat \<Rightarrow> picker \<Rightarrow> cf_options \<Rightarrow> version \<times> nat \<Rightarrow> (version \<times> nat) option" where
  "settle 0 pk opt s = None"
| "settle (Suc fuel) pk opt s = do {
     (choice, pk', v) \<leftarrow> PickCompaction pk opt (fst s);
     case choice of
       None \<Rightarrow> Some s
     | Some c \<Rightarrow> settle fuel (UnregisterCompaction c pk') opt
         (ComputeCompactionScore pk opt (install (current_time pk) c (snd s) v), snd s + 1)
   }"

text \<open>The \<open>k\<close>-th flush finds the picker \<open>env k\<close>.\<close>

primrec load_runs ::
  "nat \<Rightarrow> (nat \<Rightarrow> picker) \<Rightarrow> cf_options \<Rightarrow> nat \<Rightarrow> nat \<Rightarrow> version \<times> nat \<Rightarrow> (version \<times> nat) option" where
  "load_runs fuel env opt sz 0 s = Some s"
| "load_runs fuel env opt sz (Suc k) s = do {
     (v, n) \<leftarrow> load_runs fuel env opt sz k s;
     settle fuel (env k) opt
       (ComputeCompactionScore (env k) opt (add_file (current_time (env k)) n sz v), n + 1)
   }"

definition runs :: "version \<Rightarrow> sorted_run list" where
  "runs v = CalculateSortedRuns v (num_levels v - 1)"

definition run_sizes :: "version \<Rightarrow> nat list" where
  "run_sizes v = map sr_size (runs v)"

text \<open>The specification: the runs of tiering, newest first.\<close>

function tiers :: "nat \<Rightarrow> nat \<Rightarrow> nat \<Rightarrow> nat list" where
  "tiers f u n = (if n = 0 \<or> f < 2 then [] else replicate (n mod f) u @ tiers f (u * f) (n div f))"
  by pat_completeness auto
termination by (relation "measure (\<lambda>(f, u, n). n)") auto

declare tiers.simps [simp del]

subsection \<open>Facts on tiers\<close>

lemma tiers_0 [simp]: "tiers f u 0 = []"
  by (simp add: tiers.simps)

lemma tiers_ge: "x \<in> set (tiers f u n) \<Longrightarrow> u \<le> x"
proof (induction f u n rule: tiers.induct)
  case (1 f u n)
  show ?case
  proof (cases "n = 0 \<or> f < 2")
    case False
    then consider "x = u" | "x \<in> set (tiers f (u * f) (n div f))"
      using 1(2) by (auto simp: tiers.simps [of f u n] split: if_splits)
    then show ?thesis
    proof cases
      case 2
      then have "u * f \<le> x" by (rule 1(1) [OF False])
      moreover have "u \<le> u * f" using False by simp
      ultimately show ?thesis by (rule order_trans [rotated])
    qed simp
  qed (use 1(2) in \<open>simp add: tiers.simps\<close>)
qed

lemma tiers_eq: "2 \<le> f \<Longrightarrow> tiers f u n = replicate (n mod f) u @ tiers f (u * f) (n div f)"
  by (subst tiers.simps) auto

lemma tiers_step:
  assumes "2 \<le> f" "n mod f \<noteq> f - 1"
  shows "u # tiers f u n = tiers f u (Suc n)"
proof -
  have "Suc n mod f = Suc (n mod f)" "Suc n div f = n div f"
    using assms by (auto simp: mod_Suc div_Suc)
  then show ?thesis using assms(1) by (simp add: tiers_eq [of f u n] tiers_eq [of f u "Suc n"])
qed

lemma tiers_carry:
  assumes "2 \<le> f" "n mod f = f - 1"
  shows "u # tiers f u n = replicate f u @ tiers f (u * f) (n div f)"
    and "tiers f u (Suc n) = tiers f (u * f) (Suc (n div f))"
proof -
  have "Suc n mod f = 0" "Suc n div f = Suc (n div f)" using assms by (auto simp: mod_Suc div_Suc)
  then show "tiers f u (Suc n) = tiers f (u * f) (Suc (n div f))"
    using assms(1) by (simp add: tiers_eq [of f u "Suc n"])
  have "replicate f u = u # replicate (f - 1) u" using assms(1) by (cases f) auto
  then show "u # tiers f u n = replicate f u @ tiers f (u * f) (n div f)"
    using assms by (simp add: tiers_eq [of f u n])
qed

lemma sum_tiers: "2 \<le> f \<Longrightarrow> sum_list (tiers f u n) = u * n"
proof (induction f u n rule: tiers.induct)
  case (1 f u n)
  have "u * n = u * (n mod f) + u * f * (n div f)" by (simp add: mult.assoc flip: distrib_left)
  with 1 show ?case
    by (cases "n = 0") (simp_all add: tiers_eq [of f u n] sum_list_replicate mult.commute)
qed

lemma tiers_nonempty: "2 \<le> f \<Longrightarrow> 0 < n \<Longrightarrow> tiers f u n \<noteq> []"
proof (induction f u n rule: tiers.induct)
  case (1 f u n)
  then show ?case by (cases "n < f") (simp_all add: tiers_eq [of f u n] div_greater_zero_iff)
qed

text \<open>The oldest run holds more than the \<open>f\<close>-th part of all.\<close>

lemma last_tiers: "2 \<le> f \<Longrightarrow> 0 < n \<Longrightarrow> u * Suc n \<le> f * last (tiers f u n)"
proof (induction f u n rule: tiers.induct)
  case (1 f u n)
  show ?case
  proof (cases "n < f")
    case True
    then have "last (tiers f u n) = u" using 1(2,3) by (simp add: tiers_eq)
    then show ?thesis using mult_le_mono2 [of "Suc n" f u] True by (simp add: mult.commute)
  next
    case False
    then have d: "0 < n div f" using 1(2) by (simp add: div_greater_zero_iff)
    have "Suc n \<le> f * Suc (n div f)"
      using 1(2) mod_less_divisor [of f n] mult_div_mod_eq [of f n] by (simp only: mult_Suc_right) linarith
    then have "u * Suc n \<le> (u * f) * Suc (n div f)" by (metis mult.assoc mult_le_mono2)
    also have "\<dots> \<le> f * last (tiers f (u * f) (n div f))" using 1 d by simp
    also have "last (tiers f (u * f) (n div f)) = last (tiers f u n)"
      using 1(2) d tiers_nonempty [of f "n div f"] by (subst tiers_eq [of f u n]) simp_all
    finally show ?thesis .
  qed
qed

subsection \<open>What is picked\<close>

definition plain :: "sorted_run \<Rightarrow> bool" where
  "plain sr \<longleftrightarrow> \<not> sr_compacted sr \<and> sr_compensated sr = sr_size sr"

definition tier_universal :: "nat \<Rightarrow> universal_options" where
  "tier_universal f = CompactionOptionsUniversal
     \<lparr>max_size_amplification_percent := 100 * ((f - 1) + f div (f - 1)),
      size_ratio := 1, min_merge_width := f, max_merge_width := f\<rparr>"

lemma tier_universal_sel [simp]:
  "max_size_amplification_percent (tier_universal f) = 100 * ((f - 1) + f div (f - 1))"
  "size_ratio (tier_universal f) = 1" "min_merge_width (tier_universal f) = f"
  "max_merge_width (tier_universal f) = f" "stop_style (tier_universal f) = StopStyleTotalSize"
  "incremental (tier_universal f) = False" "allow_trivial_move (tier_universal f) = False"
  by (simp_all add: tier_universal_def CompactionOptionsUniversal_def)

lemma tier_options_sel:
  assumes "2 \<le> f" "f \<le> 100"
  shows "universal (tier_options f) = tier_universal f"
    "level0_file_num_compaction_trigger (tier_options f) = f" "\<not> allow_ingest_behind (tier_options f)"
    "preclude_last_level_data_seconds (tier_options f) = 0"
  using assms mqssd_universal_value [of f] by (simp_all add: tier_options_def tier_universal_def)

text \<open>The amount of data that keeps the products of the picker below \<open>2 ^ 64\<close>.\<close>

lemma fits_mono: "100 * Suc f * b < 2 ^ 64 \<Longrightarrow> a \<le> b \<Longrightarrow> 100 * Suc f * a < (2 :: nat) ^ 64"
  by (meson le_less_trans mult_le_mono2)

lemma fits_less: "100 * Suc f * b < 2 ^ 64 \<Longrightarrow> f * b < (2 :: nat) ^ 64"
  by (rule le_less_trans [OF mult_le_mono1]) simp_all

text \<open>A series of runs of one size is picked up to the limit.\<close>

lemma extend_equal:
  assumes "stop_style u = StopStyleTotalSize" "\<forall>sr\<in>set srs. plain sr" "map sr_size srs = replicate d s @ rest"
    "c + d = m" "s \<le> cs" "cs + d * s < 2 ^ 64"
  shows "extend_candidates u 1 m c cs srs = m"
  using assms(2-)
proof (induction d arbitrary: c cs srs)
  case 0
  then show ?case by (cases srs) simp_all
next
  case (Suc d)
  then obtain sr srs' where srs: "srs = sr # srs'" "sr_size sr = s" "map sr_size srs' = replicate d s @ rest"
    by auto
  moreover have "\<not> cs * (100 + 1) < s * 100" using Suc.prems(4) by simp
  ultimately show ?case
    using Suc.prems assms(1) Suc.IH [of srs' "Suc c" "cs + s"] by (simp add: plain_def add64_exact)
qed

text \<open>It is not picked beyond the series when the next run is larger by the fanout.\<close>

lemma extend_stop:
  assumes "stop_style u = StopStyleTotalSize" "f \<le> 100" "0 < s" "\<forall>x\<in>set rest. s * f \<le> x"
    "f * s < 2 ^ 64" "\<forall>sr\<in>set srs. plain sr" "map sr_size srs = replicate d s @ rest" "c + d < f"
  shows "extend_candidates u 1 f c (c * s) srs < f"
  using assms(6-)
proof (induction d arbitrary: c srs)
  case 0
  show ?case
  proof (cases srs)
    case (Cons sr srs')
    then have "s * f \<le> sr_size sr" using 0(2) assms(4) by (metis append_Nil list.simps(9) list.set_intros(1) replicate_0)
    moreover have "c * s * 101 < s * f * 100"
    proof -
      have "c * 101 < f * 100" using 0(3) assms(2) by simp
      then have "s * (c * 101) < s * (f * 100)" using assms(3) by (simp only: mult_less_cancel1)
      then show ?thesis by (simp add: ac_simps)
    qed
    ultimately have "c * s * 101 < sr_size sr * 100" by linarith
    then show ?thesis using Cons 0(3) by simp
  qed (use 0 in simp)
next
  case (Suc d)
  then obtain sr srs' where srs: "srs = sr # srs'" "sr_size sr = s" "map sr_size srs' = replicate d s @ rest"
    by auto
  with Suc.prems have "extend_candidates u 1 f (Suc c) (Suc c * s) srs' < f" by (intro Suc.IH) auto
  moreover have "add64 (c * s) s = Suc c * s"
    using mult_le_mono1 [of "Suc c" f s] Suc.prems(3) assms(5) by (simp add: add64_exact)
  ultimately show ?case using srs Suc.prems assms(1) by (simp add: plain_def)
qed

lemma find_series:
  assumes "2 \<le> f" "\<forall>sr\<in>set srs. plain sr" "map sr_size srs = replicate f s @ rest" "f * s < 2 ^ 64"
  shows "find_candidates (tier_universal f) 1 f f 0 srs = Some (0, f)"
proof -
  obtain d where d: "f = Suc d" using assms(1) by (cases f) auto
  with assms(3) obtain sr srs' where srs: "srs = sr # srs'" "sr_size sr = s" "map sr_size srs' = replicate d s @ rest"
    by auto
  have "extend_candidates (tier_universal f) 1 f 1 s srs' = f"
    using extend_equal [of "tier_universal f" srs' d s rest 1 f s] assms(2,4) srs d by simp
  then show ?thesis using srs assms(2) by (simp add: plain_def)
qed

lemma find_none:
  assumes "2 \<le> f" "f \<le> 100" "0 < s" "\<forall>sr\<in>set srs. plain sr" "map sr_size srs = tiers f s n"
    "f * (s * n) < 2 ^ 64"
  shows "find_candidates (tier_universal f) 1 f f i srs = None"
  using assms
proof (induction f s n arbitrary: srs i rule: tiers.induct)
  case (1 f s n)
  have series: "find_candidates (tier_universal f) 1 f f i srs = None"
    if "n \<noteq> 0" "d < f" "\<forall>sr\<in>set srs. plain sr" "map sr_size srs = replicate d s @ tiers f (s * f) (n div f)" for d i srs
    using that
  proof (induction d arbitrary: i srs)
    case 0
    have "s * f * (n div f) \<le> s * n" by (simp add: mult.assoc)
    then have "f * (s * f * (n div f)) < 2 ^ 64" using 1(7) by (meson le_less_trans mult_le_mono2)
    then show ?case using 1(1) [of srs i] 1(2-4) 0 by simp
  next
    case (Suc d)
    then obtain sr srs' where srs: "srs = sr # srs'" "sr_size sr = s"
        "map sr_size srs' = replicate d s @ tiers f (s * f) (n div f)"
      by auto
    moreover have "f * (s * 1) \<le> f * (s * n)" using Suc.prems(1) by (intro mult_le_mono2) simp
    then have "f * s < 2 ^ 64" unfolding mult_1_right using 1(7) by (rule le_less_trans)
    ultimately have "extend_candidates (tier_universal f) 1 f 1 (1 * s) srs' < f"
      using Suc.prems 1(3,4) by (intro extend_stop [where d = d and rest = "tiers f (s * f) (n div f)"]) (auto dest: tiers_ge)
    with Suc srs show ?case by (simp add: plain_def)
  qed
  show ?case
  proof (cases "n = 0")
    case False
    then show ?thesis using 1(2-) series [of "n mod f" srs i] by (simp add: tiers_eq [of f s n])
  qed (use 1(6) in simp)
qed

lemma no_size_amp:
  assumes "2 \<le> f" "f \<le> 100" "\<forall>sr\<in>set srs. plain sr" "srs \<noteq> []" "0 < sr_size (last srs)"
    "sum_list (map sr_size srs) \<le> f * sr_size (last srs)" "100 * Suc f * sum_list (map sr_size srs) < 2 ^ 64"
  shows "PickCompactionToReduceSizeAmp pk (tier_options f) v srs = Some None"
proof -
  let ?l = "sr_size (last srs)" and ?n = "length srs - 1"
  have l: "srs ! ?n = last srs" using assms(4) by (simp add: last_conv_nth)
  have sum: "sum_list (map sr_size srs) = sum_list (map sr_size (butlast srs)) + ?l"
    using assms(4) by (cases srs rule: rev_cases) simp_all
  have pl: "\<not> sr_compacted (srs ! i)" if "i < length srs" for i using that assms(3) by (auto simp: plain_def)
  have cs: "map sr_compensated (butlast srs) = map sr_size (butlast srs)"
    using assms(3) by (auto simp: plain_def dest: in_set_butlastD)
  have f: "f * ?l = (f - 1) * ?l + ?l" using assms(1) by (simp add: diff_mult_distrib)
  have "1 \<le> f div (f - 1)" using assms(1) by (simp add: Suc_le_eq div_greater_zero_iff)
  then have "1 * ?l \<le> f div (f - 1) * ?l" by (rule mult_le_mono1)
  then have "f * ?l \<le> ((f - 1) + f div (f - 1)) * ?l" unfolding f distrib_right by simp
  with sum assms(5,6) have lt: "sum_list (map sr_size (butlast srs)) * 100 < 100 * (((f - 1) + f div (f - 1)) * ?l)"
    by linarith
  have "f div (f - 1) \<le> 2" using assms(1) by (cases "f = 2") (simp_all add: div_less_iff_less_mult flip: less_Suc_eq_le)
  then have "100 * ((f - 1) + f div (f - 1)) \<le> 100 * Suc f" using assms(1) by simp
  then have "100 * ((f - 1) + f div (f - 1)) * ?l \<le> 100 * Suc f * sum_list (map sr_size srs)"
    using sum by (intro mult_le_mono) simp_all
  moreover have "sum_list (map sr_size (butlast srs)) * 100 \<le> 100 * Suc f * sum_list (map sr_size srs)"
    unfolding mult.commute [of _ 100] using sum by (intro mult_le_mono) simp_all
  ultimately have fit: "100 * ((f - 1) + f div (f - 1)) * ?l < 2 ^ 64" "sum_list (map sr_size (butlast srs)) * 100 < 2 ^ 64"
    using assms(7) by (meson le_less_trans)+
  then have fit3: "sum_list (map sr_size (butlast srs)) < 2 ^ 64" by simp
  show ?thesis
  proof (cases "length srs = 1")
    case True
    then show ?thesis by (simp add: PickCompactionToReduceSizeAmp_def Let_def)
  next
    case False
    then have two: "0 < length srs - 1" using assms(4) by (cases srs) auto
    then have "find (\<lambda>i. \<not> sr_compacted (srs ! i)) [0..<length srs - 1] = Some 0"
      using pl [of 0] assms(4) by (simp add: upt_conv_Cons)
    moreover have "\<not> sr_compacted (last srs)" using assms(3,4) by (simp add: plain_def)
    moreover have "take (length srs - 1) srs = butlast srs" by (simp add: butlast_conv_take)
    moreover have "mul64 (sum64 (map sr_compensated (butlast srs))) 100 < mul64 (100 * ((f - 1) + f div (f - 1))) ?l"
      unfolding cs mul64_exact [OF fit(1)] sum64_exact [OF fit3] mul64_exact [OF fit(2)] using lt by (simp only: mult.assoc)
    ultimately show ?thesis
      using two l assms(4)
      by (simp add: PickCompactionToReduceSizeAmp_def Let_def tier_options_sel [OF assms(1,2)] del: distrib_left_numeral)
  qed
qed

subsection \<open>Installing a compaction of the newest runs\<close>

definition plain_file :: "nat \<Rightarrow> file_meta \<Rightarrow> bool" where
  "plain_file T f \<longleftrightarrow> \<not> being_compacted f \<and> compensated_file_size f = file_size f \<and> 0 < file_size f \<and>
     \<not> marked_for_compaction f \<and> T \<le> modification_time f"

definition version_ok :: "nat \<Rightarrow> nat \<Rightarrow> version \<Rightarrow> nat \<Rightarrow> bool" where
  "version_ok T nl v n \<longleftrightarrow>
     length (levels v) = nl \<and> 2 \<le> nl \<and> marked_periodic v = [] \<and> marked v = [] \<and>
     (\<forall>fs\<in>set (levels v). \<forall>f\<in>set fs. plain_file T f) \<and>
     (\<forall>l\<in>{1..<nl}. sum_list (map file_size (levels v ! l)) < 2 ^ 64) \<and>
     distinct (map fnumber (levels v ! 0)) \<and> (\<forall>f\<in>set (levels v ! 0). fnumber f < n)"

abbreviation level_runs :: "version \<Rightarrow> nat \<Rightarrow> nat \<Rightarrow> sorted_run list" where
  "level_runs v a b \<equiv> concat (map (\<lambda>l. run_of_level l (levels v ! l)) [a..<b])"

lemma runs_eq:
  assumes "version_ok T nl v n"
  shows "runs v = map run_of_file (levels v ! 0) @ level_runs v 1 nl"
proof -
  have "LevelFiles v l = levels v ! l" if "l < nl" for l
    using that assms by (simp add: LevelFiles_def num_levels_def version_ok_def)
  moreover have "Suc (num_levels v - 1) = nl" "0 < nl" using assms by (auto simp: num_levels_def version_ok_def)
  ultimately show ?thesis by (auto simp: runs_def CalculateSortedRuns_def simp del: upt_Suc intro!: arg_cong [where f = concat])
qed

lemma run_of_level_cases:
  assumes "\<forall>f\<in>set fs. plain_file T f" "sum_list (map file_size fs) < 2 ^ 64"
  shows "run_of_level l fs =
    (if fs = [] then [] else [\<lparr>sr_level = l, sr_file = None, sr_size = sum_list (map file_size fs),
      sr_compensated = sum_list (map file_size fs), sr_compacted = False\<rparr>])"
proof -
  have "map compensated_file_size fs = map file_size fs" "list_ex being_compacted fs = False"
    using assms(1) by (auto simp: list_ex_iff plain_file_def)
  moreover have "0 < sum_list (map file_size fs) \<longleftrightarrow> fs \<noteq> []" using assms by (cases fs) (auto simp: plain_file_def)
  ultimately show ?thesis
    unfolding run_of_level_def Let_def using sum64_exact [OF assms(2)] by (simp only: if_not_P not_not simp_thms split: if_splits) simp
qed

lemma run_plain:
  assumes "version_ok T nl v n" "sr \<in> set (runs v)"
  shows "plain sr" "0 < sr_size sr" "sr_level sr < nl"
    "sum_list (map file_size (run_files v sr)) = sr_size sr" 
proof -
  have files: "\<forall>f\<in>set (levels v ! l). plain_file T f"
    if "l < nl" for l using that assms(1) by (auto simp: version_ok_def)
  have nl: "num_levels v = nl" "2 \<le> nl" using assms(1) by (auto simp: version_ok_def num_levels_def)
  consider f where "f \<in> set (levels v ! 0)" "sr = run_of_file f"
    | l where "1 \<le> l" "l < nl" "sr \<in> set (run_of_level l (levels v ! l))"
    using assms(2) unfolding runs_eq [OF assms(1)] by auto
  moreover have bnd: "sum_list (map file_size (levels v ! l)) < 2 ^ 64" if "1 \<le> l" "l < nl" for l
    using that assms(1) by (simp add: version_ok_def)
  ultimately have "plain sr \<and> 0 < sr_size sr \<and> sr_level sr < nl \<and> sum_list (map file_size (run_files v sr)) = sr_size sr"
  proof cases
    case 1
    then show ?thesis using files [of 0] nl by (auto simp: run_of_file_def plain_def run_files_def plain_file_def)
  next
    case (2 l)
    then have "levels v ! l \<noteq> []" by (auto simp: run_of_level_def)
    then have "0 < sum_list (map file_size (levels v ! l))"
      using files [OF 2(2)] by (cases "levels v ! l") (auto simp: plain_file_def)
    then show ?thesis
      using 2 nl by (auto simp: run_of_level_cases [OF files [OF 2(2)] bnd [OF 2(1,2)]] plain_def run_files_def LevelFiles_def split: if_splits)
  qed
  then show "plain sr" "0 < sr_size sr" "sr_level sr < nl" "sum_list (map file_size (run_files v sr)) = sr_size sr"
    by simp_all
qed

text \<open>The runs are ordered by level.\<close>

lemma sorted_level_runs: "sorted (map sr_level (level_runs v a b))"
proof (induction b)
  case (Suc b)
  have "sr_level sr < b" if "sr \<in> set (level_runs v a b)" for sr
    using that by (auto dest: run_of_level_level)
  then show ?case using Suc
    by (auto simp: sorted_append run_of_level_def Let_def less_imp_le)
qed simp

lemma sorted_runs: "version_ok T nl v n \<Longrightarrow> sorted (map sr_level (runs v))"
  unfolding runs_eq
  by (auto simp: sorted_append sorted_level_runs run_of_file_def sorted_replicate comp_def map_replicate_const)

text \<open>The inputs of a compaction, by level, and their size.\<close>

lemma sum_partition:
  fixes g :: "'a \<Rightarrow> nat"
  assumes "\<forall>x\<in>set xs. h x < (m :: nat)"
  shows "(\<Sum>i\<leftarrow>[0..<m]. \<Sum>x\<leftarrow>filter (\<lambda>x. h x = i) xs. g x) = sum_list (map g xs)"
  using assms
proof (induction xs)
  case (Cons x xs)
  have "(\<Sum>i\<leftarrow>[0..<m]. if h x = i then g x else 0) = g x"
    using Cons.prems by (simp add: interv_sum_list_conv_sum_set_nat)
  moreover have "(\<Sum>i\<leftarrow>[0..<m]. \<Sum>x\<leftarrow>filter (\<lambda>x. h x = i) (x # xs). g x) =
      (\<Sum>i\<leftarrow>[0..<m]. (if h x = i then g x else 0) + (\<Sum>x\<leftarrow>filter (\<lambda>x. h x = i) xs. g x))"
    by (rule arg_cong [where f = sum_list]) simp
  ultimately show ?case using Cons by (simp add: sum_list_addf)
qed simp

lemma gather_inputs_size:
  assumes "\<forall>sr\<in>set picked. sr_level sr \<le> m"
    "\<forall>sr\<in>set picked. sum_list (map file_size (run_files v sr)) = sr_size sr"
  shows "(\<Sum>(l, fs)\<leftarrow>gather_inputs v m s picked. sum_list (map file_size fs)) = sum_list (map sr_size picked)"
proof -
  have "sum_list (map file_size (concat (map (run_files v) ps))) = sum_list (map sr_size ps)"
    if "set ps \<subseteq> set picked" for ps
    using that assms(2) by (induction ps) auto
  then have "(\<Sum>(l, fs)\<leftarrow>gather_inputs v m s picked. sum_list (map file_size fs)) =
      (\<Sum>i\<leftarrow>[0..<Suc m]. \<Sum>sr\<leftarrow>filter (\<lambda>sr. (if sr_level sr = 0 then 0 else sr_level sr - s) = i) picked. sr_size sr)"
    by (simp add: gather_inputs_def comp_def del: upt_Suc)
  also have "\<dots> = sum_list (map sr_size picked)"
    using assms(1) by (intro sum_partition) (auto simp: le_imp_less_Suc)
  finally show ?thesis .
qed

text \<open>A compaction of the first \<open>k\<close> runs into the place where they were.\<close>

definition picks :: "version \<Rightarrow> nat \<Rightarrow> compaction \<Rightarrow> bool" where
  "picks v k c \<longleftrightarrow>
     inputs c = gather_inputs v (num_levels v - 1) (sr_level (runs v ! 0)) (take k (runs v)) \<and>
     output_level c = (if k = length (runs v) then int (num_levels v - 1)
       else if sr_level (runs v ! k) = 0 then 0 else int (sr_level (runs v ! k)) - 1)"

lemma picked_inputs:
  assumes "version_ok T nl v n" "picks v k c" "0 < k" "k \<le> length (runs v)"
  shows "is_input c l f \<longleftrightarrow> (\<exists>sr\<in>set (take k (runs v)). sr_level sr = l \<and> fnumber f \<in> fnumber ` set (run_files v sr))"
    and "input_size c = sum_list (map sr_size (take k (runs v)))"
proof -
  let ?R = "runs v"
  have lev: "sr_level sr < nl" "sr_level (?R ! 0) \<le> sr_level sr" if "sr \<in> set (take k ?R)" for sr
  proof -
    from that have sr: "sr \<in> set ?R" by (rule in_set_takeD)
    then show "sr_level sr < nl" using run_plain [OF assms(1)] by blast
    from sr obtain i where "i < length ?R" "sr = ?R ! i" by (auto simp: in_set_conv_nth)
    then show "sr_level (?R ! 0) \<le> sr_level sr"
      using sorted_nth_mono [OF sorted_runs [OF assms(1)], of 0 i] by (metis le0 le_less_trans length_map nth_map)
  qed
  have nl: "num_levels v = nl" using assms(1) by (simp add: version_ok_def num_levels_def)
  have c: "inputs c = gather_inputs v (nl - 1) (sr_level (?R ! 0)) (take k ?R)"
    using assms(2) by (simp add: picks_def nl)
  have m: "\<forall>sr\<in>set (take k ?R). sr_level sr \<le> nl - 1" using lev(1) by (metis Suc_pred' bot_nat_0.not_eq_extremum less_Suc_eq_le not_less_zero)
  show "is_input c l f \<longleftrightarrow> (\<exists>sr\<in>set (take k ?R). sr_level sr = l \<and> fnumber f \<in> fnumber ` set (run_files v sr))"
    unfolding is_input_iff c
  proof (rule gather_inputs_mem, intro ballI conjI impI)
    show "sr_level (?R ! 0) = 0" if "sr \<in> set (take k ?R)" "sr_level sr = 0" for sr
      using lev(2) [OF that(1)] that(2) by simp
  qed (use lev m in auto)
  show "input_size c = sum_list (map sr_size (take k ?R))"
    unfolding input_size_def c using m run_plain(4) [OF assms(1)]
    by (intro gather_inputs_size) (auto dest: in_set_takeD)
qed

lemma replace_all: "(\<And>f. f \<in> set fs \<Longrightarrow> P f) \<Longrightarrow> replace_inputs P x fs = [x]"
  by (cases fs) (auto simp: replace_inputs_def)

lemma replace_prefix:
  assumes "\<And>f. f \<in> set as \<Longrightarrow> P f" "\<And>f. f \<in> set bs \<Longrightarrow> \<not> P f" "as \<noteq> []"
  shows "replace_inputs P x (as @ bs) = x # bs"
  using assms by (cases as) (auto simp: replace_inputs_def filter_id_conv)

lemma num_levels_install: "num_levels (install t c n v) = num_levels v"
  by (simp add: install_def num_levels_def)

lemma levels_install:
  "l < num_levels v \<Longrightarrow> levels (install t c n v) ! l =
     (if int l = output_level c then replace_inputs (is_input c l) (new_file t n (input_size c)) (levels v ! l)
      else filter (\<lambda>f. \<not> is_input c l f) (levels v ! l))"
  by (simp add: install_def)

text \<open>A compaction that leaves whole levels: everything up to the output level is replaced.\<close>

lemma install_levels:
  assumes ok: "version_ok T nl v n" and p: "picks v k c" "0 < k" "k \<le> length (runs v)"
    and out: "output_level c = int b" "b < nl"
    and below: "\<forall>sr\<in>set (take k (runs v)). sr_level sr \<le> b" and above: "\<forall>sr\<in>set (drop k (runs v)). b < sr_level sr"
    and l: "l < nl"
  shows "levels (install t c n v) ! l =
    (if l < b then [] else if l = b then [new_file t n (input_size c)] else levels v ! l)"
proof -
  note inp = picked_inputs(1) [OF ok p]
  have nl: "num_levels v = nl" using ok by (simp add: version_ok_def num_levels_def)
  have "is_input c l f \<longleftrightarrow> l \<le> b" if f: "f \<in> set (levels v ! l)" for f
  proof
    assume "is_input c l f"
    then show "l \<le> b" using inp [of l f] below by auto
  next
    assume "l \<le> b"
    have files: "\<forall>f\<in>set (levels v ! l). plain_file T f"
      using l ok by (auto simp: version_ok_def)
    obtain sr where sr: "sr \<in> set (runs v)" "sr_level sr = l" "f \<in> set (run_files v sr)"
    proof (cases "l = 0")
      case True
      then show ?thesis using f that [of "run_of_file f"] 
        by (simp add: runs_eq [OF ok] run_of_file_def run_files_def)
    next
      case False
      have "levels v ! l \<noteq> []" using f by auto
      then have "\<exists>sr. run_of_level l (levels v ! l) = [sr] \<and> sr_level sr = l"
        using False l ok by (subst run_of_level_cases [OF files]) (auto simp: version_ok_def)
      then obtain sr where sr: "run_of_level l (levels v ! l) = [sr]" "sr_level sr = l" by blast
      then have "sr \<in> set (runs v)" using False l by (auto simp: runs_eq [OF ok] intro!: bexI [of _ l])
      then show ?thesis using False f l nl sr that [of sr] by (simp add: run_files_def LevelFiles_def)
    qed
    then have "sr \<in> set (take k (runs v))"
      using above \<open>l \<le> b\<close> by (metis Un_iff append_take_drop_id leD set_append)
    then show "is_input c l f" using sr inp [of l f] by auto
  qed
  then show ?thesis
    using l out nl by (auto simp: levels_install filter_empty_conv filter_id_conv intro!: replace_all)
qed

text \<open>A compaction of files of level 0 only.\<close>

lemma install_files:
  assumes ok: "version_ok T nl v n" and p: "picks v k c" "0 < k" "k < length (levels v ! 0)" and l: "l < nl"
  shows "levels (install t c n v) ! l =
    (if l = 0 then new_file t n (input_size c) # drop k (levels v ! 0) else levels v ! l)"
proof -
  let ?F = "levels v ! 0"
  have nl: "num_levels v = nl" "2 \<le> nl" using ok by (auto simp: version_ok_def num_levels_def)
  have len: "k \<le> length (runs v)" and k: "runs v ! k = run_of_file (?F ! k)" "k \<noteq> length (runs v)"
    and take: "take k (runs v) = map run_of_file (take k ?F)"
    using p(3) by (simp_all add: runs_eq [OF ok] nth_append take_map)
  note inp = picked_inputs(1) [OF ok p(1,2) len]
  have out: "output_level c = 0" using p(1) k by (simp add: picks_def run_of_file_def)
  have in0: "is_input c 0 f \<longleftrightarrow> fnumber f \<in> fnumber ` set (take k ?F)" for f
    by (auto simp: inp take run_of_file_def run_files_def)
  have "\<not> is_input c l f" if "l \<noteq> 0" for f using that by (auto simp: inp take run_of_file_def)
  moreover have "replace_inputs (is_input c 0) x (take k ?F @ drop k ?F) = x # drop k ?F" for x
  proof (rule replace_prefix)
    show "is_input c 0 f" if "f \<in> set (take k ?F)" for f using that in0 by blast
    have "distinct (map fnumber (take k ?F @ drop k ?F))"
      unfolding append_take_drop_id using ok by (simp add: version_ok_def)
    then have "fnumber ` set (take k ?F) \<inter> fnumber ` set (drop k ?F) = {}"
      by (simp only: map_append distinct_append set_map)
    then show "\<not> is_input c 0 f" if "f \<in> set (drop k ?F)" for f using that by (auto simp: in0)
    show "take k ?F \<noteq> []" using p(2,3) by auto
  qed
  ultimately show ?thesis using l out nl
    by (cases "l = 0") (simp_all only: levels_install append_take_drop_id of_nat_0 refl if_True if_False of_nat_eq_0_iff not_False_eq_True, simp)
qed

lemma sorted_below_above:
  assumes "sorted (map sr_level rs)" "k < length rs" "sr_level (rs ! k) = Suc b" "\<forall>sr\<in>set (take k rs). sr_level sr \<noteq> Suc b"
  shows "\<forall>sr\<in>set (take k rs). sr_level sr \<le> b" "\<forall>sr\<in>set (drop k rs). b < sr_level sr"
proof -
  have "sr_level sr \<le> Suc b" if "sr \<in> set (take k rs)" for sr
  proof -
    from that assms(2) obtain i where "i < k" "sr = rs ! i" by (auto simp: in_set_conv_nth)
    with sorted_nth_mono [OF assms(1), of i k] assms(2,3) show ?thesis by simp
  qed
  then show "\<forall>sr\<in>set (take k rs). sr_level sr \<le> b" using assms(4) by (metis le_SucE)
  have "Suc b \<le> sr_level sr" if "sr \<in> set (drop k rs)" for sr
  proof -
    from that obtain i where "k + i < length rs" "sr = rs ! (k + i)" 
      using assms(2) by (auto simp: in_set_conv_nth less_diff_conv add.commute)
    with sorted_nth_mono [OF assms(1), of k "k + i"] assms(2,3) show ?thesis by simp
  qed
  then show "\<forall>sr\<in>set (drop k rs). b < sr_level sr" by (simp add: Suc_le_eq)
qed

lemma distinct_levels:
  assumes "version_ok T nl v n" "i < j" "j < length (runs v)" "0 < sr_level (runs v ! j)"
  shows "sr_level (runs v ! i) < sr_level (runs v ! j)"
proof -
  have lr: "sorted_wrt (\<lambda>x y. 0 < sr_level y \<longrightarrow> sr_level x < sr_level y) (level_runs v a b)" for a b
  proof (induction b)
    case (Suc b)
    have "sr_level sr < b" if "sr \<in> set (level_runs v a b)" for sr
      using that by (auto dest: run_of_level_level)
    then show ?case using Suc by (auto simp: sorted_wrt_append run_of_level_def Let_def)
  qed simp
  have "sorted_wrt (\<lambda>x y. 0 < sr_level y \<longrightarrow> sr_level x < sr_level y) (map run_of_file fs)" for fs
    by (induction fs) (auto simp: run_of_file_def)
  then have "sorted_wrt (\<lambda>x y. 0 < sr_level y \<longrightarrow> sr_level x < sr_level y) (runs v)"
    unfolding runs_eq [OF assms(1)]
    using lr [of 1 nl] by (auto simp: sorted_wrt_append run_of_file_def dest: run_of_level_level)
  then show ?thesis using assms by (simp add: sorted_wrt_iff_nth_less)
qed

text \<open>The invariant and the sizes of the runs after a compaction.\<close>

lemma new_file_sel [simp]:
  "fnumber (new_file t n sz) = n" "file_size (new_file t n sz) = sz" "compensated_file_size (new_file t n sz) = sz"
  "\<not> being_compacted (new_file t n sz)" "\<not> marked_for_compaction (new_file t n sz)" "modification_time (new_file t n sz) = t"
  by (simp_all add: new_file_def)

lemma version_ok_install:
  assumes ok: "version_ok T nl v n" and pos: "0 < sz" and t: "T \<le> t"
    and lev: "\<And>l. l < nl \<Longrightarrow> set (levels w ! l) \<subseteq> insert (new_file t n sz) (set (levels v ! l))"
    and l0: "levels w ! 0 = new_file t n sz # drop k (levels v ! 0) \<or> levels w ! 0 = []"
    and rest: "length (levels w) = nl" "marked_periodic w = []" "marked w = []"
    and bnd: "\<And>l. 1 \<le> l \<Longrightarrow> l < nl \<Longrightarrow> sum_list (map file_size (levels w ! l)) < 2 ^ 64"
  shows "version_ok T nl w (Suc n)"
proof -
  have "plain_file T f"
    if "fs \<in> set (levels w)" "f \<in> set fs" for f fs
  proof -
    from that rest obtain l where "l < nl" "f \<in> set (levels w ! l)" by (auto simp: in_set_conv_nth)
    with lev [of l] have "f = new_file t n sz \<or> f \<in> set (levels v ! l)" by blast
    then show ?thesis using ok pos t \<open>l < nl\<close> by (auto simp: version_ok_def plain_file_def)
  qed
  moreover have "distinct (map fnumber (drop k (levels v ! 0)))" "\<forall>f\<in>set (drop k (levels v ! 0)). fnumber f < n"
    using ok by (auto simp: version_ok_def drop_map [symmetric] dest: in_set_dropD)
  then have "distinct (map fnumber (levels w ! 0))" "\<forall>f\<in>set (levels w ! 0). fnumber f < Suc n"
    using l0 by (auto simp: less_Suc_eq)
  ultimately show ?thesis using ok rest bnd by (simp add: version_ok_def)
qed

lemma install_fields:
  "length (levels (install t c n v)) = num_levels v" "marked_periodic (install t c n v) = marked_periodic v"
  "marked (install t c n v) = marked v"
  by (simp_all add: install_def)

lemma level_runs_cong: "(\<And>l. a \<le> l \<Longrightarrow> l < b \<Longrightarrow> levels w ! l = levels v ! l) \<Longrightarrow> level_runs w a b = level_runs v a b"
  by (auto intro!: arg_cong [where f = concat])

lemma level_runs_empty: "(\<And>l. a \<le> l \<Longrightarrow> l < b \<Longrightarrow> levels w ! l = []) \<Longrightarrow> level_runs w a b = []"
  by (auto simp: run_of_level_def)

lemma level_runs_append: "a \<le> b \<Longrightarrow> b \<le> c \<Longrightarrow> level_runs v a c = level_runs v a b @ level_runs v b c"
  using upt_add_eq_append [of a b "c - b"] by simp

lemma runs_split:
  assumes "version_ok T nl v n" "b < nl" "k \<le> length (runs v)"
    "\<forall>sr\<in>set (take k (runs v)). sr_level sr \<le> b" "\<forall>sr\<in>set (drop k (runs v)). b < sr_level sr"
  shows "drop k (runs v) = level_runs v (Suc b) nl"
proof -
  let ?A = "map run_of_file (levels v ! 0) @ level_runs v 1 (Suc b)" and ?B = "level_runs v (Suc b) nl"
  have AB: "runs v = ?A @ ?B"
    using level_runs_append [of 1 "Suc b" nl v] assms(2) by (simp add: runs_eq [OF assms(1)] del: upt_Suc)
  have A: "\<forall>sr\<in>set ?A. \<not> b < sr_level sr" by (auto simp: run_of_file_def dest!: run_of_level_level)
  have B: "\<forall>sr\<in>set ?B. b < sr_level sr" by (auto dest!: run_of_level_level)
  have "filter (\<lambda>sr. b < sr_level sr) (?A @ ?B) = ?B"
    unfolding filter_append [of _ ?A] filter_False [OF A] filter_True [OF B] by (rule append_Nil)
  moreover have "\<forall>sr\<in>set (take k (runs v)). \<not> b < sr_level sr" using assms(4) by (simp add: not_less)
  then have "filter (\<lambda>sr. b < sr_level sr) (take k (runs v) @ drop k (runs v)) = drop k (runs v)"
    unfolding filter_append filter_True [OF assms(5)] by (subst filter_False) simp_all
  ultimately show ?thesis unfolding append_take_drop_id AB [symmetric] by (simp only:)
qed

lemma input_size_pos:
  assumes "version_ok T nl v n" "picks v k c" "0 < k" "k \<le> length (runs v)"
  shows "0 < input_size c"
proof -
  obtain r rs where r: "take k (runs v) = r # rs" using assms(3,4) by (cases "take k (runs v)") auto
  then have "r \<in> set (runs v)" by (metis in_set_takeD list.set_intros(1))
  then show ?thesis unfolding picked_inputs(2) [OF assms] r using run_plain(2) [OF assms(1)] by simp
qed

lemma input_size_fits:
  assumes "version_ok T nl v n" "picks v k c" "0 < k" "k \<le> length (runs v)" "sum_list (map sr_size (runs v)) < 2 ^ 64"
  shows "input_size c < 2 ^ 64"
proof -
  have "sum_list (map sr_size (runs v)) = sum_list (map sr_size (take k (runs v))) + sum_list (map sr_size (drop k (runs v)))"
    by (simp flip: sum_list_append map_append)
  then show ?thesis using assms(5) by (simp add: picked_inputs(2) [OF assms(1-4)])
qed

lemma install_runs_levels:
  assumes ok: "version_ok T nl v n" and p: "picks v k c" "0 < k" "k \<le> length (runs v)"
    and out: "output_level c = int b" "b < nl"
    and ba: "\<forall>sr\<in>set (take k (runs v)). sr_level sr \<le> b" "\<forall>sr\<in>set (drop k (runs v)). b < sr_level sr"
    and t: "T \<le> t" and tot: "sum_list (map sr_size (runs v)) < 2 ^ 64"
  shows "version_ok T nl (install t c n v) (Suc n) \<and>
    map sr_size (runs (install t c n v)) = input_size c # map sr_size (drop k (runs v))"
proof -
  let ?w = "install t c n v" and ?f = "new_file t n (input_size c)"
  note lev = install_levels [OF ok p out ba]
  have nl: "num_levels v = nl" "2 \<le> nl" "marked_periodic v = []" "marked v = []"
    using ok by (auto simp: version_ok_def num_levels_def)
  note pos = input_size_pos [OF ok p] and fits = input_size_fits [OF ok p tot]
  have bnd: "sum_list (map file_size (levels v ! l)) < 2 ^ 64" if "1 \<le> l" "l < nl" for l
    using that ok by (simp add: version_ok_def)
  have okw: "version_ok T nl ?w (Suc n)"
    by (rule version_ok_install [OF ok pos t, where k = "length (levels v ! 0)"])
      (use lev nl fits bnd in \<open>auto simp: install_fields split: if_splits\<close>)
  have up: "level_runs ?w (Suc b) nl = level_runs v (Suc b) nl" by (rule level_runs_cong) (simp add: lev)
  have run: "run_of_level b [?f] = [\<lparr>sr_level = b, sr_file = None, sr_size = input_size c,
      sr_compensated = input_size c, sr_compacted = False\<rparr>]"
    using pos fits by (simp add: run_of_level_def Let_def sum64_exact)
  have "map sr_size (runs ?w) = input_size c # map sr_size (level_runs v (Suc b) nl)"
  proof (cases "b = 0")
    case True
    then show ?thesis using up lev [of 0] nl by (simp add: runs_eq [OF okw] run_of_file_def)
  next
    case False
    have "level_runs ?w 1 nl = level_runs ?w 1 b @ level_runs ?w b nl"
      using False out by (intro level_runs_append) auto
    moreover have "level_runs ?w 1 b = []" using out by (intro level_runs_empty) (simp add: lev)
    moreover have "level_runs ?w b nl = run_of_level b (levels ?w ! b) @ level_runs ?w (Suc b) nl"
      using out by (simp add: upt_conv_Cons)
    ultimately show ?thesis using up run lev [of b] lev [of 0] out nl False by (simp add: runs_eq [OF okw])
  qed
  then show ?thesis using okw runs_split [OF ok out(2) p(3) ba] by simp
qed

lemma install_runs_files:
  assumes ok: "version_ok T nl v n" and p: "picks v k c" "0 < k" "k < length (levels v ! 0)"
    and t: "T \<le> t" and tot: "sum_list (map sr_size (runs v)) < 2 ^ 64"
  shows "version_ok T nl (install t c n v) (Suc n) \<and>
    map sr_size (runs (install t c n v)) = input_size c # map sr_size (drop k (runs v))"
proof -
  let ?w = "install t c n v" and ?f = "new_file t n (input_size c)"
  note lev = install_files [OF ok p]
  have nl: "num_levels v = nl" "2 \<le> nl" "marked_periodic v = []" "marked v = []"
    using ok by (auto simp: version_ok_def num_levels_def)
  have len: "k \<le> length (runs v)" using p(3) by (simp add: runs_eq [OF ok])
  note pos = input_size_pos [OF ok p(1,2) len]
  have bnd: "sum_list (map file_size (levels v ! l)) < 2 ^ 64" if "1 \<le> l" "l < nl" for l
    using that ok by (simp add: version_ok_def)
  have okw: "version_ok T nl ?w (Suc n)"
    by (rule version_ok_install [OF ok pos t, where k = k])
      (use lev nl bnd in \<open>auto simp: install_fields split: if_splits dest: in_set_dropD\<close>)
  have "level_runs ?w 1 nl = level_runs v 1 nl" by (rule level_runs_cong) (simp add: lev)
  then show ?thesis
    using okw lev [of 0] nl p(3) by (simp add: runs_eq [OF okw] runs_eq [OF ok] run_of_file_def drop_map)
qed

lemma install_spec:
  assumes ok: "version_ok T nl v n" and p: "picks v k c" "0 < k" "k \<le> length (runs v)" and t: "T \<le> t"
    and tot: "sum_list (map sr_size (runs v)) < 2 ^ 64"
  shows "version_ok T nl (install t c n v) (Suc n)"
    "map sr_size (runs (install t c n v)) = sum_list (take k (map sr_size (runs v))) # drop k (map sr_size (runs v))"
proof -
  have nl: "num_levels v = nl" "2 \<le> nl" using ok by (auto simp: version_ok_def num_levels_def)
  have "version_ok T nl (install t c n v) (Suc n) \<and>
    map sr_size (runs (install t c n v)) = input_size c # map sr_size (drop k (runs v))"
  proof (cases "k = length (runs v)")
    case True
    show ?thesis
    proof (rule install_runs_levels [OF ok p _ _ _ _ t tot])
      show "output_level c = int (nl - 1)" using p(1) True nl by (simp add: picks_def)
      show "\<forall>sr\<in>set (take k (runs v)). sr_level sr \<le> nl - 1"
        using run_plain(3) [OF ok] by (force dest: in_set_takeD)
    qed (use True nl in auto)
  next
    case False
    then have k: "k < length (runs v)" using p(3) by simp
    show ?thesis
    proof (cases "sr_level (runs v ! k)")
      case 0
      have "k < length (levels v ! 0)"
      proof (rule ccontr)
        assume "\<not> ?thesis"
        then have "runs v ! k = level_runs v 1 nl ! (k - length (levels v ! 0))"
          "k - length (levels v ! 0) < length (level_runs v 1 nl)"
          using k by (auto simp: runs_eq [OF ok] nth_append)
        then have "runs v ! k \<in> set (level_runs v 1 nl)" by (metis nth_mem)
        then show False using 0 by (auto dest!: run_of_level_level)
      qed
      then show ?thesis by (rule install_runs_files [OF ok p(1,2) _ t tot])
    next
      case (Suc b)
      have "sr_level sr \<noteq> Suc b" if "sr \<in> set (take k (runs v))" for sr
      proof -
        from that k obtain i where "i < k" "sr = runs v ! i" by (auto simp: in_set_conv_nth)
        then show ?thesis using distinct_levels [OF ok \<open>i < k\<close> k] Suc by simp
      qed
      then have ba: "\<forall>sr\<in>set (take k (runs v)). sr_level sr \<le> b" "\<forall>sr\<in>set (drop k (runs v)). b < sr_level sr"
        using sorted_below_above [OF sorted_runs [OF ok] k Suc] by blast+
      have "Suc b < nl" using run_plain(3) [OF ok, of "runs v ! k"] k Suc by simp
      moreover have "output_level c = int b" using p(1) False Suc by (simp add: picks_def)
      ultimately show ?thesis using ba by (intro install_runs_levels [OF ok p _ _ _ _ t tot]) simp_all
    qed
  qed
  then show "version_ok T nl (install t c n v) (Suc n)"
    "map sr_size (runs (install t c n v)) = sum_list (take k (map sr_size (runs v))) # drop k (map sr_size (runs v))"
    unfolding picked_inputs(2) [OF ok p] by (simp_all add: take_map drop_map)
qed

subsection \<open>Scores and marks\<close>

text \<open>Nothing runs, and less than 30 days have passed since the time \<open>T\<close>.\<close>

definition quiet :: "nat \<Rightarrow> picker \<Rightarrow> bool" where
  "quiet T pk \<longleftrightarrow> compactions_in_progress pk = [] \<and> T \<le> current_time pk \<and> current_time pk \<le> T + 30 * 24 * 60 * 60"

lemma quiet_no_overlap: "quiet T pk \<Longrightarrow> \<not> FilesRangeOverlapWithCompaction pk ins l p"
  by (auto simp: quiet_def FilesRangeOverlapWithCompaction_def RangeOverlapWithCompaction_def split: option.splits)

text \<open>No file is marked: the scores leave the version as it is.\<close>

lemma score_unchanged:
  assumes "quiet T pk" "marked v = []" "marked_periodic v = []"
    "\<forall>l<num_levels v. \<forall>f\<in>set (levels v ! l). \<not> marked_for_compaction f \<and> T \<le> modification_time f"
  shows "ComputeCompactionScore pk (tier_options f) v = v"
proof -
  have files: "\<not> marked_for_compaction f \<and> T \<le> modification_time f" if "f \<in> set (LevelFiles v l)" for f l
    using that assms(4) by (auto simp: LevelFiles_def split: if_splits)
  have "ComputeFilesMarkedForCompaction v m = []" for m
    using files by (auto simp: ComputeFilesMarkedForCompaction_def Let_def filter_empty_conv)
  moreover have "ComputeFilesMarkedForPeriodicCompaction (v\<lparr>marked := []\<rparr>) (current_time pk) (30 * 24 * 60 * 60) m = []" for m
  proof -
    have "LevelFiles (v\<lparr>marked := []\<rparr>) l = LevelFiles v l" for l by (simp add: LevelFiles_def num_levels_def)
    moreover have "\<not> modification_time f < current_time pk - 30 * 24 * 60 * 60" if "f \<in> set (LevelFiles v l)" for f l
      using files [OF that] assms(1) by (auto simp: quiet_def)
    ultimately show ?thesis
      by (auto simp: ComputeFilesMarkedForPeriodicCompaction_def Let_def filter_empty_conv)
  qed
  moreover have "v\<lparr>marked := [], marked_periodic := []\<rparr> = v" using assms(2,3) by simp
  moreover have "opt_periodic_seconds (tier_options f) = 30 * 24 * 60 * 60"
    by (simp add: tier_options_def sanitize_periodic_def kDefaultTtl_def kDefaultPeriodicCompSecs_def)
  ultimately show ?thesis unfolding ComputeCompactionScore_def Let_def by simp
qed

lemma score_ok: "quiet T pk \<Longrightarrow> version_ok T nl v n \<Longrightarrow> ComputeCompactionScore pk (tier_options f) v = v"
  by (rule score_unchanged) (auto simp: version_ok_def plain_file_def num_levels_def)

text \<open>Marking the inputs makes no difference to the version after the compaction.\<close>

lemma replace_inputs_map:
  "(\<And>f. f \<in> set fs \<Longrightarrow> P (g f) = P f) \<Longrightarrow> (\<And>f. f \<in> set fs \<Longrightarrow> \<not> P f \<Longrightarrow> g f = f) \<Longrightarrow>
    replace_inputs P x (map g fs) = replace_inputs P x fs"
proof -
  have eq: "filter (\<lambda>f. \<not> P f) (map g xs) = filter (\<lambda>f. \<not> P f) xs"
    if "\<And>f. f \<in> set xs \<Longrightarrow> P (g f) = P f" "\<And>f. f \<in> set xs \<Longrightarrow> \<not> P f \<Longrightarrow> g f = f" for xs
    using that by (induction xs) auto
  assume "\<And>f. f \<in> set fs \<Longrightarrow> P (g f) = P f" "\<And>f. f \<in> set fs \<Longrightarrow> \<not> P f \<Longrightarrow> g f = f"
  then show ?thesis
    by (induction fs) (auto simp: replace_inputs_def eq)
qed

lemma filter_inputs_map:
  "(\<And>f. P (g f) = P f) \<Longrightarrow> (\<And>f. \<not> P f \<Longrightarrow> g f = f) \<Longrightarrow> filter (\<lambda>f. \<not> P f) (map g fs) = filter (\<lambda>f. \<not> P f) fs"
  by (induction fs) auto

lemma install_marked: "install t c n (MarkFilesBeingCompacted c b v) = install t c n v"
proof -
  have "is_input c l (if is_input c l f then f\<lparr>being_compacted := b\<rparr> else f) = is_input c l f" for l f
    by (simp add: is_input_def)
  then show ?thesis
    by (auto simp: install_def MarkFilesBeingCompacted_def num_levels_def replace_inputs_map filter_inputs_map)
qed

lemma score_marked:
  assumes "quiet T pk" "version_ok T nl v n"
  shows "ComputeCompactionScore pk (tier_options f) (MarkFilesBeingCompacted c b v) = MarkFilesBeingCompacted c b v"
proof -
  have "\<not> marked_for_compaction f \<and> T \<le> modification_time f" if "l < num_levels v" "f \<in> set (levels v ! l)" for l f
    using that assms(2) nth_mem [of l "levels v"] by (auto simp: version_ok_def plain_file_def num_levels_def)
  then show ?thesis
    using assms by (intro score_unchanged) (auto simp: MarkFilesBeingCompacted_def version_ok_def num_levels_def)
qed

subsection \<open>The picker on tiers\<close>

lemma choose_unfold:
  assumes f: "2 \<le> f" "f \<le> 100" and ok: "version_ok T nl v n" and ne: "runs v \<noteq> []"
    and amp: "sum_list (map sr_size (runs v)) \<le> f * sr_size (last (runs v))"
    and fits: "100 * Suc f * sum_list (map sr_size (runs v)) < 2 ^ 64"
  shows "choose_compaction pk (tier_options f) v =
    Some (if length (runs v) < f then None
      else PickCompactionToReduceSortedRuns pk (tier_options f) v (runs v) 1 (2 ^ 32 - 1))"
proof -
  have v: "num_levels v = nl" "2 \<le> nl" "marked_periodic v = []" "marked v = []"
    using ok by (auto simp: version_ok_def num_levels_def)
  have R: "CalculateSortedRuns v (MaxOutputLevel v (allow_ingest_behind (tier_options f))) = runs v"
    using tier_options_sel(3) [OF f] by (simp add: runs_def MaxOutputLevel_def)
  have "PickCompactionToReduceSizeAmp pk (tier_options f) v (runs v) = Some None"
    using run_plain [OF ok] ne amp fits by (intro no_size_amp [OF f]) auto
  moreover have "PickDeleteTriggeredCompaction pk (tier_options f) v (runs v) = Some None"
    using v by (simp add: PickDeleteTriggeredCompaction_def multi_level_marked_def PickFilesMarkedForCompaction_def)
  ultimately show ?thesis
    using v ne unfolding choose_compaction_def R Let_def tier_options_sel [OF f] tier_universal_sel
    by (simp add: option.map_ident split: option.splits)
qed

lemma pick_series:
  assumes f: "2 \<le> f" "f \<le> 100" and ok: "version_ok T nl v n" and pk: "quiet T pk"
    and amp: "sum_list (map sr_size (runs v)) \<le> f * sr_size (last (runs v))"
    and fits: "100 * Suc f * sum_list (map sr_size (runs v)) < 2 ^ 64"
    and sizes: "map sr_size (runs v) = replicate f s @ rest"
  shows "\<exists>c. PickCompaction pk (tier_options f) v =
    Some (Some c, RegisterCompaction c pk, MarkFilesBeingCompacted c True v) \<and> picks v f c"
proof -
  have len: "f \<le> length (runs v)" using arg_cong [OF sizes, of length] by simp
  then have ne: "runs v \<noteq> []" using f by auto
  have fs: "f * s < 2 ^ 64" using fits_less [OF fits_mono [OF fits, of s]] f by (cases f) (simp_all add: sizes)
  have "find_candidates (tier_universal f) 1 f f 0 (runs v) = Some (0, f)"
    using run_plain [OF ok] fs by (intro find_series [OF f(1) _ sizes]) blast+
  moreover have "min f (2 ^ 32 - 1) = f" "max f 2 = f" using f by auto
  moreover have mol: "MaxOutputLevel v (allow_ingest_behind (tier_options f)) = num_levels v - 1"
    using tier_options_sel(3) [OF f] by (simp add: MaxOutputLevel_def)
  ultimately have "PickCompactionToReduceSortedRuns pk (tier_options f) v (runs v) 1 (2 ^ 32 - 1) \<noteq> None \<and>
      picks v f (the (PickCompactionToReduceSortedRuns pk (tier_options f) v (runs v) 1 (2 ^ 32 - 1)))"
    using f quiet_no_overlap [OF pk]
    unfolding PickCompactionToReduceSortedRuns_def Let_def tier_options_sel [OF f] tier_universal_sel mol
    by (simp add: picks_def Compaction_def Let_def)
  then show ?thesis
    using choose_unfold [OF f ok ne amp fits, of pk] len score_marked [OF pk ok] by (auto simp: PickCompaction_def)
qed

lemma pick_tiers:
  assumes f: "2 \<le> f" "f \<le> 100" and ok: "version_ok T nl v n"
    and s: "0 < s" and m: "0 < m" and sizes: "map sr_size (runs v) = tiers f s m" and fits: "100 * Suc f * (s * m) < 2 ^ 64"
  shows "PickCompaction pk (tier_options f) v = Some (None, pk, v)"
proof -
  have ne: "runs v \<noteq> []" using sizes tiers_nonempty [OF f(1) m, of s] by auto
  have "last (tiers f s m) = sr_size (last (runs v))" using ne sizes [symmetric] by (simp add: last_map)
  then have amp: "sum_list (map sr_size (runs v)) \<le> f * sr_size (last (runs v))"
    using last_tiers [OF f(1) m, of s] sum_tiers [OF f(1), of s m] sizes by simp
  have "find_candidates (tier_universal f) 1 f f 0 (runs v) = None"
    using run_plain [OF ok] fits_less [OF fits] by (intro find_none [OF f s _ sizes]) blast+
  moreover have "min f (2 ^ 32 - 1) = f" "max f 2 = f" using f by auto
  ultimately have "PickCompactionToReduceSortedRuns pk (tier_options f) v (runs v) 1 (2 ^ 32 - 1) = None"
    unfolding PickCompactionToReduceSortedRuns_def Let_def tier_options_sel [OF f] tier_universal_sel by simp
  then show ?thesis using choose_unfold [OF f ok ne amp, of pk] fits sum_tiers [OF f(1), of s m] sizes by (simp add: PickCompaction_def)
qed

lemma unregister_register: "UnregisterCompaction c (RegisterCompaction c pk) = pk"
  by (simp add: UnregisterCompaction_def RegisterCompaction_def)

lemma settle_done: "PickCompaction pk opt v = Some (None, pk', v') \<Longrightarrow> settle (Suc fuel) pk opt (v, n) = Some (v, n)"
  by simp

lemma settle_step:
  assumes "PickCompaction pk opt v = Some (Some c, RegisterCompaction c pk, MarkFilesBeingCompacted c True v)"
    "ComputeCompactionScore pk opt (install (current_time pk) c n v) = install (current_time pk) c n v"
  shows "settle (Suc fuel) pk opt (v, n) = settle fuel pk opt (install (current_time pk) c n v, Suc n)"
  using assms by (simp add: install_marked unregister_register)

declare settle.simps(2) [simp del]

lemma settle_tiers:
  assumes f: "2 \<le> f" "f \<le> 100" and pk: "quiet T pk"
  shows "version_ok T nl v n \<Longrightarrow> 0 < s \<Longrightarrow> map sr_size (runs v) = s # tiers f s m \<Longrightarrow> m < fuel \<Longrightarrow>
    100 * Suc f * (s * Suc m) < 2 ^ 64 \<Longrightarrow> \<exists>v' n'. settle (Suc fuel) pk (tier_options f) (v, n) = Some (v', n') \<and> version_ok T nl v' n' \<and>
      map sr_size (runs v') = tiers f s (Suc m)"
proof (induction m arbitrary: v n s fuel rule: less_induct)
  case (less m)
  note ok = less.prems(1) and s = less.prems(2) and sizes = less.prems(3)
  show ?case
  proof (cases "m mod f = f - 1")
    case False
    then have sz: "map sr_size (runs v) = tiers f s (Suc m)" using sizes tiers_step [OF f(1)] by simp
    then have "PickCompaction pk (tier_options f) v = Some (None, pk, v)" by (intro pick_tiers [OF f ok s _ _ less.prems(5)]) simp_all
    then show ?thesis using ok sz settle_done by blast
  next
    case True
    let ?rest = "tiers f (s * f) (m div f)" and ?t = "current_time pk"
    have "0 < m" using True f by (auto intro: Nat.gr0I)
    then have m: "0 < m" "m div f < m" using f by simp_all
    note series = sizes [unfolded tiers_carry(1) [OF f(1) True]]
    have ne: "runs v \<noteq> []" using sizes by auto
    have "sr_size (last (runs v)) = last (tiers f s m)"
      using arg_cong [OF sizes, of last] ne tiers_nonempty [OF f(1) m(1)] by (simp add: last_map)
    then have "sum_list (map sr_size (runs v)) \<le> f * sr_size (last (runs v))"
      using last_tiers [OF f(1) m(1), of s] sum_tiers [OF f(1), of s m] by (simp add: sizes)
    moreover have sum: "sum_list (map sr_size (runs v)) = s * Suc m" using sum_tiers [OF f(1), of s m] by (simp add: sizes)
    ultimately obtain c where c: "PickCompaction pk (tier_options f) v =
        Some (Some c, RegisterCompaction c pk, MarkFilesBeingCompacted c True v)" "picks v f c"
      using pick_series [OF f ok pk _ _ series] less.prems(5) by metis
    have len: "f \<le> length (runs v)" using arg_cong [OF series, of length] by simp
    have f0: "0 < f" using f by simp
    have t: "T \<le> ?t" using pk by (simp add: quiet_def)
    have tot: "sum_list (map sr_size (runs v)) < 2 ^ 64"
      unfolding sum by (rule le_less_trans [OF _ less.prems(5)]) simp
    let ?w = "install ?t c n v"
    have w: "version_ok T nl ?w (Suc n)" "map sr_size (runs ?w) = s * f # ?rest"
      using install_spec [OF ok c(2) f0 len t tot] unfolding series by (simp_all add: sum_list_replicate mult.commute)
    have sf: "0 < s * f" using s f0 by simp
    obtain fuel' where fu: "fuel = Suc fuel'" "m div f < fuel'" using less.prems(4) m by (cases fuel) auto
    have "Suc m = f * Suc (m div f)" using True f(1) mult_div_mod_eq [of f m] by simp
    then have "100 * Suc f * (s * f * Suc (m div f)) < 2 ^ 64" using less.prems(5) by (simp only: mult.assoc)
    from less.IH [OF m(2) w(1) sf w(2) fu(2) this]
    show ?thesis
      unfolding settle_step [OF c(1) score_ok [OF pk w(1)]] fu(1) tiers_carry(2) [OF f(1) True] .
  qed
qed

lemma add_file_spec:
  assumes "version_ok T nl v n" "0 < sz" "T \<le> t"
  shows "version_ok T nl (add_file t n sz v) (Suc n)"
    "map sr_size (runs (add_file t n sz v)) = sz # map sr_size (runs v)"
proof -
  have nl: "length (levels v) = nl" "2 \<le> nl" using assms(1) by (auto simp: version_ok_def)
  then have lev: "levels (add_file t n sz v) ! l = (if l = 0 then new_file t n sz # levels v ! 0 else levels v ! l)"
    if "l < nl" for l
    using that by (cases "levels v") (auto simp: add_file_def nth_Cons split: nat.splits)
  have len: "length (levels (add_file t n sz v)) = nl" using nl by (simp add: add_file_def)
  have "marked_periodic (add_file t n sz v) = []" "marked (add_file t n sz v) = []"
    using assms(1) by (simp_all add: add_file_def version_ok_def)
  moreover have "sum_list (map file_size (levels v ! l)) < 2 ^ 64" if "1 \<le> l" "l < nl" for l
    using that assms(1) by (simp add: version_ok_def)
  ultimately show ok: "version_ok T nl (add_file t n sz v) (Suc n)"
    using len nl by (intro version_ok_install [OF assms, where k = 0]) (auto simp: lev)
  have "level_runs (add_file t n sz v) 1 nl = level_runs v 1 nl" by (rule level_runs_cong) (simp add: lev)
  then show "map sr_size (runs (add_file t n sz v)) = sz # map sr_size (runs v)"
    using nl by (simp add: runs_eq [OF ok] runs_eq [OF assms(1)] lev run_of_file_def)
qed

lemma empty_version_ok: "2 \<le> nl \<Longrightarrow> version_ok T nl (empty_version nl) n \<and> runs (empty_version nl) = []"
  by (auto simp: version_ok_def empty_version_def runs_def CalculateSortedRuns_def LevelFiles_def num_levels_def run_of_level_def)

lemma load_tiers:
  assumes f: "2 \<le> f" "f \<le> 100" and env: "\<And>i :: nat. quiet T (env i)" and sz: "0 < sz" and nl: "2 \<le> nl"
  shows "k \<le> fuel \<Longrightarrow> 100 * Suc f * (sz * k) < 2 ^ 64 \<Longrightarrow> \<exists>v n. load_runs (Suc fuel) env (tier_options f) sz k (empty_version nl, 0) = Some (v, n) \<and>
    version_ok T nl v n \<and> map sr_size (runs v) = tiers f sz k"
proof (induction k)
  case 0
  then show ?case using empty_version_ok [OF nl, of T 0] by simp
next
  case (Suc k)
  then obtain v n where v: "load_runs (Suc fuel) env (tier_options f) sz k (empty_version nl, 0) = Some (v, n)"
    "version_ok T nl v n" "map sr_size (runs v) = tiers f sz k" using fits_mono [OF Suc.prems(2), of "sz * k"] by auto
  have "T \<le> current_time (env k)" using env [of k] by (simp add: quiet_def)
  note fl = add_file_spec [OF v(2) sz this]
  have "ComputeCompactionScore (env k) (tier_options f) (add_file (current_time (env k)) n sz v) =
      add_file (current_time (env k)) n sz v"
    by (rule score_ok [OF env fl(1)])
  with settle_tiers [OF f env fl(1) sz, of k fuel k] fl(2) v(3) Suc.prems v(1) show ?case by simp
qed

subsection \<open>Properties\<close>

text \<open>
  C1: with the options that \<open>mqssd\<close> sets, universal compaction is tiering. For every fanout \<open>f\<close>
  from 2 to 100 and every number \<open>k\<close> of flushes of \<open>sz\<close> bytes, the compactions that the picker
  asks for after each flush come to an end, and then the sorted runs are, newest first,
  the tiers of \<open>k\<close> in base \<open>f\<close>: less than \<open>f\<close> runs of each size \<open>sz * f ^ i\<close>, \<open>sz * k\<close> bytes
  together. The output of a compaction is taken to have the size of its inputs. At each
  flush no compaction is in progress, all flushes happen within 30 days, after which
  periodic compactions would begin, and all data times \<open>100 * (f + 1)\<close> is less than \<open>2 ^ 64\<close>:
  beyond this bound the products that the picker compares in \<open>uint64_t\<close> may wrap around.
\<close>

theorem universal_is_tiering:
  assumes "2 \<le> f" "f \<le> 100" "0 < sz" "\<And>i. quiet T (env i)" "100 * (f + 1) * (sz * k) < 2 ^ 64"
  shows "\<exists>v n. load_runs (Suc k) env (tier_options f) sz k (empty_version (5 * f), 0) = Some (v, n) \<and>
    run_sizes v = tiers f sz k \<and> sum_list (run_sizes v) = sz * k"
  using load_tiers [OF assms(1,2) _ assms(3), of T env "5 * f" k k] assms(1,4,5) sum_tiers [OF assms(1), of sz k]
  by (auto simp: run_sizes_def)

theorem universal_is_tiering_witness:
  "\<exists>v n. load_runs 22
      (\<lambda>i. \<lparr>compactions_in_progress = [], level0_compactions_in_progress = [], random_file = 0, current_time = 7\<rparr>)
      (tier_options 4) 1 21 (empty_version 20, 0) = Some (v, n) \<and> run_sizes v = [1, 4, 16] \<and> sum_list (run_sizes v) = 21"
  using universal_is_tiering [of 4 1 7 "\<lambda>i. \<lparr>compactions_in_progress = [], level0_compactions_in_progress = [],
    random_file = 0, current_time = 7\<rparr>" 21]
  by (simp add: quiet_def tiers.simps)

lemma periodic_seconds: "opt_periodic_seconds (tier_options fanout) = 2592000" "allow_ingest_behind (tier_options fanout) = False"
  by (simp_all add: tier_options_def sanitize_periodic_def kDefaultPeriodicCompSecs_def)

text \<open>
  C35: The driver sets the periodic compaction to 0, which its comment calls disabled, yet a file
  older than 30 days is marked for periodic compaction and calls for one: for universal
  compaction 0 is replaced by the default time to live, which the driver does not change.
\<close>

theorem periodic_not_disabled:
  assumes "f \<in> set (LevelFiles v l)" "\<not> being_compacted f" "0 < modification_time f"
    "modification_time f + 30 * 24 * 60 * 60 < current_time pk"
  shows "(l, f) \<in> set (marked_periodic (ComputeCompactionScore pk (tier_options fanout) v)) \<and>
    NeedsCompaction (tier_options fanout) (ComputeCompactionScore pk (tier_options fanout) v)"
proof -
  have l: "l \<le> num_levels v - 1" using assms(1) by (auto simp: LevelFiles_def split: if_splits)
  have "(l, f) \<in> set (ComputeFilesMarkedForPeriodicCompaction v (current_time pk) 2592000 (num_levels v - 1))"
    using assms l by (auto simp: ComputeFilesMarkedForPeriodicCompaction_def Let_def less_Suc_eq_le simp del: upt_Suc intro!: bexI [of _ l])
  then have "(l, f) \<in> set (marked_periodic (ComputeCompactionScore pk (tier_options fanout) v))"
    by (simp add: ComputeCompactionScore_def Let_def periodic_seconds MaxOutputLevel_def
      ComputeFilesMarkedForPeriodicCompaction_def LevelFiles_def num_levels_def cong: if_cong)
  then show ?thesis by (auto simp: NeedsCompaction_def)
qed

theorem periodic_not_disabled_witness:
  "NeedsCompaction (tier_options 4) (ComputeCompactionScore
     \<lparr>compactions_in_progress = [], level0_compactions_in_progress = [], random_file = 0, current_time = 2592002\<rparr>
     (tier_options 4) \<lparr>levels = [[new_file 1 0 8], []], marked_periodic = [], marked = []\<rparr>)"
  using periodic_not_disabled [of "new_file 1 0 8" "\<lparr>levels = [[new_file 1 0 8], []], marked_periodic = [], marked = []\<rparr>" 0
    "\<lparr>compactions_in_progress = [], level0_compactions_in_progress = [], random_file = 0, current_time = 2592002\<rparr>" 4]
  by (simp add: LevelFiles_def num_levels_def new_file_def)

end
