(* ===== verification/Clean_Cut.thy ===== *)
theory Clean_Cut
  imports Picker
begin

section \<open>Clean cuts\<close>

text \<open>
  What \<open>ExpandInputsToCleanCut\<close> and \<open>GetOverlappingInputs\<close> compute. A compaction of some files
  of a level must not leave out a part of the versions of a user key: on a sorted level
  the inputs are extended until no user key is on both sides of their ends, on level 0
  until no file outside overlaps them. Both results are shown to be the least of their
  kind.
\<close>

subsection \<open>File boundaries\<close>

definition boundary :: "internal_key \<Rightarrow> bytes \<times> bool" where
  "boundary k = (user_key k, snd k \<noteq> kRangeTombstoneSentinel)"

lemma sst_order: "sstableKeyCompare a b = (if boundary a < boundary b then - 1 else if boundary a = boundary b then 0 else 1)"
  by (auto simp: sstableKeyCompare_def boundary_def slice_compare_order Let_def less_prod_def' less_le)

lemma sst_less: "sstableKeyCompare a b < 0 \<longleftrightarrow> boundary a < boundary b"
  by (simp add: sst_order)

lemma icmp_order:
  "icmp_compare a b < 0 \<longleftrightarrow> user_key a < user_key b \<or> user_key a = user_key b \<and> snd b < snd a"
  "icmp_compare a b \<le> 0 \<longleftrightarrow> user_key a < user_key b \<or> user_key a = user_key b \<and> snd b \<le> snd a"
  by (auto simp: icmp_compare_def slice_compare_order Let_def)

lemma boundary_mono:
  assumes "icmp_compare a b \<le> 0" "snd a \<le> kRangeTombstoneSentinel"
  shows "boundary a \<le> boundary b"
  using assms by (auto simp: icmp_order boundary_def less_eq_prod_def)

definition level_sorted :: "file_meta list \<Rightarrow> bool" where
  "level_sorted fs \<longleftrightarrow>
     sorted_wrt (\<lambda>f g. icmp_compare (largest f) (smallest g) < 0) fs \<and>
     (\<forall>f\<in>set fs. icmp_compare (smallest f) (largest f) \<le> 0 \<and>
        snd (smallest f) \<le> kRangeTombstoneSentinel \<and> snd (largest f) \<le> kRangeTombstoneSentinel)"

definition clean_at :: "file_meta list \<Rightarrow> nat \<Rightarrow> bool" where
  "clean_at fs i \<longleftrightarrow> (0 < i \<and> i < length fs \<longrightarrow> sstableKeyCompare (largest (fs ! (i - 1))) (smallest (fs ! i)) < 0)"

lemma level_boundaries:
  assumes "level_sorted fs"
  shows "i < length fs \<Longrightarrow> boundary (smallest (fs ! i)) \<le> boundary (largest (fs ! i))"
    and "i < j \<Longrightarrow> j < length fs \<Longrightarrow> boundary (largest (fs ! i)) \<le> boundary (smallest (fs ! j))"
proof -
  show "boundary (smallest (fs ! i)) \<le> boundary (largest (fs ! i))" if "i < length fs"
    using assms that by (intro boundary_mono) (auto simp: level_sorted_def)
  show "boundary (largest (fs ! i)) \<le> boundary (smallest (fs ! j))" if "i < j" "j < length fs"
    using assms that by (intro boundary_mono) (auto simp: level_sorted_def sorted_wrt_iff_nth_less less_imp_le)
qed

lemma level_boundaries_mono:
  assumes "level_sorted fs" "i \<le> j" "j < length fs"
  shows "boundary (smallest (fs ! i)) \<le> boundary (smallest (fs ! j))" "boundary (largest (fs ! i)) \<le> boundary (largest (fs ! j))"
proof -
  show "boundary (smallest (fs ! i)) \<le> boundary (smallest (fs ! j))"
    using level_boundaries(1) [OF assms(1), of i] level_boundaries(2) [OF assms(1), of i j] assms(2,3)
    by (cases "i = j") auto
  show "boundary (largest (fs ! i)) \<le> boundary (largest (fs ! j))"
    using level_boundaries(1) [OF assms(1), of j] level_boundaries(2) [OF assms(1), of i j] assms(2,3)
    by (cases "i = j") auto
qed

text \<open>The prefix that a binary search finds, between two indices.\<close>

lemma takeWhile_bounds:
  assumes "m \<le> length xs"
    "\<And>i. i < a \<Longrightarrow> i < m \<Longrightarrow> P (xs ! i)" "a \<le> m" "b < m \<Longrightarrow> \<not> P (xs ! b)" "b \<le> m"
  shows "a \<le> length (takeWhile P (take m xs))" "length (takeWhile P (take m xs)) \<le> b"
    "\<And>i. i < length (takeWhile P (take m xs)) \<Longrightarrow> P (xs ! i)"
    "length (takeWhile P (take m xs)) < m \<Longrightarrow> \<not> P (xs ! length (takeWhile P (take m xs)))"
proof -
  let ?k = "length (takeWhile P (take m xs))"
  have k: "?k \<le> m" using length_takeWhile_le [of P "take m xs"] assms(1) by simp
  show in_: "P (xs ! i)" if "i < ?k" for i
    using that k nth_mem [OF that] by (auto simp: takeWhile_nth dest: set_takeWhileD)
  show out: "\<not> P (xs ! ?k)" if "?k < m"
    using that assms(1) nth_length_takeWhile [of P "take m xs"] by simp
  show "?k \<le> b"
  proof (rule ccontr)
    assume "\<not> ?k \<le> b"
    then show False using in_ [of b] assms(4) k by simp
  qed
  show "a \<le> ?k" using out assms(2) [of ?k] assms(3) by (metis not_le_imp_less order_less_le_trans)
qed

lemma range_start_segment:
  assumes "level_sorted fs" "s < length fs" "hint = - 1 \<or> hint = int s"
  defines "s' \<equiv> range_start fs (smallest (fs ! s)) hint False"
  shows "s' \<le> s" "\<And>i. i < s' \<Longrightarrow> boundary (largest (fs ! i)) < boundary (smallest (fs ! s))"
    "\<And>i. s' \<le> i \<Longrightarrow> i < s \<Longrightarrow> \<not> boundary (largest (fs ! i)) < boundary (smallest (fs ! s))"
proof -
  let ?P = "\<lambda>f. boundary (largest f) < boundary (smallest (fs ! s))"
  define m where "m = (if hint = - 1 then length fs else nat hint)"
  have s': "s' = length (takeWhile ?P (take m fs))"
    by (simp add: s'_def range_start_def m_def sst_less)
  have m: "m \<le> length fs" "s \<le> m" using assms(2,3) by (auto simp: m_def)
  have ns: "\<not> ?P (fs ! s)" using level_boundaries(1) [OF assms(1,2)] by simp
  note tw = takeWhile_bounds [of m fs 0 ?P s, OF m(1) _ _ ns m(2)]
  show "s' \<le> s" unfolding s' by (rule tw(2)) simp_all
  show "?P (fs ! i)" if "i < s'" for i using tw(3) [of i] that unfolding s' by simp
  show "\<not> ?P (fs ! i)" if "s' \<le> i" "i < s" for i
  proof -
    have "\<not> ?P (fs ! s')" using tw(4) that m(2) unfolding s' by simp
    then show ?thesis using level_boundaries_mono(2) [OF assms(1) that(1)] that(2) assms(2) by (meson order.strict_trans order_le_less_trans)
  qed
qed

lemma range_end_segment:
  assumes "level_sorted fs" "s \<le> j" "j < length fs"
  defines "e \<equiv> range_end fs s (largest (fs ! j)) False"
  shows "j < e" "e \<le> length fs" "e < length fs \<Longrightarrow> boundary (largest (fs ! j)) < boundary (smallest (fs ! e))"
    "\<And>i. j < i \<Longrightarrow> i < e \<Longrightarrow> \<not> boundary (largest (fs ! j)) < boundary (smallest (fs ! i))"
proof -
  let ?P = "\<lambda>f. \<not> boundary (largest (fs ! j)) < boundary (smallest f)" and ?xs = "drop s fs"
  have e: "e = s + length (takeWhile ?P (take (length ?xs) ?xs))"
    by (simp add: e_def range_end_def sst_less)
  have up: "?P (?xs ! i)" if "i < Suc j - s" for i
  proof -
    have "s + i \<le> j" using that assms(2) by linarith
    then have "boundary (smallest (fs ! (s + i))) \<le> boundary (largest (fs ! j))"
      using level_boundaries(1) [OF assms(1,3)] level_boundaries_mono(1) [OF assms(1) _ assms(3)] order_trans by blast
    then show ?thesis using assms(2,3) by (simp add: not_less)
  qed
  have len: "Suc j - s \<le> length ?xs" using assms(2,3) by simp
  note tw = takeWhile_bounds [of "length ?xs" ?xs "Suc j - s" ?P "length ?xs", OF order_refl up len _ order_refl]
  have "Suc j - s \<le> length (takeWhile ?P (take (length ?xs) ?xs))" by (rule tw(1)) simp_all
  then show "j < e" unfolding e using assms(2) by linarith
  have "length (takeWhile ?P ?xs) \<le> length ?xs" by (rule length_takeWhile_le)
  then show le: "e \<le> length fs" unfolding e using assms(2,3) by simp
  show "boundary (largest (fs ! j)) < boundary (smallest (fs ! e))" if "e < length fs"
  proof -
    have "length (takeWhile ?P (take (length ?xs) ?xs)) < length ?xs" using that unfolding e by simp
    then have "\<not> ?P (?xs ! length (takeWhile ?P (take (length ?xs) ?xs)))" by (intro tw(4)) simp_all
    then show ?thesis using that unfolding e by simp
  qed
  show "?P (fs ! i)" if "j < i" "i < e" for i
  proof -
    have "?P (?xs ! (i - s))" by (rule tw(3)) (use that assms(2) e in simp_all)
    then show ?thesis using that assms(2) le by simp
  qed
qed

lemma non_empty_level: "LevelFiles v l \<noteq> [] \<Longrightarrow> l < num_non_empty_levels v"
proof (rule ccontr)
  assume ne: "LevelFiles v l \<noteq> []" and "\<not> l < num_non_empty_levels v"
  let ?r = "rev (levels v)"
  have l: "l < length (levels v)" "levels v ! l \<noteq> []" using ne by (auto simp: LevelFiles_def num_levels_def split: if_splits)
  define i where "i = length (levels v) - Suc l"
  have i: "i < length ?r" "?r ! i = levels v ! l" using l by (auto simp: i_def rev_nth)
  have "length (takeWhile (\<lambda>fs. fs = []) ?r) + num_non_empty_levels v = length ?r"
    unfolding num_non_empty_levels_def by (simp only: length_append [symmetric] takeWhile_dropWhile_id)
  then have tw: "i < length (takeWhile (\<lambda>fs. fs = []) ?r)"
    using \<open>\<not> l < num_non_empty_levels v\<close> l(1) unfolding i_def length_rev by linarith
  have "?r ! i = []" using set_takeWhileD [OF nth_mem [OF tw]] by (simp add: takeWhile_nth [OF tw])
  then show False using i l by simp
qed

definition segment :: "'a list \<Rightarrow> nat \<Rightarrow> nat \<Rightarrow> 'a list" where
  "segment xs a b = take (b - a) (drop a xs)"

lemma segment_props:
  assumes "a < b" "b \<le> length xs"
  shows "segment xs a b \<noteq> []" "hd (segment xs a b) = xs ! a" "last (segment xs a b) = xs ! (b - 1)"
    "length (segment xs a b) = b - a"
  using assms by (auto simp: segment_def hd_conv_nth last_conv_nth)

lemma GetRange_segment:
  assumes "0 < l" "a < b" "b \<le> length fs"
  shows "GetRange (l, segment fs a b) = Some (smallest (fs ! a), largest (fs ! (b - 1)))"
proof (cases "segment fs a b")
  case Nil
  then show ?thesis using segment_props(1) [OF assms(2,3)] by simp
next
  case (Cons x xs)
  with segment_props(2,3) [OF assms(2,3)] have "x = fs ! a" "last (x # xs) = fs ! (b - 1)" by simp_all
  with Cons assms(1) show ?thesis by (simp add: GetRange_def)
qed

text \<open>A step of the loop: the segment grows to all files that share a boundary with it.\<close>

lemma overlapping_segment:
  assumes "level_sorted (LevelFiles v l)" "0 < l" "a < b" "b \<le> length (LevelFiles v l)" "hint = - 1 \<or> hint = int a"
  defines "fs \<equiv> LevelFiles v l"
  obtains a' b' where
    "GetOverlappingInputs v l (smallest (fs ! a)) (largest (fs ! (b - 1))) hint = (segment fs a' b', int a')"
    "a' \<le> a" "b \<le> b'" "b' \<le> length fs"
    "\<And>i. i < a' \<Longrightarrow> boundary (largest (fs ! i)) < boundary (smallest (fs ! a))"
    "\<And>i. a' \<le> i \<Longrightarrow> i < a \<Longrightarrow> \<not> boundary (largest (fs ! i)) < boundary (smallest (fs ! a))"
    "b' < length fs \<Longrightarrow> boundary (largest (fs ! (b - 1))) < boundary (smallest (fs ! b'))"
    "\<And>i. b \<le> i \<Longrightarrow> i < b' \<Longrightarrow> \<not> boundary (largest (fs ! (b - 1))) < boundary (smallest (fs ! i))"
proof -
  define a' where "a' = range_start fs (smallest (fs ! a)) hint False"
  define b' where "b' = range_end fs a' (largest (fs ! (b - 1))) False"
  have srt: "level_sorted fs" and al: "a < length fs" and bl: "b - 1 < length fs"
    using assms(1,3,4) by (auto simp: fs_def)
  note st = range_start_segment [OF srt al assms(5), folded a'_def]
  have a'b: "a' \<le> b - 1" using st(1) assms(3) by simp
  note en = range_end_segment [OF srt a'b bl, folded b'_def]
  have ne: "LevelFiles v l \<noteq> []" using al by (auto simp: fs_def)
  have "GetOverlappingInputs v l (smallest (fs ! a)) (largest (fs ! (b - 1))) hint = (segment fs a' b', int a')"
    using non_empty_level [OF ne] assms(2) en(1) a'b
    by (simp add: GetOverlappingInputs_def GetOverlappingInputsRangeBinarySearch_def Let_def segment_def
        flip: fs_def a'_def b'_def del: One_nat_def)
  then show thesis
    using st en assms(3) by (intro that) auto
qed

lemma clean_at_iff:
  "clean_at fs i \<longleftrightarrow> (0 < i \<longrightarrow> i < length fs \<longrightarrow> boundary (largest (fs ! (i - 1))) < boundary (smallest (fs ! i)))"
  by (auto simp: clean_at_def sst_less)

lemma clean_cut_below:
  assumes "level_sorted fs" "a < length fs" "x \<le> a" "clean_at fs x"
    "\<And>i. a' \<le> i \<Longrightarrow> i < a \<Longrightarrow> \<not> boundary (largest (fs ! i)) < boundary (smallest (fs ! a))"
  shows "x \<le> a'"
proof (rule ccontr)
  assume "\<not> x \<le> a'"
  then have "boundary (largest (fs ! (x - 1))) < boundary (smallest (fs ! x))"
    using assms(2-4) by (simp add: clean_at_iff)
  also have "\<dots> \<le> boundary (smallest (fs ! a))" by (rule level_boundaries_mono [OF assms(1,3,2)])
  finally show False using assms(3) assms(5) [of "x - 1"] \<open>\<not> x \<le> a'\<close> by linarith
qed

lemma clean_cut_above:
  assumes "level_sorted fs" "0 < b" "b' \<le> length fs" "b \<le> y" "clean_at fs y"
    "\<And>i. b \<le> i \<Longrightarrow> i < b' \<Longrightarrow> \<not> boundary (largest (fs ! (b - 1))) < boundary (smallest (fs ! i))"
  shows "b' \<le> y"
proof (rule ccontr)
  assume y: "\<not> b' \<le> y"
  have "boundary (largest (fs ! (b - 1))) \<le> boundary (largest (fs ! (y - 1)))"
    using y assms(2-4) by (intro level_boundaries_mono [OF assms(1)]) auto
  also have "\<dots> < boundary (smallest (fs ! y))" using y assms(2-5) by (simp add: clean_at_iff)
  finally show False using assms(4) assms(6) [of y] y by simp
qed

lemma expand_loop_segment:
  assumes "level_sorted (LevelFiles v l)" "0 < l"
  defines "fs \<equiv> LevelFiles v l"
  shows "a < b \<Longrightarrow> b \<le> length fs \<Longrightarrow> hint = - 1 \<or> hint = int a \<Longrightarrow>
    \<exists>a' b'. expand_loop v l (segment fs a b) hint = Some (segment fs a' b') \<and>
      a' \<le> a \<and> b \<le> b' \<and> b' \<le> length fs \<and> clean_at fs a' \<and> clean_at fs b' \<and>
      (\<forall>x y. x \<le> a \<and> b \<le> y \<and> clean_at fs x \<and> clean_at fs y \<longrightarrow> x \<le> a' \<and> b' \<le> y)"
proof (induction "length fs - (b - a)" arbitrary: a b hint rule: less_induct)
  case less
  have srt: "level_sorted fs" using assms(1) by (simp add: fs_def)
  have al: "a < length fs" "0 < b" using less.prems by auto
  note prems = less.prems(1) less.prems(2) [unfolded fs_def] less.prems(3)
  from overlapping_segment [OF assms(1,2) prems, folded fs_def]
  obtain a' b' where s:
    "GetOverlappingInputs v l (smallest (fs ! a)) (largest (fs ! (b - 1))) hint = (segment fs a' b', int a')"
    "a' \<le> a" "b \<le> b'" "b' \<le> length fs"
    "\<And>i. i < a' \<Longrightarrow> boundary (largest (fs ! i)) < boundary (smallest (fs ! a))"
    "\<And>i. a' \<le> i \<Longrightarrow> i < a \<Longrightarrow> \<not> boundary (largest (fs ! i)) < boundary (smallest (fs ! a))"
    "b' < length fs \<Longrightarrow> boundary (largest (fs ! (b - 1))) < boundary (smallest (fs ! b'))"
    "\<And>i. b \<le> i \<Longrightarrow> i < b' \<Longrightarrow> \<not> boundary (largest (fs ! (b - 1))) < boundary (smallest (fs ! i))" by blast
  have low: "x \<le> a'" if "x \<le> a" "clean_at fs x" for x by (rule clean_cut_below [OF srt al(1) that s(6)])
  have up: "b' \<le> y" if "b \<le> y" "clean_at fs y" for y by (rule clean_cut_above [OF srt al(2) s(4) that s(8)])
  have ab': "a' < b'" using s(2,3) less.prems(1) by simp
  have loop: "expand_loop v l (segment fs a b) hint =
      (if b' - a' > b - a then expand_loop v l (segment fs a' b') (int a') else Some (segment fs a' b'))"
    by (subst expand_loop.simps)
      (simp add: GetRange_segment [OF assms(2) less.prems(1,2)] s(1) assms(2)
        segment_props(4) [OF less.prems(1,2)] segment_props(4) [OF ab' s(4)] Let_def del: One_nat_def)
  show ?case
  proof (cases "b' - a' > b - a")
    case True
    then have dec: "length fs - (b' - a') < length fs - (b - a)" using s(4) by linarith
    from less.hyps [OF dec ab' s(4)] obtain a'' b'' where
      r: "expand_loop v l (segment fs a' b') (int a') = Some (segment fs a'' b'')"
      "a'' \<le> a'" "b' \<le> b''" "b'' \<le> length fs" "clean_at fs a''" "clean_at fs b''"
      "\<forall>x y. x \<le> a' \<and> b' \<le> y \<and> clean_at fs x \<and> clean_at fs y \<longrightarrow> x \<le> a'' \<and> b'' \<le> y" by blast
    have "x \<le> a'' \<and> b'' \<le> y" if "x \<le> a" "b \<le> y" "clean_at fs x" "clean_at fs y" for x y
      using r(7) low [OF that(1,3)] up [OF that(2,4)] that(3,4) by blast
    with r s(2,3) True show ?thesis unfolding loop by (intro exI [of _ a'', OF exI [of _ b'']]) auto
  next
    case False
    then have eq: "a' = a" "b' = b" using s(2,3) less.prems(1) by linarith+
    have "clean_at fs a" using s(5) [of "a - 1"] eq by (auto simp: clean_at_iff)
    moreover have "clean_at fs b" using s(7) eq by (auto simp: clean_at_iff)
    ultimately show ?thesis using False less.prems(2) unfolding loop eq by auto
  qed
qed

subsection \<open>Level 0\<close>

definition outside :: "file_meta \<Rightarrow> bytes \<Rightarrow> bytes \<Rightarrow> bool" where
  "outside f b e \<longleftrightarrow> user_key (largest f) < b \<or> e < user_key (smallest f)"

definition inside :: "file_meta \<Rightarrow> bytes \<Rightarrow> bytes \<Rightarrow> bool" where
  "inside f b e \<longleftrightarrow> b \<le> user_key (smallest f) \<and> user_key (largest f) \<le> e"

lemma inside_mono: "inside f b e \<Longrightarrow> b' \<le> b \<Longrightarrow> e \<le> e' \<Longrightarrow> inside f b' e'"
  by (auto simp: inside_def)

lemma slice_sign: "slice_compare a b < 0 \<longleftrightarrow> a < b" "slice_compare a b > 0 \<longleftrightarrow> b < a"
  by (auto simp: slice_compare_order)

lemma l0_pass_Cons:
  "l0_pass fs (i # index) b e =
     (if outside (fs ! i) b e
      then (case l0_pass fs index b e of (kept, taken, r) \<Rightarrow> (i # kept, taken, r))
      else (case l0_pass fs index (min (user_key (smallest (fs ! i))) b) (max (user_key (largest (fs ! i))) e) of
        (kept, taken, r) \<Rightarrow> (kept, i # taken, r)))"
proof -
  have mm: "(if x < y then x else y) = min x y" "(if y < x then x else y) = max x y" for x y :: bytes
    by (auto simp: min_def max_def)
  show ?thesis
    unfolding l0_pass.simps Let_def slice_sign outside_def [symmetric] mm case_prod_unfold by simp
qed

lemma l0_pass_spec:
  assumes "l0_pass fs index b e = (kept, taken, b', e')"
  shows "set kept \<union> set taken = set index \<and> b' \<le> b \<and> e \<le> e' \<and> (\<forall>i\<in>set taken. inside (fs ! i) b' e') \<and>
    (taken = [] \<longrightarrow> b' = b \<and> e' = e \<and> (\<forall>i\<in>set kept. outside (fs ! i) b e))"
  using assms
proof (induction index arbitrary: b e kept taken)
  case (Cons i index)
  show ?case
  proof (cases "outside (fs ! i) b e")
    case True
    with Cons.prems obtain kept' where k: "l0_pass fs index b e = (kept', taken, b', e')" "kept = i # kept'"
      by (auto simp: l0_pass_Cons simp del: l0_pass.simps(2) split: prod.splits)
    show ?thesis using Cons.IH [OF k(1)] k(2) True by auto
  next
    case False
    with Cons.prems obtain taken' where t: "l0_pass fs index (min (user_key (smallest (fs ! i))) b)
        (max (user_key (largest (fs ! i))) e) = (kept, taken', b', e')" "taken = i # taken'"
      by (auto simp: l0_pass_Cons simp del: l0_pass.simps(2) split: prod.splits)
    show ?thesis using Cons.IH [OF t(1)] t(2) by (auto simp: inside_def)
  qed
qed simp

lemma l0_pass_least:
  assumes "l0_pass fs index b e = (kept, taken, b', e')" "B \<le> b" "e \<le> E"
    "\<forall>i\<in>set index. outside (fs ! i) B E \<or> inside (fs ! i) B E"
  shows "B \<le> b' \<and> e' \<le> E \<and> (\<forall>i\<in>set taken. inside (fs ! i) B E)"
  using assms
proof (induction index arbitrary: b e kept taken)
  case (Cons i index)
  show ?case
  proof (cases "outside (fs ! i) b e")
    case True
    with Cons.prems obtain kept' where k: "l0_pass fs index b e = (kept', taken, b', e')" "kept = i # kept'"
      by (auto simp: l0_pass_Cons simp del: l0_pass.simps(2) split: prod.splits)
    show ?thesis using Cons.IH [OF k(1) Cons.prems(2,3)] Cons.prems(4) by auto
  next
    case False
    with Cons.prems obtain taken' where t: "l0_pass fs index (min (user_key (smallest (fs ! i))) b)
        (max (user_key (largest (fs ! i))) e) = (kept, taken', b', e')" "taken = i # taken'"
      by (auto simp: l0_pass_Cons simp del: l0_pass.simps(2) split: prod.splits)
    have "\<not> outside (fs ! i) B E"
      using False Cons.prems(2,3) less_le_trans le_less_trans unfolding outside_def by blast
    then have i: "inside (fs ! i) B E" using Cons.prems(4) by simp
    then have "B \<le> min (user_key (smallest (fs ! i))) b" "max (user_key (largest (fs ! i))) e \<le> E"
      using Cons.prems(2,3) by (simp_all add: inside_def)
    from Cons.IH [OF t(1) this] Cons.prems(4) i t(2) show ?thesis by simp
  qed
qed simp

lemma l0_loop_Nil: "l0_loop fs [] b e = []"
  by (subst l0_loop.simps) simp

lemma l0_loop_spec:
  "\<exists>B E. B \<le> b \<and> e \<le> E \<and> set (l0_loop fs index b e) \<subseteq> set index \<and>
     (\<forall>i\<in>set (l0_loop fs index b e). inside (fs ! i) B E) \<and>
     (\<forall>i\<in>set index - set (l0_loop fs index b e). outside (fs ! i) B E)"
proof (induction fs index b e rule: l0_loop.induct)
  case (1 fs index b e)
  obtain kept taken b' e' where p: "l0_pass fs index b e = (kept, taken, b', e')" by (metis prod_cases4)
  note sp = l0_pass_spec [OF p]
  show ?case
  proof (cases "index = [] \<or> taken = []")
    case True
    then have "l0_loop fs index b e = []" by (subst l0_loop.simps) (auto simp: p)
    then show ?thesis using True sp by (intro exI [of _ b, OF exI [of _ e]]) auto
  next
    case False
    then have eq: "l0_loop fs index b e = taken @ l0_loop fs kept b' e'" by (subst l0_loop.simps) (auto simp: p)
    from 1 [OF _ p [symmetric] refl refl] False obtain B E where
      ih: "B \<le> b'" "e' \<le> E" "set (l0_loop fs kept b' e') \<subseteq> set kept"
      "\<forall>i\<in>set (l0_loop fs kept b' e'). inside (fs ! i) B E"
      "\<forall>i\<in>set kept - set (l0_loop fs kept b' e'). outside (fs ! i) B E" by blast
    have "\<forall>i\<in>set taken. inside (fs ! i) B E" using sp ih(1,2) inside_mono by blast
    then show ?thesis unfolding eq using sp ih by (intro exI [of _ B, OF exI [of _ E]]) auto
  qed
qed

lemma l0_loop_least:
  assumes "B \<le> b" "e \<le> E" "\<forall>i\<in>set index. outside (fs ! i) B E \<or> inside (fs ! i) B E"
  shows "\<forall>i\<in>set (l0_loop fs index b e). inside (fs ! i) B E"
  using assms
proof (induction fs index b e rule: l0_loop.induct)
  case (1 fs index b e)
  obtain kept taken b' e' where p: "l0_pass fs index b e = (kept, taken, b', e')" by (metis prod_cases4)
  show ?case
  proof (cases "index = [] \<or> taken = []")
    case True
    then have "l0_loop fs index b e = []" by (subst l0_loop.simps) (auto simp: p)
    then show ?thesis by simp
  next
    case False
    then have eq: "l0_loop fs index b e = taken @ l0_loop fs kept b' e'" by (subst l0_loop.simps) (auto simp: p)
    note le = l0_pass_least [OF p 1(2-4)]
    have "\<forall>i\<in>set kept. outside (fs ! i) B E \<or> inside (fs ! i) B E" using l0_pass_spec [OF p] 1(4) by auto
    then have "\<forall>i\<in>set (l0_loop fs kept b' e'). inside (fs ! i) B E"
      using 1(1) [OF _ p [symmetric] refl refl] False le by blast
    then show ?thesis unfolding eq using le by auto
  qed
qed

subsection \<open>Properties\<close>

text \<open>Three files of level 1, of which the first two share a user key, and their copies on level 0.\<close>

definition cut_file :: "nat \<Rightarrow> internal_key \<Rightarrow> internal_key \<Rightarrow> file_meta" where
  "cut_file n s l = \<lparr>fnumber = n, file_size = 1, compensated_file_size = 1, being_compacted = False,
     marked_for_compaction = False, modification_time = 0, smallest = s, largest = l\<rparr>"

definition cut_files :: "file_meta list" where
  "cut_files = [cut_file 0 ([1], 9) ([2], 8), cut_file 1 ([2], 7) ([3], 9), cut_file 2 ([4], 9) ([5], 9)]"

definition cut_version :: version where
  "cut_version = \<lparr>levels = [cut_files, cut_files], marked_periodic = [], marked = []\<rparr>"

lemma cut_level: "LevelFiles cut_version 0 = cut_files" "LevelFiles cut_version 1 = cut_files"
  by (simp_all add: LevelFiles_def cut_version_def num_levels_def)

lemma cut_sentinel: "kRangeTombstoneSentinel = 0xFFFFFFFFFFFFFF0F"
  by (simp add: kRangeTombstoneSentinel_def PackSequenceAndType_def)

lemma cut_sorted: "level_sorted cut_files"
  by (simp add: level_sorted_def cut_files_def cut_file_def icmp_order user_key_def cut_sentinel)

lemma cut_clean: "clean_at cut_files 0" "\<not> clean_at cut_files 1" "clean_at cut_files 2"
  by (simp_all add: clean_at_iff cut_files_def cut_file_def boundary_def user_key_def cut_sentinel less_prod_def')

text \<open>
  C7: a clean cut. Consecutive files of a sorted level other than 0 are extended to the least
  series of consecutive files that contains them and shares no user key with the file
  before and the file after it; the call declines exactly when one of these files is
  being compacted. The loop always ends.
\<close>

theorem expands_to_least_clean_cut:
  assumes "level_sorted (LevelFiles v l)" "0 < l" "a < b" "b \<le> length (LevelFiles v l)"
  shows "\<exists>a' b'. ExpandInputsToCleanCut v (l, segment (LevelFiles v l) a b) =
      Some (if list_ex being_compacted (segment (LevelFiles v l) a' b') then None
            else Some (segment (LevelFiles v l) a' b')) \<and>
    a' \<le> a \<and> b \<le> b' \<and> b' \<le> length (LevelFiles v l) \<and>
    clean_at (LevelFiles v l) a' \<and> clean_at (LevelFiles v l) b' \<and>
    (\<forall>x y. x \<le> a \<and> b \<le> y \<and> clean_at (LevelFiles v l) x \<and> clean_at (LevelFiles v l) y \<longrightarrow> x \<le> a' \<and> b' \<le> y)"
  using expand_loop_segment [OF assms(1,2) assms(3,4), of "- 1"] assms(2)
  by (auto simp: ExpandInputsToCleanCut_def AreFilesInCompaction_def)

theorem expands_to_least_clean_cut_witness:
  "ExpandInputsToCleanCut cut_version (1, take 1 cut_files) = Some (Some (take 2 cut_files))"
proof -
  have len: "1 \<le> length cut_files" by (simp add: cut_files_def)
  obtain a' b' where e: "ExpandInputsToCleanCut cut_version (1, segment cut_files 0 1) =
      Some (if list_ex being_compacted (segment cut_files a' b') then None else Some (segment cut_files a' b'))"
    "a' \<le> 0" "1 \<le> b'" "clean_at cut_files b'"
    "\<forall>x y. x \<le> 0 \<and> 1 \<le> y \<and> clean_at cut_files x \<and> clean_at cut_files y \<longrightarrow> x \<le> a' \<and> b' \<le> y"
    using expands_to_least_clean_cut [of cut_version 1 0 1, unfolded cut_level, OF cut_sorted zero_less_one zero_less_one len] by blast
  have "b' \<le> 2" using e(5) cut_clean by auto
  moreover have "b' \<noteq> 1" using e(4) cut_clean by auto
  ultimately have "b' = 2" "a' = 0" using e(2,3) by auto
  with e(1) show ?thesis by (simp add: segment_def cut_files_def cut_file_def)
qed

text \<open>
  C15: the files of level 0 that overlap a range. There is a range of user keys around the
  given one such that the files found lie inside it and all other files of level 0 lie
  outside it; every range of that kind contains them.
\<close>

theorem level0_overlap_closed:
  "\<exists>B E. B \<le> user_key s \<and> user_key l \<le> E \<and>
    set (fst (GetOverlappingInputs v 0 s l hint)) \<subseteq> set (LevelFiles v 0) \<and>
    (\<forall>f\<in>set (fst (GetOverlappingInputs v 0 s l hint)). inside f B E) \<and>
    (\<forall>f\<in>set (LevelFiles v 0) - set (fst (GetOverlappingInputs v 0 s l hint)). outside f B E) \<and>
    (\<forall>B' E'. B' \<le> user_key s \<and> user_key l \<le> E' \<and> (\<forall>f\<in>set (LevelFiles v 0). outside f B' E' \<or> inside f B' E') \<longrightarrow>
       (\<forall>f\<in>set (fst (GetOverlappingInputs v 0 s l hint)). inside f B' E'))"
proof (cases "LevelFiles v 0 = []")
  case True
  then have "fst (GetOverlappingInputs v 0 s l hint) = []"
    by (simp add: GetOverlappingInputs_def l0_loop_Nil)
  with True show ?thesis by auto
next
  case False
  let ?fs = "LevelFiles v 0" and ?t = "l0_loop (LevelFiles v 0) [0..<length (LevelFiles v 0)] (user_key s) (user_key l)"
  have res: "fst (GetOverlappingInputs v 0 s l hint) = map (nth ?fs) ?t"
    using non_empty_level [OF False] by (simp add: GetOverlappingInputs_def Let_def)
  obtain B E where B: "B \<le> user_key s" "user_key l \<le> E" "set ?t \<subseteq> set [0..<length ?fs]"
    "\<forall>i\<in>set ?t. inside (?fs ! i) B E" "\<forall>i\<in>set [0..<length ?fs] - set ?t. outside (?fs ! i) B E"
    using l0_loop_spec by blast
  define R where "R = map (nth ?fs) ?t"
  have in_: "set R \<subseteq> set ?fs" "\<forall>f\<in>set R. inside f B E" using B(3,4) by (auto simp: R_def)
  have out: "\<forall>f\<in>set ?fs - set R. outside f B E"
  proof
    fix f assume f: "f \<in> set ?fs - set R"
    then obtain i where i: "i < length ?fs" "?fs ! i = f" by (auto simp: in_set_conv_nth)
    with f have "i \<notin> set ?t" by (auto simp: R_def)
    with i B(5) show "outside f B E" by auto
  qed
  have least: "\<forall>f\<in>set R. inside f B' E'"
    if "B' \<le> user_key s" "user_key l \<le> E'" "\<forall>f\<in>set ?fs. outside f B' E' \<or> inside f B' E'" for B' E'
    using l0_loop_least [OF that(1,2), of "[0..<length ?fs]" ?fs] that(3) by (simp add: R_def)
  show ?thesis unfolding res R_def [symmetric] using B(1,2) in_ out least by blast
qed

theorem level0_overlap_closed_witness:
  "fst (GetOverlappingInputs cut_version 0 ([1], 9) ([1], 9) (- 1)) \<noteq> [] \<and>
   cut_file 2 ([4], 9) ([5], 9) \<notin> set (fst (GetOverlappingInputs cut_version 0 ([1], 9) ([1], 9) (- 1)))"
proof -
  let ?R = "fst (GetOverlappingInputs cut_version 0 ([1], 9) ([1], 9) (- 1))"
  obtain B E where B: "B \<le> [1]" "[1] \<le> E" "\<forall>f\<in>set cut_files - set ?R. outside f B E"
    "\<forall>B' E'. B' \<le> [1] \<and> [1] \<le> E' \<and> (\<forall>f\<in>set cut_files. outside f B' E' \<or> inside f B' E') \<longrightarrow> (\<forall>f\<in>set ?R. inside f B' E')"
    using level0_overlap_closed [of "([1], 9)" "([1], 9)" cut_version "- 1"] unfolding cut_level by (auto simp: user_key_def)
  have "\<forall>f\<in>set ?R. inside f [1] [3]"
    using B(4) by (elim allE [of _ "[1]"] allE [of _ "[3]"])
      (auto simp: cut_files_def cut_file_def outside_def inside_def user_key_def)
  then have "cut_file 2 ([4], 9) ([5], 9) \<notin> set ?R" by (auto simp: cut_file_def inside_def user_key_def)
  moreover have "cut_file 0 ([1], 9) ([2], 8) \<in> set ?R"
  proof (rule ccontr)
    assume "cut_file 0 ([1], 9) ([2], 8) \<notin> set ?R"
    then have "outside (cut_file 0 ([1], 9) ([2], 8)) B E" using B(3) by (simp add: cut_files_def)
    then have "[2] < B \<or> E < [1]" by (simp add: outside_def cut_file_def user_key_def)
    moreover have "B < [2]" using B(1) by (rule le_less_trans) simp
    ultimately show False using B(2) by (simp add: leD order.strict_implies_not_eq less_imp_not_less)
  qed
  ultimately show ?thesis by auto
qed

end
