(* ===== verification/Sound_Picks.thy ===== *)
theory Sound_Picks
  imports Sorted_Runs Clean_Cut
begin

section \<open>What every choice of the picker satisfies\<close>

text \<open>
  Whichever of the strategies of \<open>PickCompaction\<close> chooses a compaction, its inputs are files of
  the version that no other compaction reads, its range of keys was compared with those of
  the compactions in progress unless it writes to level 0, and its two user keys are the
  ends of the range of its inputs. Incremental compaction, for which the first of these
  fails, and the placement of recent data in the penultimate level are off.
\<close>

subsection \<open>Inputs are idle files of the version\<close>

definition idle_inputs :: "version \<Rightarrow> input_files list \<Rightarrow> bool" where
  "idle_inputs v ins \<longleftrightarrow> (\<forall>(l, fs)\<in>set ins. \<forall>f\<in>set fs. f \<in> set (LevelFiles v l) \<and> \<not> being_compacted f)"

lemma idle_inputsI:
  "(\<And>l fs f. (l, fs) \<in> set ins \<Longrightarrow> f \<in> set fs \<Longrightarrow> f \<in> set (LevelFiles v l) \<and> \<not> being_compacted f) \<Longrightarrow> idle_inputs v ins"
  by (auto simp: idle_inputs_def)

text \<open>What is shown of every choice: its inputs, its range, and that it was checked.\<close>

definition sound_choice :: "picker \<Rightarrow> version \<Rightarrow> compaction \<Rightarrow> bool" where
  "sound_choice pk v c \<longleftrightarrow> idle_inputs v (inputs c) \<and>
     (output_level c \<noteq> 0 \<longrightarrow> (\<exists>p. \<not> FilesRangeOverlapWithCompaction pk (inputs c) (output_level c) p)) \<and>
     (smallest_user_key c, largest_user_key c) = GetBoundaryKeys (inputs c) kInvalidLevel"

lemma Compaction_sound:
  "idle_inputs v ins \<Longrightarrow> out = 0 \<or> \<not> FilesRangeOverlapWithCompaction pk ins out p \<Longrightarrow>
    sound_choice pk v (Compaction opt v ins out path compress gps why)"
  by (auto simp: sound_choice_def Compaction_def Let_def)

lemma checked_sound:
  assumes "(if out \<noteq> 0 \<and> FilesRangeOverlapWithCompaction pk ins out p then None
      else Some (Compaction opt v ins out path compress gps why)) = Some c" "idle_inputs v ins"
  shows "sound_choice pk v c"
  using assms by (auto intro!: Compaction_sound split: if_splits)

subsection \<open>Overlapping files\<close>

lemma range_search_subset: "set (fst (GetOverlappingInputsRangeBinarySearch fs b e h w)) \<subseteq> set fs"
  by (auto simp: GetOverlappingInputsRangeBinarySearch_def Let_def dest: in_set_takeD in_set_dropD)

lemma overlapping_subset: "set (fst (GetOverlappingInputs v l b e h)) \<subseteq> set (LevelFiles v l)"
proof (cases "l \<ge> num_non_empty_levels v \<or> l > 0")
  case True
  then show ?thesis
    using range_search_subset [of "LevelFiles v l" b e h False] unfolding GetOverlappingInputs_def by (cases "l = 0") simp_all
next
  case False
  have "set (l0_loop (LevelFiles v l) [0..<length (LevelFiles v l)] (user_key b) (user_key e)) \<subseteq> {..<length (LevelFiles v l)}"
    using l0_loop_spec [of "user_key b" "user_key e" "LevelFiles v l" "[0..<length (LevelFiles v l)]"] by (auto simp: lessThan_atLeast0)
  with False show ?thesis by (auto simp: GetOverlappingInputs_def Let_def)
qed

lemma clean_inputs_subset: "set (GetCleanInputsWithinInterval v l b e h) \<subseteq> set (LevelFiles v l)"
  using range_search_subset by (simp add: GetCleanInputsWithinInterval_def)

lemma expand_loop_subset: "expand_loop v l fs h = Some r \<Longrightarrow> set r \<subseteq> set (LevelFiles v l)"
proof (induction v l fs h rule: expand_loop.induct)
  case (1 v l fs h)
  show ?case
  proof (cases "GetRange (l, fs)")
    case None
    with 1(2) show ?thesis by (subst (asm) expand_loop.simps) simp
  next
    case (Some sl)
    obtain s t where sl: "sl = (s, t)" by (cases sl) blast
    let ?r = "GetOverlappingInputs v l s t h"
    have unf: "expand_loop v l fs h =
        (if l > 0 \<and> length (fst ?r) > length fs then expand_loop v l (fst ?r) (snd ?r) else Some (fst ?r))"
      using Some sl by (subst expand_loop.simps) (simp add: Let_def)
    show ?thesis
    proof (cases "l > 0 \<and> length (fst ?r) > length fs")
      case True
      then have "expand_loop v l (fst ?r) (snd ?r) = Some r" using 1(2) unfolding unf by simp
      with 1(1) [OF Some sl [symmetric] refl True] show ?thesis by simp
    next
      case False
      then have "r = fst ?r" using 1(2) unfolding unf by (simp only: if_False option.inject)
      then show ?thesis using overlapping_subset by simp
    qed
  qed
qed

lemma expand_inputs_idle:
  assumes "ExpandInputsToCleanCut v (l, fs) = Some (Some r)" "set fs \<subseteq> set (LevelFiles v l)"
  shows "set r \<subseteq> set (LevelFiles v l)" "l \<noteq> 0 \<Longrightarrow> \<not> AreFilesInCompaction r"
  using assms expand_loop_subset [of v l fs "- 1"]
  by (auto simp: ExpandInputsToCleanCut_def split: if_splits)

subsection \<open>Sorted runs\<close>

lemma sorted_run_range_sound:
  assumes "PickCompactionWithSortedRunRange pk opt v rs i e why = Some c"
    "rs = CalculateSortedRuns v (MaxOutputLevel v (allow_ingest_behind opt))" "i < length rs"
    "\<forall>sr\<in>set (take (e + 1 - i) (drop i rs)). \<not> sr_compacted sr"
  shows "sound_choice pk v c"
proof -
  let ?m = "MaxOutputLevel v (allow_ingest_behind opt)"
  let ?ins = "gather_inputs v ?m (sr_level (rs ! i)) (take (e + 1 - i) (drop i rs))"
  have ins: "idle_inputs v ?ins"
    using gather_series_idle [of i v ?m "e + 1 - i"] assms(3,4) unfolding assms(2) by (intro idle_inputsI) blast
  show ?thesis
    using assms(1) unfolding PickCompactionWithSortedRunRange_def Let_def by (rule checked_sound [OF _ ins])
qed

lemma reduce_sorted_runs_sound:
  assumes "PickCompactionToReduceSortedRuns pk opt v rs ratio n = Some c"
    "rs = CalculateSortedRuns v (MaxOutputLevel v (allow_ingest_behind opt))"
  shows "sound_choice pk v c"
proof -
  let ?m = "MaxOutputLevel v (allow_ingest_behind opt)" and ?u = "universal opt"
  obtain i k where f: "find_candidates ?u ratio (min (max_merge_width ?u) n) (max (min_merge_width ?u) 2) 0 rs = Some (i, k)"
    using assms(1) by (auto simp: PickCompactionToReduceSortedRuns_def Let_def split: option.splits)
  note fc = find_candidates_idle [OF f]
  let ?ins = "gather_inputs v ?m (sr_level (rs ! i)) (take k (drop i rs))"
  have i: "i < length rs" using fc(2,4) by simp
  have ins: "idle_inputs v ?ins"
    using gather_series_idle [of i v ?m k] i fc(5) unfolding assms(2) by (intro idle_inputsI) auto
  have k: "\<not> k \<le> 1" using fc(3) by simp
  show ?thesis
    using assms(1) unfolding PickCompactionToReduceSortedRuns_def Let_def f option.case prod.case if_not_P [OF k]
    by (rule checked_sound [OF _ ins])
qed

lemma take_drop_last: "i \<le> length xs - 1 \<Longrightarrow> xs \<noteq> [] \<Longrightarrow> drop i xs = take (length xs - 1 - i) (drop i xs) @ [last xs]"
  by (metis append_butlast_last_id butlast_conv_take drop_eq_Nil2 last_drop length_drop diff_commute diff_less leD
      le_antisym length_greater_0_conv less_numeral_extra(1) linorder_not_less order.strict_trans1)

lemma size_amp_sound:
  assumes "PickCompactionToReduceSizeAmp pk opt v rs = Some (Some c)"
    "rs = CalculateSortedRuns v (MaxOutputLevel v (allow_ingest_behind opt))" "rs \<noteq> []"
    "\<not> incremental (universal opt)" "preclude_last_level_data_seconds opt = 0"
  shows "sound_choice pk v c"
proof -
  obtain i where i: "find (\<lambda>i. \<not> sr_compacted (rs ! i)) [0..<length rs - 1] = Some i" "\<not> sr_compacted (last rs)"
    using assms(1) by (auto simp: PickCompactionToReduceSizeAmp_def Let_def split: option.splits if_splits)
  then have il: "i < length rs - 1" by (auto simp: find_Some_iff)
  have cand: "\<not> list_ex sr_compacted (take (length rs - 1 - i) (drop i rs))"
    "PickCompactionWithSortedRunRange pk opt v rs i (length rs - 1) kUniversalSizeAmplification = Some c"
    using assms(1,4,5) i by (auto simp: PickCompactionToReduceSizeAmp_def Let_def split: if_splits)
  have "drop i rs = take (length rs - 1 - i) (drop i rs) @ [last rs]"
    using il assms(3) by (intro take_drop_last) simp_all
  from arg_cong [OF this, of set] have "set (drop i rs) = insert (last rs) (set (take (length rs - 1 - i) (drop i rs)))"
    by simp
  then have idle: "\<forall>sr\<in>set (drop i rs). \<not> sr_compacted sr" using cand(1) i(2) by (auto simp: list_ex_iff)
  have "take (length rs - 1 + 1 - i) (drop i rs) = drop i rs" using il by simp
  with idle il show ?thesis by (intro sorted_run_range_sound [OF cand(2) assms(2)]) simp_all
qed

lemma periodic_sound:
  assumes "PickPeriodicCompaction pk opt v rs = Some c"
    "rs = CalculateSortedRuns v (MaxOutputLevel v (allow_ingest_behind opt))"
  shows "sound_choice pk v c"
proof -
  let ?t = "takeWhile (\<lambda>sr. \<not> sr_compacted sr) (rev rs)"
  define i where "i = length rs - length ?t"
  have le: "length ?t \<le> length rs" using length_takeWhile_le [of _ "rev rs"] by simp
  have c: "i \<noteq> length rs" "PickCompactionWithSortedRunRange pk opt v rs i (length rs - 1) kPeriodicCompaction = Some c"
    using assms(1) by (auto simp: PickPeriodicCompaction_def PickCompactionToOldest_def Let_def i_def split: if_splits)
  have i: "i < length rs" using c(1) le unfolding i_def by simp
  have "rev ?t = rev (take (length ?t) (rev rs))" using takeWhile_eq_take by metis
  then have "drop i rs = rev ?t" unfolding i_def by (simp only: rev_take length_rev rev_rev_ident)
  then have "\<forall>sr\<in>set (drop i rs). \<not> sr_compacted sr" by (auto dest: set_takeWhileD)
  moreover have "take (length rs - 1 + 1 - i) (drop i rs) = drop i rs" using i by simp
  ultimately show ?thesis using i by (intro sorted_run_range_sound [OF c(2) assms(2)]) simp_all
qed

subsection \<open>Files marked for compaction\<close>

lemma grow_overlapping_idle:
  assumes "grow_overlapping opt v (l, fs) outs a b pi bi = Some (Some e)"
  shows "set e \<subseteq> set (LevelFiles v l)" "\<not> AreFilesInCompaction e"
proof -
  obtain e' where e': "ExpandInputsToCleanCut v (l, fst (GetOverlappingInputs v l a b bi)) = Some (Some e')"
    "may_expand opt fs (snd outs) e' (TotalFileSize (fst (GetOverlappingInputs v l a b bi)))" "e = e'"
    using assms by (auto simp: grow_overlapping_def Let_def split: Option.bind_splits option.splits if_split_asm)
  show "set e \<subseteq> set (LevelFiles v l)" using expand_inputs_idle(1) [OF e'(1) overlapping_subset] e'(3) by simp
  show "\<not> AreFilesInCompaction e" using e'(2,3) by (simp add: may_expand_def)
qed

lemma setup_other_inputs_idle:
  assumes "SetupOtherInputs opt v (l, fs) out pi bi = Some (Some (fs', outs))"
    "set fs \<subseteq> set (LevelFiles v l)" "\<not> AreFilesInCompaction fs"
  shows "set fs' \<subseteq> set (LevelFiles v l) \<and> \<not> AreFilesInCompaction fs' \<and>
    set outs \<subseteq> set (LevelFiles v out) \<and> \<not> AreFilesInCompaction outs"
proof (cases "l = out")
  case True
  with assms show ?thesis by (simp add: SetupOtherInputs_def AreFilesInCompaction_def)
next
  case False
  obtain s t where r: "GetRange (l, fs) = Some (s, t)"
    using assms(1) False by (auto simp: SetupOtherInputs_def split: Option.bind_splits)
  let ?r = "GetOverlappingInputs v out s t pi"
  have nr: "\<not> AreFilesInCompaction (fst ?r)"
    using assms(1) False r by (auto simp: SetupOtherInputs_def Let_def split: if_splits)
  obtain outs' where o: "(if fst ?r \<noteq> [] then ExpandInputsToCleanCut v (out, fst ?r) else Some (Some (fst ?r))) = Some (Some outs')"
    using assms(1) False r nr
    by (auto simp: SetupOtherInputs_def Let_def simp del: if_split split: Option.bind_splits option.splits)
  have outs': "set outs' \<subseteq> set (LevelFiles v out) \<and> \<not> AreFilesInCompaction outs'"
  proof (cases "fst ?r = [] \<or> out = 0")
    case True
    then have "outs' = fst ?r" using o by (simp add: ExpandInputsToCleanCut_def split: if_split_asm)
    then show ?thesis using nr overlapping_subset by simp
  next
    case False
    then show ?thesis using o expand_inputs_idle [OF _ overlapping_subset, of v out s t pi outs'] by simp
  qed
  have unf: "SetupOtherInputs opt v (l, fs) out pi bi =
      (if outs' = [] then Some (Some (fs, outs'))
       else do {
         (all_start, all_limit) \<leftarrow> GetRange2 (l, fs) (out, outs');
         grown \<leftarrow> grow_overlapping opt v (l, fs) (out, outs') all_start all_limit (snd ?r) bi;
         case grown of
           Some expanded \<Rightarrow> Some (Some (expanded, outs'))
         | None \<Rightarrow>
             let expanded = GetCleanInputsWithinInterval v l all_start all_limit bi
             in if may_expand opt fs outs' expanded (TotalFileSize expanded)
                then Some (Some (expanded, outs')) else Some (Some (fs, outs'))
       })"
    unfolding SetupOtherInputs_def fst_conv snd_conv r if_not_P [OF False] bind.bind_lunit prod.case Let_def
      if_not_P [OF nr] o option.case ..
  show ?thesis
  proof (cases "outs' = []")
    case True
    then show ?thesis using assms outs' unfolding unf by simp
  next
    case ne: False
    then obtain a b grown where g: "GetRange2 (l, fs) (out, outs') = Some (a, b)"
      "grow_overlapping opt v (l, fs) (out, outs') a b (snd ?r) bi = Some grown"
      using assms(1) unfolding unf by (auto split: Option.bind_splits)
    show ?thesis
    proof (cases grown)
      case (Some e)
      then have "fs' = e" "outs = outs'" using assms(1) ne g unfolding unf by simp_all
      then show ?thesis using grow_overlapping_idle [OF g(2) [unfolded Some]] outs' by simp
    next
      case None
      let ?e = "GetCleanInputsWithinInterval v l a b bi"
      have "outs = outs' \<and> (fs' = fs \<or> fs' = ?e \<and> may_expand opt fs outs' ?e (TotalFileSize ?e))"
        using assms(1) ne g None unfolding unf by (auto simp: Let_def split: if_split_asm)
      then show ?thesis using assms(2,3) outs' clean_inputs_subset [of v l a b bi] by (auto simp: may_expand_def)
    qed
  qed
qed

lemma expand_one_marked:
  assumes "try_marked pk v (l, f) = Some (Some i)" "f \<in> set (LevelFiles v l)"
    "level0_compactions_in_progress pk = [] \<Longrightarrow> \<forall>l. \<forall>f\<in>set (LevelFiles v l). \<not> being_compacted f"
  shows "set (snd i) \<subseteq> set (LevelFiles v (fst i)) \<and> \<not> AreFilesInCompaction (snd i) \<and>
    (fst i = 0 \<longrightarrow> level0_compactions_in_progress pk = [])"
proof -
  obtain r where r: "ExpandInputsToCleanCut v (l, [f]) = Some (Some r)" "i = (l, r)"
    "l = 0 \<longrightarrow> level0_compactions_in_progress pk = []"
    using assms(1) by (auto simp: try_marked_def split: if_split_asm)
  have sub: "set r \<subseteq> set (LevelFiles v l)" using expand_inputs_idle(1) [OF r(1)] assms(2) by simp
  have "\<not> AreFilesInCompaction r"
  proof (cases "l = 0")
    case True
    then show ?thesis using sub assms(3) r(3) by (auto simp: AreFilesInCompaction_def list_ex_iff)
  next
    case False
    then show ?thesis using expand_inputs_idle(2) [OF r(1)] assms(2) by simp
  qed
  with sub r show ?thesis by simp
qed

definition marks_ok :: "version \<Rightarrow> bool" where
  "marks_ok v \<longleftrightarrow> (\<forall>(l, f)\<in>set (marked v). f \<in> set (LevelFiles v l) \<and> \<not> being_compacted f)"

definition level0_ok :: "picker \<Rightarrow> version \<Rightarrow> bool" where
  "level0_ok pk v \<longleftrightarrow>
     (level0_compactions_in_progress pk = [] \<longrightarrow> (\<forall>l. \<forall>f\<in>set (LevelFiles v l). \<not> being_compacted f))"

lemma first_marked_idle:
  assumes "first_marked pk v ms = Some (Some i)" "\<forall>(l, f)\<in>set ms. f \<in> set (LevelFiles v l)" "level0_ok pk v"
  shows "set (snd i) \<subseteq> set (LevelFiles v (fst i)) \<and> \<not> AreFilesInCompaction (snd i) \<and>
    (fst i = 0 \<longrightarrow> level0_compactions_in_progress pk = [])"
  using assms
proof (induction ms)
  case (Cons m ms)
  obtain l f where m: "m = (l, f)" by (cases m)
  from Cons.prems(1) obtain r where r: "try_marked pk v m = Some r"
    "case r of Some i' \<Rightarrow> i' = i | None \<Rightarrow> first_marked pk v ms = Some (Some i)"
    by (auto split: Option.bind_splits option.splits)
  show ?case
  proof (cases r)
    case None
    then show ?thesis using Cons r by simp
  next
    case (Some i')
    then show ?thesis using expand_one_marked [of pk v l f i] r m Cons.prems(2,3) by (simp add: level0_ok_def)
  qed
qed simp

lemma pick_marked_idle:
  assumes "PickFilesMarkedForCompaction pk v = Some (Some i)" "marks_ok v" "level0_ok pk v"
  shows "set (snd i) \<subseteq> set (LevelFiles v (fst i)) \<and> \<not> AreFilesInCompaction (snd i) \<and>
    (fst i = 0 \<longrightarrow> level0_compactions_in_progress pk = [])"
proof (rule first_marked_idle [OF _ _ assms(3)])
  show "first_marked pk v ((marked v ! (random_file pk mod length (marked v))) # marked v) = Some (Some i)"
    using assms(1) by (simp only: PickFilesMarkedForCompaction_def split: if_split_asm) simp
  have "marked v \<noteq> []" using assms(1) by (auto simp: PickFilesMarkedForCompaction_def)
  then have "marked v ! (random_file pk mod length (marked v)) \<in> set (marked v)" by simp
  then show "\<forall>(l, f)\<in>set ((marked v ! (random_file pk mod length (marked v))) # marked v). f \<in> set (LevelFiles v l)"
    using assms(2) unfolding marks_ok_def by auto
qed

lemma level0_overlap_idle:
  assumes "GetOverlappingL0Files v fs out pi = Some (Some r)"
  shows "set r \<subseteq> set (LevelFiles v 0)"
  using assms subsetD [OF overlapping_subset]
  by (auto simp: GetOverlappingL0Files_def Let_def split: Option.bind_splits if_split_asm)

lemma multi_level_marked_sound:
  assumes "multi_level_marked pk opt v = Some (Some (ins, out, gps))" "marks_ok v" "level0_ok pk v"
  shows "idle_inputs v ins" "out = 0 \<or> (\<exists>p. \<not> FilesRangeOverlapWithCompaction pk ins (int out) p)"
proof -
  obtain l fs where s: "PickFilesMarkedForCompaction pk v = Some (Some (l, fs))"
    using assms(1) by (auto simp: multi_level_marked_def split: Option.bind_splits option.splits)
  note idle = pick_marked_idle [OF s assms(2,3), simplified]
  define target where "target = (case find (\<lambda>l. LevelFiles v l \<noteq> []) [l + 1..<Suc (MaxOutputLevel v (allow_ingest_behind opt))] of
      Some l' \<Rightarrow> Some l' | None \<Rightarrow> if l = 0 then Some (MaxOutputLevel v (allow_ingest_behind opt)) else None)"
  note unf = assms(1) [unfolded multi_level_marked_def s bind.bind_lunit option.case prod.case Let_def, folded target_def]
  obtain out' where t: "target = Some out'" using unf by (cases target) auto
  note unf2 = unf [unfolded t option.case]
  have "idle_inputs v ins \<and> (out = 0 \<or> (\<exists>p. \<not> FilesRangeOverlapWithCompaction pk ins (int out) p))"
  proof (cases "out' = 0")
    case True
    with unf2 have "ins = [(l, fs)]" "out = 0" by simp_all
    with idle show ?thesis by (auto simp: idle_inputs_def AreFilesInCompaction_def list_ex_iff)
  next
    case False
    obtain fs1 where f1: "(if l = 0 then GetOverlappingL0Files v fs out' None else Some (Some fs)) = Some (Some fs1)"
      using unf2 False by (auto simp del: if_split split: Option.bind_splits option.splits)
    note unf3 = unf2 [unfolded if_not_P [OF False] f1 bind.bind_lunit option.case]
    obtain fs2 outs where f2: "SetupOtherInputs opt v (l, fs1) out' (- 1) (- 1) = Some (Some (fs2, outs))"
      using unf3 by (auto split: Option.bind_splits option.splits)
    note unf4 = unf3 [unfolded f2 bind.bind_lunit option.case prod.case]
    define all where "all = (l, fs2) # (if outs = [] then [] else [(out', outs)])"
    have res: "ins = all" "out = out'" "\<exists>p. \<not> FilesRangeOverlapWithCompaction pk all (int out') p"
      using unf4 unfolding all_def by (auto simp del: if_split split: if_split_asm)
    have fs1: "set fs1 \<subseteq> set (LevelFiles v l)" "\<not> AreFilesInCompaction fs1"
    proof -
      show sub: "set fs1 \<subseteq> set (LevelFiles v l)"
        using f1 idle level0_overlap_idle by (auto split: if_split_asm)
      show "\<not> AreFilesInCompaction fs1"
      proof (cases "l = 0")
        case True
        then show ?thesis using sub idle assms(3) by (auto simp: level0_ok_def AreFilesInCompaction_def list_ex_iff)
      next
        case False
        then show ?thesis using f1 idle by simp
      qed
    qed
    from setup_other_inputs_idle [OF f2 this] have "idle_inputs v all"
      by (auto simp: idle_inputs_def all_def AreFilesInCompaction_def list_ex_iff split: if_split_asm)
    with res show ?thesis by simp
  qed
  then show "idle_inputs v ins" "out = 0 \<or> (\<exists>p. \<not> FilesRangeOverlapWithCompaction pk ins (int out) p)" by auto
qed

lemma single_level_marked_idle:
  assumes "single_level_marked v rs = Some fs" "num_levels v = 1"
    "rs = CalculateSortedRuns v (MaxOutputLevel v b)"
  shows "idle_inputs v [(0, fs)]"
proof -
  have rs: "rs = map run_of_file (LevelFiles v 0)"
    using assms(2,3) by (cases b) (simp_all add: MaxOutputLevel_def CalculateSortedRuns_def)
  obtain i where i: "find (\<lambda>i. \<not> sr_compacted (rs ! i) \<and> marked_for_compaction (LevelFiles v 0 ! i)) [0..<length rs - 1] = Some i"
    using assms(1) by (auto simp: single_level_marked_def split: option.splits)
  let ?t = "takeWhile (\<lambda>sr. \<not> sr_compacted sr) (drop (i + 1) rs)"
  have fs: "fs = take (length ?t + 1) (drop i (LevelFiles v 0))"
    using assms(1) i by (auto simp: single_level_marked_def Let_def split: if_split_asm)
  from i have il: "i < length (LevelFiles v 0)" "\<not> being_compacted (LevelFiles v 0 ! i)"
    by (auto simp: find_Some_iff rs run_of_file_def)
  then have "fs = LevelFiles v 0 ! i # take (length ?t) (drop (i + 1) (LevelFiles v 0))"
    unfolding fs by (simp add: Cons_nth_drop_Suc [symmetric])
  moreover have "map run_of_file (take (length ?t) (drop (i + 1) (LevelFiles v 0))) = ?t"
    by (simp only: rs take_map [symmetric] drop_map [symmetric] takeWhile_eq_take [symmetric])
  then have "\<forall>f\<in>set (take (length ?t) (drop (i + 1) (LevelFiles v 0))). \<not> sr_compacted (run_of_file f)"
    by (metis (no_types, lifting) image_eqI list.set_map set_takeWhileD)
  ultimately have "\<forall>f\<in>set fs. \<not> being_compacted f" using il by (simp add: run_of_file_def)
  moreover have "set fs \<subseteq> set (LevelFiles v 0)" unfolding fs by (auto dest: in_set_takeD in_set_dropD)
  ultimately show ?thesis by (auto simp: idle_inputs_def)
qed

lemma delete_triggered_sound:
  assumes "PickDeleteTriggeredCompaction pk opt v rs = Some (Some c)" "marks_ok v" "level0_ok pk v"
    "rs = CalculateSortedRuns v (MaxOutputLevel v (allow_ingest_behind opt))"
  shows "sound_choice pk v c"
proof (cases "num_levels v = 1")
  case True
  then obtain fs where fs: "single_level_marked v rs = Some fs"
    "c = Compaction opt v [(0, fs)] 0 (GetPathId opt (TotalFileSize (LevelFiles v 0))) True [] kFilesMarkedForCompaction"
    using assms(1) by (auto simp: PickDeleteTriggeredCompaction_def)
  from single_level_marked_idle [OF fs(1) True assms(4)] show ?thesis unfolding fs(2) by (rule Compaction_sound) simp
next
  case False
  then obtain ins out gps where m: "multi_level_marked pk opt v = Some (Some (ins, out, gps))"
    "c = Compaction opt v ins (int out) (GetPathId opt (TotalFileSize (LevelFiles v out))) True gps kFilesMarkedForCompaction"
    using assms(1) by (auto simp: PickDeleteTriggeredCompaction_def split: Option.bind_splits)
  from multi_level_marked_sound [OF m(1) assms(2,3)] show ?thesis unfolding m(2) by (auto intro: Compaction_sound)
qed

lemma sound_choice_move: "sound_choice pk v (c\<lparr>is_trivial_move := b\<rparr>) = sound_choice pk v c"
  by (simp add: sound_choice_def)

lemma choose_sound:
  assumes "choose_compaction pk opt v = Some (Some c)" "marks_ok v" "level0_ok pk v"
    "\<not> incremental (universal opt)" "preclude_last_level_data_seconds opt = 0"
  shows "sound_choice pk v c"
proof -
  define rs where "rs = CalculateSortedRuns v (MaxOutputLevel v (allow_ingest_behind opt))"
  let ?p = "if marked_periodic v \<noteq> [] then PickPeriodicCompaction pk opt v rs else None"
  have ne: "rs \<noteq> []" using assms(1) by (auto simp: choose_compaction_def rs_def [symmetric] Let_def split: if_split_asm)
  obtain d where d: "c = d \<or> (\<exists>b. c = d\<lparr>is_trivial_move := b\<rparr>)"
    "?p = Some d \<or> PickCompactionToReduceSizeAmp pk opt v rs = Some (Some d) \<or>
     PickCompactionToReduceSortedRuns pk opt v rs (size_ratio (universal opt)) (2 ^ 32 - 1) = Some d \<or>
     PickDeleteTriggeredCompaction pk opt v rs = Some (Some d)"
    using assms(1) unfolding choose_compaction_def rs_def [symmetric] Let_def
    by (auto split: if_split_asm Option.bind_splits option.splits)
  have "sound_choice pk v d"
    using d(2) periodic_sound [OF _ rs_def] size_amp_sound [OF _ rs_def ne assms(4,5)] reduce_sorted_runs_sound [OF _ rs_def]
      delete_triggered_sound [OF _ assms(2,3) rs_def] by (auto split: if_split_asm)
  with d(1) show ?thesis by (auto simp: sound_choice_move)
qed

subsection \<open>The range of a compaction\<close>

text \<open>The two computations of the range of the inputs, on internal and on user keys, agree.\<close>

definition widen :: "bytes \<times> bytes \<Rightarrow> bytes \<times> bytes \<Rightarrow> bytes \<times> bytes" where
  "widen x k = (min (fst x) (fst k), max (snd x) (snd k))"

definition user_keys :: "internal_key \<times> internal_key \<Rightarrow> bytes \<times> bytes" where
  "user_keys r = (user_key (fst r), user_key (snd r))"

lemma widen_assoc: "widen (widen x y) z = widen x (widen y z)"
  by (simp add: widen_def min.assoc max.assoc)

lemma foldl_widen: "foldl widen (widen x k) ks = widen x (foldl widen k ks)"
  by (induction ks arbitrary: k) (simp_all add: widen_assoc)

lemma if_min: "(if x < y then x else y) = min y (x :: 'a :: linorder)" "(if y < x then x else y) = max y x"
  by (auto simp: min_def max_def)

lemma add_boundary_widen: "add_boundary acc k = Some (case acc of None \<Rightarrow> k | Some x \<Rightarrow> widen x k)"
  by (cases acc) (auto simp: add_boundary_def widen_def slice_sign if_min split: prod.splits)

lemma foldl_add_boundary: "foldl add_boundary (Some x) ks = Some (foldl widen x ks)"
  by (induction ks arbitrary: x) (simp_all add: add_boundary_widen)

lemma icmp_user: "icmp_compare a b < 0 \<Longrightarrow> user_key a \<le> user_key b" "\<not> icmp_compare a b < 0 \<Longrightarrow> user_key b \<le> user_key a"
  "icmp_compare a b > 0 \<Longrightarrow> user_key b \<le> user_key a" "\<not> icmp_compare a b > 0 \<Longrightarrow> user_key a \<le> user_key b"
  by (auto simp: icmp_compare_def slice_compare_order Let_def split: if_splits)

lemma user_keys_step:
  "user_keys (if icmp_compare a s < 0 then a else s, if icmp_compare b l > 0 then b else l) =
     widen (user_keys (s, l)) (user_key a, user_key b)"
  using icmp_user [of a s] icmp_user [of b l] by (auto simp: user_keys_def widen_def min_def max_def)

lemma range_files:
  assumes "GetRange i = Some r"
  shows "foldl add_boundary acc (boundary_files i) = Some (case acc of None \<Rightarrow> user_keys r | Some x \<Rightarrow> widen x (user_keys r))"
proof -
  obtain l f fs where i: "i = (l, f # fs)" using assms by (cases i; cases "snd i") (auto simp: GetRange_def)
  show ?thesis
  proof (cases "l = 0")
    case True
    have fold: "user_keys (foldl (\<lambda>(s, l) f. (if icmp_compare (smallest f) s < 0 then smallest f else s,
        if icmp_compare (largest f) l > 0 then largest f else l)) q fs) =
        foldl widen (user_keys q) (map (\<lambda>f. (user_key (smallest f), user_key (largest f))) fs)" for q
    proof (induction fs arbitrary: q)
      case (Cons f fs)
      obtain s l where "q = (s, l)" by (cases q)
      then show ?case using Cons by (simp add: user_keys_step)
    qed simp
    from assms True i have r: "r = foldl (\<lambda>(s, l) f. (if icmp_compare (smallest f) s < 0 then smallest f else s,
        if icmp_compare (largest f) l > 0 then largest f else l)) (smallest f, largest f) fs"
      by (simp add: GetRange_def)
    have "user_keys r = foldl widen (user_keys (smallest f, largest f))
        (map (\<lambda>f. (user_key (smallest f), user_key (largest f))) fs)"
      unfolding r by (rule fold)
    then show ?thesis
      using True i by (cases acc) (simp_all add: boundary_files_def add_boundary_widen foldl_add_boundary foldl_widen user_keys_def)
  next
    case False
    then show ?thesis using assms i
      by (cases acc) (auto simp: GetRange_def boundary_files_def add_boundary_widen user_keys_def)
  qed
qed

lemma ranges_boundary:
  "(case GetRanges ins kInvalidLevel of
      None \<Rightarrow> (\<forall>i\<in>set ins. snd i = [])
    | Some r \<Rightarrow> GetBoundaryKeys ins kInvalidLevel = user_keys r)"
proof -
  let ?g = "\<lambda>acc i. if snd i = [] \<or> int (fst i) = kInvalidLevel then acc
       else case (acc, GetRange i) of
         (_, None) \<Rightarrow> acc
       | (None, Some r) \<Rightarrow> Some r
       | (Some (s, l), Some (s', l')) \<Rightarrow>
           Some (if icmp_compare s' s < 0 then s' else s, if icmp_compare l' l > 0 then l' else l)"
  have step: "foldl add_boundary (map_option user_keys acc) (boundary_files i) = map_option user_keys (?g acc i)" for acc i
  proof (cases "snd i = []")
    case True
    then show ?thesis by (simp add: boundary_files_def)
  next
    case False
    have "GetRange i \<noteq> None"
    proof
      assume "GetRange i = None"
      with False show False by (auto simp: GetRange_def split: list.split_asm if_split_asm)
    qed
    then obtain q' where q': "GetRange i = Some q'" by blast
    obtain s' l' where "q' = (s', l')" by (cases q')
    with q' have r: "GetRange i = Some (s', l')" by simp
    show ?thesis
    proof (cases acc)
      case None
      then show ?thesis using False r by (simp add: range_files [OF r] kInvalidLevel_def)
    next
      case (Some q)
      obtain s l where "q = (s, l)" by (cases q)
      with Some False r show ?thesis
        by (simp add: range_files [OF r] kInvalidLevel_def user_keys_step) (simp add: user_keys_def)
    qed
  qed
  have fold: "foldl add_boundary (map_option user_keys acc) (concat (map boundary_files ins)) =
      map_option user_keys (foldl ?g acc ins)" for acc
  proof (induction ins arbitrary: acc)
    case (Cons i ins)
    then show ?case by (simp only: list.map concat.simps foldl_append step foldl_Cons)
  qed simp
  have keys: "GetBoundaryKeys ins kInvalidLevel = (case map_option user_keys (GetRanges ins kInvalidLevel) of Some k \<Rightarrow> k | None \<Rightarrow> ([], []))"
    using fold [of None] by (simp add: GetBoundaryKeys_def GetRanges_def kInvalidLevel_def)
  have "foldl add_boundary acc xs = None \<longleftrightarrow> acc = None \<and> xs = []" for acc xs
    by (induction xs arbitrary: acc) (auto simp: add_boundary_widen)
  then have "GetRanges ins kInvalidLevel = None \<Longrightarrow> concat (map boundary_files ins) = []"
    using fold [of None] by (simp add: GetRanges_def)
  moreover have "boundary_files i = [] \<longleftrightarrow> snd i = []" for i by (simp add: boundary_files_def)
  ultimately show ?thesis using keys by (auto split: option.splits)
qed

end
