(* ===== verification/Running.thy ===== *)
theory Running
  imports Sound_Picks
begin

section \<open>Running compactions\<close>

text \<open>
  Several compactions run at the same time. A step relation over the picker and the version
  (a compaction is picked, ends or fails, a memtable is flushed, time passes) has an
  invariant that holds in every reachable state: no file is an input of two running
  compactions, exactly the inputs are marked as being compacted, and two compactions that
  write to the same level other than 0 have disjoint ranges of keys. The options leave out
  incremental compaction; two states show what it does instead.
\<close>

subsection \<open>Steps\<close>

text \<open>A file is known by its level and its number.\<close>

definition input_ids :: "compaction \<Rightarrow> (nat \<times> nat) set" where
  "input_ids c = {(l, fnumber f) | l fs f. (l, fs) \<in> set (inputs c) \<and> f \<in> set fs}"

definition file_ids :: "version \<Rightarrow> (nat \<times> nat) set" where
  "file_ids v = {(l, fnumber f) | l f. f \<in> set (LevelFiles v l)}"

lemma is_input_ids: "is_input c l f \<longleftrightarrow> (l, fnumber f) \<in> input_ids c"
  by (auto simp: is_input_iff input_ids_def)

definition unique_numbers :: "version \<Rightarrow> bool" where
  "unique_numbers v \<longleftrightarrow> (\<forall>l l'. \<forall>f\<in>set (LevelFiles v l). \<forall>g\<in>set (LevelFiles v l'). fnumber f = fnumber g \<longrightarrow> l = l' \<and> f = g)"

text \<open>
  The result of a compaction: its inputs are gone, its outputs are on the output level. An
  output has a number that no remaining file has; a file that is only moved keeps its own.
\<close>

definition edited :: "compaction \<Rightarrow> file_meta list \<Rightarrow> version \<Rightarrow> version \<Rightarrow> bool" where
  "edited c outs v v' \<longleftrightarrow> num_levels v' = num_levels v \<and>
     (\<forall>l<num_levels v. set (levels v' ! l) =
        {f \<in> set (levels v ! l). \<not> is_input c l f} \<union> (if int l = output_level c then set outs else {})) \<and>
     (\<forall>f\<in>set outs. \<not> being_compacted f \<and> (\<forall>l. \<forall>g\<in>set (LevelFiles v l). fnumber g = fnumber f \<longrightarrow> is_input c l g)) \<and>
     (\<forall>f\<in>set outs. \<forall>g\<in>set outs. fnumber f = fnumber g \<longrightarrow> f = g)"

inductive lsm_step :: "cf_options \<Rightarrow> picker \<times> version \<Rightarrow> picker \<times> version \<Rightarrow> bool" for opt where
  pick: "PickCompaction pk opt v = Some (choice, pk', v') \<Longrightarrow> lsm_step opt (pk, v) (pk', v')"
| finish: "c \<in> set (compactions_in_progress pk) \<Longrightarrow> ReleaseCompactionFiles c pk v = (pk', v1) \<Longrightarrow> edited c outs v1 v2 \<Longrightarrow>
     lsm_step opt (pk, v) (pk', ComputeCompactionScore pk' opt v2)"
| abort: "c \<in> set (compactions_in_progress pk) \<Longrightarrow> ReleaseCompactionFiles c pk v = (pk', v') \<Longrightarrow> lsm_step opt (pk, v) (pk', v')"
| flush: "levels v = l0 # ls \<Longrightarrow> \<not> being_compacted f \<Longrightarrow> (\<forall>l. \<forall>g\<in>set (LevelFiles v l). fnumber g \<noteq> fnumber f) \<Longrightarrow>
     lsm_step opt (pk, v) (pk, ComputeCompactionScore pk opt (v\<lparr>levels := (f # l0) # ls\<rparr>))"
| time: "lsm_step opt (pk, v) (pk\<lparr>random_file := r, current_time := t\<rparr>,
     ComputeCompactionScore (pk\<lparr>random_file := r, current_time := t\<rparr>) opt v)"

definition compatible :: "compaction \<Rightarrow> compaction \<Rightarrow> bool" where
  "compatible c d \<longleftrightarrow> input_ids c \<inter> input_ids d = {} \<and>
     (output_level c = output_level d \<and> output_level c \<noteq> 0 \<and> input_ids c \<noteq> {} \<and> input_ids d \<noteq> {} \<longrightarrow>
        largest_user_key c < smallest_user_key d \<or> largest_user_key d < smallest_user_key c)"

definition running_inv :: "picker \<Rightarrow> version \<Rightarrow> bool" where
  "running_inv pk v \<longleftrightarrow> unique_numbers v \<and> marks_ok v \<and>
     level0_compactions_in_progress pk = compactions_in_progress pk \<and>
     (\<forall>l. \<forall>f\<in>set (LevelFiles v l). being_compacted f \<longleftrightarrow> (\<exists>c\<in>set (compactions_in_progress pk). is_input c l f)) \<and>
     (\<forall>c\<in>set (compactions_in_progress pk). input_ids c \<subseteq> file_ids v) \<and>
     sorted_wrt compatible (compactions_in_progress pk)"

lemma compatible_sym: "compatible c d \<Longrightarrow> compatible d c"
  by (auto simp: compatible_def)

lemma sorted_wrt_remove1: "sorted_wrt P xs \<Longrightarrow> sorted_wrt P (remove1 x xs)"
  by (induction xs) (auto dest: notin_set_remove1 [rotated] subsetD [OF set_remove1_subset])

lemma compatible_remove1:
  "sorted_wrt compatible cs \<Longrightarrow> c \<in> set cs \<Longrightarrow> d \<in> set (remove1 c cs) \<Longrightarrow> compatible c d"
proof (induction cs)
  case (Cons x cs)
  show ?case
  proof (cases "x = c")
    case True
    then show ?thesis using Cons.prems by simp
  next
    case False
    then have "d = x \<or> d \<in> set (remove1 c cs)" "c \<in> set cs" using Cons.prems by auto
    then show ?thesis using Cons compatible_sym by auto
  qed
qed simp

subsection \<open>The effects of the steps on the files\<close>

lemma score_levels [simp]: "LevelFiles (ComputeCompactionScore pk opt v) = LevelFiles v"
  "num_levels (ComputeCompactionScore pk opt v) = num_levels v"
  by (auto simp: ComputeCompactionScore_def Let_def LevelFiles_def num_levels_def fun_eq_iff)

lemma score_marks: "marks_ok (ComputeCompactionScore pk opt v)"
proof -
  have "\<exists>m. marked (ComputeCompactionScore pk opt v) = ComputeFilesMarkedForCompaction v m"
    by (auto simp: ComputeCompactionScore_def Let_def)
  then show ?thesis by (auto simp: marks_ok_def ComputeFilesMarkedForCompaction_def Let_def)
qed

lemma mark_levels:
  "LevelFiles (MarkFilesBeingCompacted c b v) l =
     map (\<lambda>f. if is_input c l f then f\<lparr>being_compacted := b\<rparr> else f) (LevelFiles v l)"
  by (simp add: MarkFilesBeingCompacted_def LevelFiles_def num_levels_def)

lemma mark_is_input [simp]: "is_input c l (f\<lparr>being_compacted := b\<rparr>) = is_input c l f"
  by (simp add: is_input_def)

lemma mark_file_ids [simp]: "file_ids (MarkFilesBeingCompacted c b v) = file_ids v"
proof -
  have "map fnumber (LevelFiles (MarkFilesBeingCompacted c b v) l) = map fnumber (LevelFiles v l)" for l
    by (simp add: mark_levels)
  then have "fnumber ` set (LevelFiles (MarkFilesBeingCompacted c b v) l) = fnumber ` set (LevelFiles v l)" for l
    by (metis set_map)
  moreover have "file_ids w = (\<Union>l. Pair l ` fnumber ` set (LevelFiles w l))" for w
    unfolding file_ids_def by blast
  ultimately show ?thesis by simp
qed

lemma mark_unique: "unique_numbers v \<Longrightarrow> unique_numbers (MarkFilesBeingCompacted c b v)"
  unfolding unique_numbers_def
proof (intro allI ballI impI)
  fix l l' f g
  assume u: "\<forall>l l'. \<forall>f\<in>set (LevelFiles v l). \<forall>g\<in>set (LevelFiles v l'). fnumber f = fnumber g \<longrightarrow> l = l' \<and> f = g"
    and f: "f \<in> set (LevelFiles (MarkFilesBeingCompacted c b v) l)"
    and g: "g \<in> set (LevelFiles (MarkFilesBeingCompacted c b v) l')" and eq: "fnumber f = fnumber g"
  obtain f' where f': "f' \<in> set (LevelFiles v l)" "f = (if is_input c l f' then f'\<lparr>being_compacted := b\<rparr> else f')"
    using f unfolding mark_levels by auto
  obtain g' where g': "g' \<in> set (LevelFiles v l')" "g = (if is_input c l' g' then g'\<lparr>being_compacted := b\<rparr> else g')"
    using g unfolding mark_levels by auto
  have "fnumber f' = fnumber g'" using f' g' eq by (simp split: if_splits)
  with u f' g' have "l = l'" "f' = g'" by blast+
  then show "l = l' \<and> f = g" using f' g' by simp
qed

text \<open>What the running compactions must satisfy so that the flags of the files are those of their inputs.\<close>

definition flags_ok :: "compaction list \<Rightarrow> version \<Rightarrow> bool" where
  "flags_ok cs v \<longleftrightarrow> (\<forall>l. \<forall>f\<in>set (LevelFiles v l). being_compacted f \<longleftrightarrow> (\<exists>c\<in>set cs. is_input c l f))"

lemma flags_mark: "flags_ok cs v \<Longrightarrow> flags_ok (c # cs) (MarkFilesBeingCompacted c True v)"
  by (auto simp: flags_ok_def mark_levels)

lemma flags_release:
  assumes "flags_ok cs v" "sorted_wrt compatible cs" "c \<in> set cs"
  shows "flags_ok (remove1 c cs) (MarkFilesBeingCompacted c False v)"
  unfolding flags_ok_def
proof (intro allI ballI)
  fix l g
  assume "g \<in> set (LevelFiles (MarkFilesBeingCompacted c False v) l)"
  then obtain f where f: "f \<in> set (LevelFiles v l)" "g = (if is_input c l f then f\<lparr>being_compacted := False\<rparr> else f)"
    unfolding mark_levels by auto
  have d: "\<not> is_input d l f" if "d \<in> set (remove1 c cs)" "is_input c l f" for d
    using compatible_remove1 [OF assms(2,3) that(1)] that(2) by (auto simp: compatible_def is_input_ids)
  have sub: "set (remove1 c cs) \<subseteq> set cs" by (rule set_remove1_subset)
  show "being_compacted g \<longleftrightarrow> (\<exists>d\<in>set (remove1 c cs). is_input d l g)"
  proof (cases "is_input c l f")
    case True
    then show ?thesis using f d by auto
  next
    case False
    have "being_compacted f \<longleftrightarrow> (\<exists>d\<in>set cs. is_input d l f)" using assms(1) f(1) by (simp add: flags_ok_def)
    also have "\<dots> \<longleftrightarrow> (\<exists>d\<in>set (remove1 c cs). is_input d l f)"
    proof
      assume "\<exists>d\<in>set cs. is_input d l f"
      then obtain d where "d \<in> set cs" "is_input d l f" by blast
      moreover from this False have "d \<noteq> c" by blast
      ultimately show "\<exists>d\<in>set (remove1 c cs). is_input d l f" by auto
    qed (use sub in blast)
    finally show ?thesis using False f(2) by simp
  qed
qed

lemma marks_release: "marks_ok v \<Longrightarrow> marks_ok (MarkFilesBeingCompacted c False v)"
  unfolding marks_ok_def mark_levels
  by (force simp: MarkFilesBeingCompacted_def)

lemma edited_level:
  assumes "edited c outs v v'"
  shows "set (LevelFiles v' l) \<subseteq> {f \<in> set (LevelFiles v l). \<not> is_input c l f} \<union> (if int l = output_level c then set outs else {})"
    "{f \<in> set (LevelFiles v l). \<not> is_input c l f} \<subseteq> set (LevelFiles v' l)"
  using assms by (cases "l < num_levels v"; simp add: edited_def LevelFiles_def)+

lemma edited_unique:
  assumes e: "edited c outs v v'" and u: "unique_numbers v"
  shows "unique_numbers v'"
  unfolding unique_numbers_def
proof (intro allI ballI impI)
  fix l l' f g
  assume f: "f \<in> set (LevelFiles v' l)" and g: "g \<in> set (LevelFiles v' l')" and eq: "fnumber f = fnumber g"
  let ?old = "\<lambda>l f. f \<in> set (LevelFiles v l) \<and> \<not> is_input c l f"
  let ?new = "\<lambda>l f. int l = output_level c \<and> f \<in> set outs"
  have cases: "?old l f \<or> ?new l f" "?old l' g \<or> ?new l' g"
    using subsetD [OF edited_level(1) [OF e] f] subsetD [OF edited_level(1) [OF e] g] by (auto split: if_splits)
  have "\<not> (?old l f \<and> ?new l' g)" "\<not> (?new l f \<and> ?old l' g)"
    using e eq unfolding edited_def by metis+
  moreover have "?old l f \<and> ?old l' g \<Longrightarrow> l = l' \<and> f = g" using u eq unfolding unique_numbers_def by blast
  moreover have "?new l f \<and> ?new l' g \<Longrightarrow> l = l' \<and> f = g" using e eq unfolding edited_def by auto
  ultimately show "l = l' \<and> f = g" using cases by blast
qed

lemma edited_flags:
  assumes e: "edited c outs v v'" and fl: "flags_ok cs v" and sub: "\<forall>d\<in>set cs. input_ids d \<subseteq> file_ids v"
    and dis: "\<forall>d\<in>set cs. input_ids c \<inter> input_ids d = {}" and u: "unique_numbers v"
  shows "flags_ok cs v'" "\<forall>d\<in>set cs. input_ids d \<subseteq> file_ids v'"
proof -
  show "flags_ok cs v'"
    unfolding flags_ok_def
  proof (intro allI ballI)
    fix l f
    assume f: "f \<in> set (LevelFiles v' l)"
    show "being_compacted f \<longleftrightarrow> (\<exists>d\<in>set cs. is_input d l f)"
    proof (cases "f \<in> set (LevelFiles v l) \<and> \<not> is_input c l f")
      case True
      then show ?thesis using fl by (simp add: flags_ok_def)
    next
      case False
      then have o: "f \<in> set outs" using edited_level(1) [OF e, of l] f by (auto split: if_splits)
      have "\<not> is_input d l f" if d: "d \<in> set cs" for d
      proof
        assume "is_input d l f"
        then have i: "(l, fnumber f) \<in> input_ids d" by (simp add: is_input_ids)
        then obtain g where g: "g \<in> set (LevelFiles v l)" "fnumber g = fnumber f"
          using subsetD [OF bspec [OF sub d] i] unfolding file_ids_def by auto
        then have "is_input c l g" using e o unfolding edited_def by blast
        then show False using dis d i g(2) by (auto simp: is_input_ids)
      qed
      then show ?thesis using e o unfolding edited_def by blast
    qed
  qed
  show "\<forall>d\<in>set cs. input_ids d \<subseteq> file_ids v'"
  proof (intro ballI subsetI)
    fix d x
    assume d: "d \<in> set cs" and x: "x \<in> input_ids d"
    then obtain l f where f: "x = (l, fnumber f)" "f \<in> set (LevelFiles v l)"
      using sub unfolding file_ids_def by blast
    then have "\<not> is_input c l f" using dis d x by (auto simp: is_input_ids)
    then show "x \<in> file_ids v'" using edited_level(2) [OF e, of l] f unfolding file_ids_def by blast
  qed
qed

subsection \<open>The invariant\<close>

lemma running_inv_alt:
  "running_inv pk v \<longleftrightarrow> unique_numbers v \<and> marks_ok v \<and>
     level0_compactions_in_progress pk = compactions_in_progress pk \<and>
     flags_ok (compactions_in_progress pk) v \<and>
     (\<forall>c\<in>set (compactions_in_progress pk). input_ids c \<subseteq> file_ids v) \<and>
     sorted_wrt compatible (compactions_in_progress pk)"
  by (simp add: running_inv_def flags_ok_def)

lemma inv_level0_ok: "running_inv pk v \<Longrightarrow> level0_ok pk v"
  by (auto simp: running_inv_alt level0_ok_def flags_ok_def)

lemma sound_input:
  assumes "sound_choice pk v c" "x \<in> input_ids c"
  obtains l f where "x = (l, fnumber f)" "f \<in> set (LevelFiles v l)" "\<not> being_compacted f"
  using assms unfolding sound_choice_def idle_inputs_def input_ids_def by blast

lemma sound_range:
  assumes s: "sound_choice pk v c" and d: "d \<in> set (compactions_in_progress pk)" "output_level d = output_level c"
    and ne: "output_level c \<noteq> 0" "input_ids c \<noteq> {}"
  shows "largest_user_key c < smallest_user_key d \<or> largest_user_key d < smallest_user_key c"
proof -
  obtain p where p: "\<not> FilesRangeOverlapWithCompaction pk (inputs c) (output_level c) p"
    using s ne(1) by (auto simp: sound_choice_def)
  have "\<not> (\<forall>i\<in>set (inputs c). snd i = [])" using ne(2) by (force simp: input_ids_def)
  then obtain r where r: "GetRanges (inputs c) kInvalidLevel = Some r"
    using ranges_boundary [of "inputs c"] by (cases "GetRanges (inputs c) kInvalidLevel") auto
  then have "GetBoundaryKeys (inputs c) kInvalidLevel = user_keys r"
    using ranges_boundary [of "inputs c"] by simp
  then have k: "smallest_user_key c = user_key (fst r)" "largest_user_key c = user_key (snd r)"
    using s by (auto simp: sound_choice_def user_keys_def)
  have "\<not> RangeOverlapWithCompaction pk (user_key (fst r)) (user_key (snd r)) (output_level c)"
    using p r by (cases r) (simp add: FilesRangeOverlapWithCompaction_def split: if_splits)
  then have "\<not> (slice_compare (smallest_user_key c) (largest_user_key d) \<le> 0 \<and>
      slice_compare (largest_user_key c) (smallest_user_key d) \<ge> 0)"
    using d k by (auto simp: RangeOverlapWithCompaction_def list_ex_iff)
  then show ?thesis using slice_sign not_le by metis
qed

lemma sound_compatible:
  assumes "running_inv pk v" "sound_choice pk v c" "d \<in> set (compactions_in_progress pk)"
  shows "compatible c d"
proof -
  have "x \<notin> input_ids d" if x: "x \<in> input_ids c" for x
  proof -
    obtain l f where f: "x = (l, fnumber f)" "f \<in> set (LevelFiles v l)" "\<not> being_compacted f"
      by (rule sound_input [OF assms(2) x])
    then have "\<not> is_input d l f" using assms(1,3) by (auto simp: running_inv_def)
    then show ?thesis using f by (simp add: is_input_ids)
  qed
  then have "input_ids c \<inter> input_ids d = {}" by blast
  then show ?thesis using sound_range [OF assms(2,3)] by (simp add: compatible_def)
qed

lemma pick_inv:
  assumes inv: "running_inv pk v" and p: "PickCompaction pk opt v = Some (choice, pk', v')"
    and o: "\<not> incremental (universal opt)" "preclude_last_level_data_seconds opt = 0"
  shows "running_inv pk' v'"
proof (cases choice)
  case None
  then show ?thesis using p inv by (auto simp: PickCompaction_def bind_eq_Some_conv split: option.splits)
next
  case (Some c)
  then have c: "choose_compaction pk opt v = Some (Some c)" "pk' = RegisterCompaction c pk"
    "v' = ComputeCompactionScore pk opt (MarkFilesBeingCompacted c True v)"
    using p by (auto simp: PickCompaction_def bind_eq_Some_conv split: option.splits)
  have s: "sound_choice pk v c"
    using choose_sound [OF c(1) _ inv_level0_ok [OF inv] o] inv by (simp add: running_inv_alt)
  have "input_ids c \<subseteq> file_ids v"
  proof
    fix x
    assume "x \<in> input_ids c"
    then obtain l f where "x = (l, fnumber f)" "f \<in> set (LevelFiles v l)" by (rule sound_input [OF s])
    then show "x \<in> file_ids v" unfolding file_ids_def by blast
  qed
  moreover have "\<forall>d\<in>set (compactions_in_progress pk). compatible c d" using sound_compatible [OF inv s] by blast
  moreover have "flags_ok (c # compactions_in_progress pk) v'"
    using inv c(3) flags_mark [of _ v c] by (simp add: running_inv_alt flags_ok_def)
  moreover have "unique_numbers v'" "file_ids v' = file_ids v"
    using inv c(3) mark_unique [of v c True] mark_file_ids [of c True v]
    by (simp_all add: running_inv_alt unique_numbers_def file_ids_def)
  ultimately show ?thesis
    using inv c(2) score_marks c(3) by (simp add: running_inv_alt RegisterCompaction_def)
qed

lemma release_inv:
  assumes inv: "running_inv pk v" and c: "c \<in> set (compactions_in_progress pk)"
    and r: "ReleaseCompactionFiles c pk v = (pk', v')"
  shows "running_inv pk' v'" "\<forall>d\<in>set (compactions_in_progress pk'). input_ids c \<inter> input_ids d = {}"
proof -
  have e: "pk' = UnregisterCompaction c pk" "v' = MarkFilesBeingCompacted c False v"
    using r by (auto simp: ReleaseCompactionFiles_def)
  show "running_inv pk' v'"
    using inv flags_release [OF _ _ c, of v] set_remove1_subset [of c "compactions_in_progress pk"]
    by (auto simp: running_inv_alt e UnregisterCompaction_def mark_unique marks_release sorted_wrt_remove1)
  show "\<forall>d\<in>set (compactions_in_progress pk'). input_ids c \<inter> input_ids d = {}"
    using inv compatible_remove1 [OF _ c] by (auto simp: running_inv_alt e UnregisterCompaction_def compatible_def)
qed

lemma score_inv: "running_inv pk v \<Longrightarrow> running_inv pk (ComputeCompactionScore pk' opt v)"
  using score_marks by (auto simp: running_inv_def unique_numbers_def file_ids_def)

lemma flush_inv:
  assumes inv: "running_inv pk v" and l: "levels v = l0 # ls" and f: "\<not> being_compacted f"
    "\<forall>l. \<forall>g\<in>set (LevelFiles v l). fnumber g \<noteq> fnumber f"
  shows "running_inv pk (ComputeCompactionScore pk opt (v\<lparr>levels := (f # l0) # ls\<rparr>))"
proof -
  let ?v = "v\<lparr>levels := (f # l0) # ls\<rparr>"
  have lv: "set (LevelFiles ?v l) = set (LevelFiles v l) \<union> (if l = 0 then {f} else {})" for l
    using l by (auto simp: LevelFiles_def num_levels_def nth_Cons' split: if_splits)
  have u: "unique_numbers ?v"
    unfolding unique_numbers_def
  proof (intro allI ballI impI)
    fix l l' x y
    assume x: "x \<in> set (LevelFiles ?v l)" and y: "y \<in> set (LevelFiles ?v l')" and eq: "fnumber x = fnumber y"
    have "x \<in> set (LevelFiles v l) \<or> l = 0 \<and> x = f" "y \<in> set (LevelFiles v l') \<or> l' = 0 \<and> y = f"
      using x y lv by (auto split: if_splits)
    moreover have "x \<in> set (LevelFiles v l) \<Longrightarrow> y \<in> set (LevelFiles v l') \<Longrightarrow> l = l' \<and> x = y"
      using inv eq unfolding running_inv_alt unique_numbers_def by blast
    ultimately show "l = l' \<and> x = y" using f(2) eq by metis
  qed
  have sub: "file_ids v \<subseteq> file_ids ?v" unfolding file_ids_def lv by blast
  have ni: "\<not> is_input c l f" if "c \<in> set (compactions_in_progress pk)" for c l
  proof
    assume "is_input c l f"
    then have "(l, fnumber f) \<in> file_ids v" using inv that by (auto simp: running_inv_alt is_input_ids)
    then show False using f(2) unfolding file_ids_def by force
  qed
  have "flags_ok (compactions_in_progress pk) ?v"
    using inv ni f(1) unfolding running_inv_alt flags_ok_def lv by (auto split: if_splits)
  moreover have "\<forall>c\<in>set (compactions_in_progress pk). input_ids c \<subseteq> file_ids ?v"
    using inv sub by (auto simp: running_inv_alt)
  ultimately show ?thesis
    using inv u score_marks by (auto simp: running_inv_alt unique_numbers_def file_ids_def flags_ok_def)
qed

lemma step_inv:
  assumes "lsm_step opt s s'" "\<not> incremental (universal opt)" "preclude_last_level_data_seconds opt = 0"
    "running_inv (fst s) (snd s)"
  shows "running_inv (fst s') (snd s')"
  using assms(1,4)
proof (induction rule: lsm_step.cases [consumes 1])
  case (pick pk v choice pk' v')
  then show ?case using pick_inv [OF _ _ assms(2,3)] by simp
next
  case (finish c pk v pk' v1 outs v2)
  from finish have inv: "running_inv pk' v1" and d: "\<forall>d\<in>set (compactions_in_progress pk'). input_ids c \<inter> input_ids d = {}"
    using release_inv [of pk v c pk' v1] by auto
  have "running_inv pk' (ComputeCompactionScore pk' opt v2)"
    using inv edited_unique [OF finish(5)] edited_flags [OF finish(5) _ _ d] score_marks
    by (auto simp: running_inv_alt unique_numbers_def file_ids_def flags_ok_def)
  then show ?case using finish by simp
next
  case (abort c pk v pk' v')
  then show ?case using release_inv(1) [of pk v c pk' v'] by simp
next
  case (flush v l0 ls f pk)
  then show ?case using flush_inv [of pk v l0 ls f opt] by simp
next
  case (time pk v t r)
  then have "running_inv (pk\<lparr>random_file := r, current_time := t\<rparr>) v" by (simp add: running_inv_def)
  then show ?case using time score_inv by simp
qed

definition quiet_start :: "picker \<Rightarrow> version \<Rightarrow> bool" where
  "quiet_start pk v \<longleftrightarrow> compactions_in_progress pk = [] \<and> level0_compactions_in_progress pk = [] \<and>
     unique_numbers v \<and> marks_ok v \<and> (\<forall>l. \<forall>f\<in>set (LevelFiles v l). \<not> being_compacted f)"

lemma reachable_inv:
  assumes "(lsm_step opt)\<^sup>*\<^sup>* s s'" "\<not> incremental (universal opt)" "preclude_last_level_data_seconds opt = 0"
    "quiet_start (fst s) (snd s)"
  shows "running_inv (fst s') (snd s')"
  using assms(1)
proof (induction rule: rtranclp_induct)
  case base
  then show ?case using assms(4) by (simp add: quiet_start_def running_inv_def)
next
  case (step s' s'')
  then show ?case using step_inv assms(2,3) by blast
qed

subsection \<open>A run with two compactions\<close>

definition run_options :: "bool \<Rightarrow> cf_options" where
  "run_options incr = \<lparr>universal = CompactionOptionsUniversal\<lparr>incremental := incr\<rparr>, level0_file_num_compaction_trigger = 2,
     allow_ingest_behind = False, preclude_last_level_data_seconds = 0, opt_periodic_seconds = 0, cf_paths = [1000000],
     target_file_size_base = 100, max_compaction_bytes = 1000, ignore_max_compaction_bytes_for_input = False\<rparr>"

definition run_file :: "nat \<Rightarrow> nat \<Rightarrow> bytes \<Rightarrow> bytes \<Rightarrow> file_meta" where
  "run_file n sz s l = \<lparr>fnumber = n, file_size = sz, compensated_file_size = sz, being_compacted = False,
     marked_for_compaction = False, modification_time = 0, smallest = (s, 1), largest = (l, 1)\<rparr>"

definition run_version :: "bool \<Rightarrow> file_meta list \<Rightarrow> version" where
  "run_version busy l0 =
     \<lparr>levels = [l0, [], [(run_file 2 100 [1] [9])\<lparr>being_compacted := busy\<rparr>], [(run_file 1 100 [1] [9])\<lparr>being_compacted := busy\<rparr>]],
      marked_periodic = [], marked = []\<rparr>"

definition run_idle :: picker where
  "run_idle = \<lparr>compactions_in_progress = [], level0_compactions_in_progress = [], random_file = 0, current_time = 0\<rparr>"

definition run_first :: compaction where
  "run_first = Compaction (run_options False) (run_version False [])
     [(2, [run_file 2 100 [1] [9]]), (3, [run_file 1 100 [1] [9]]), (4, []), (5, [])] 3 0 True [] kUniversalSizeRatio"

definition run_second :: compaction where
  "run_second = Compaction (run_options False) (run_version True [run_file 4 10 [1] [9], run_file 3 10 [1] [9]])
     [(0, [run_file 4 10 [1] [9], run_file 3 10 [1] [9]]), (1, []), (2, []), (3, [])] 1 0 True [] kUniversalSizeRatio"

lemma run_options_simps [simp]:
  "universal (run_options b) = CompactionOptionsUniversal\<lparr>incremental := b\<rparr>"
  "level0_file_num_compaction_trigger (run_options b) = 2"
  "allow_ingest_behind (run_options b) = False"
  "preclude_last_level_data_seconds (run_options b) = 0"
  "opt_periodic_seconds (run_options b) = 0"
  "cf_paths (run_options b) = [1000000]"
  "max_compaction_bytes (run_options b) = 1000"
  by (simp_all add: run_options_def)

lemma run_file_simps [simp]:
  "fnumber (run_file n z a b) = n" "file_size (run_file n z a b) = z" "compensated_file_size (run_file n z a b) = z"
  "\<not> being_compacted (run_file n z a b)" "\<not> marked_for_compaction (run_file n z a b)"
  "smallest (run_file n z a b) = (a, 1)" "largest (run_file n z a b) = (b, 1)"
  "(run_file n z a b)\<lparr>being_compacted := False\<rparr> = run_file n z a b"
  by (simp_all add: run_file_def)

lemma run_version_files [simp]:
  "MaxOutputLevel (run_version b l0) False = 3" "num_levels (run_version b l0) = 4"
  "LevelFiles (run_version b l0) 0 = l0" "LevelFiles (run_version b l0) (Suc 0) = []" "LevelFiles (run_version b l0) 1 = []"
  "LevelFiles (run_version b l0) 2 = [(run_file 2 100 [1] [9])\<lparr>being_compacted := b\<rparr>]"
  "LevelFiles (run_version b l0) 3 = [(run_file 1 100 [1] [9])\<lparr>being_compacted := b\<rparr>]"
  "marked (run_version b l0) = []" "marked_periodic (run_version b l0) = []"
  by (simp_all add: run_version_def MaxOutputLevel_def num_levels_def LevelFiles_def)

lemma run_upts: "[0..<4] = [0, 1, 2, 3]" "[Suc 0..<4] = [1, 2, 3]" "[0..<3] = [0, 1, 2]"
  by (simp_all add: upt_conv_Cons)

lemma run_score:
  assumes "\<forall>f\<in>set l0. \<not> marked_for_compaction f"
  shows "ComputeCompactionScore pk (run_options False) (run_version b l0) = run_version b l0"
proof -
  have "ComputeFilesMarkedForCompaction (run_version b l0) 3 = []"
    using assms by (simp add: ComputeFilesMarkedForCompaction_def run_upts Let_def del: upt_Suc)
  then show ?thesis by (simp add: ComputeCompactionScore_def)
qed

lemma run_runs:
  "CalculateSortedRuns (run_version b l0) 3 = map run_of_file l0 @
     [\<lparr>sr_level = 2, sr_file = None, sr_size = 100, sr_compensated = 100, sr_compacted = b\<rparr>,
      \<lparr>sr_level = 3, sr_file = None, sr_size = 100, sr_compensated = 100, sr_compacted = b\<rparr>]"
  by (simp add: sum64_mod CalculateSortedRuns_def run_of_level_def run_upts Let_def del: upt_Suc)

lemma run_first_chosen: "choose_compaction run_idle (run_options False) (run_version False []) = Some (Some run_first)"
proof -
  let ?rs = "CalculateSortedRuns (run_version False []) 3"
  have "PickCompactionToReduceSizeAmp run_idle (run_options False) (run_version False []) ?rs = Some None"
    by (simp add: sum64_mod mul64_def run_runs PickCompactionToReduceSizeAmp_def CompactionOptionsUniversal_def)
  moreover have "PickCompactionToReduceSortedRuns run_idle (run_options False) (run_version False []) ?rs 1 (2 ^ 32 - 1) = Some run_first"
    by (simp add: run_runs PickCompactionToReduceSortedRuns_def CompactionOptionsUniversal_def Let_def gather_inputs_def run_upts
      GetPathId_def run_files_def FilesRangeOverlapWithCompaction_def RangeOverlapWithCompaction_def run_idle_def run_first_def numeral_2_eq_2 [symmetric]
      split: option.splits del: upt_Suc One_nat_def)
  ultimately show ?thesis
    by (simp add: choose_compaction_def Let_def run_runs CompactionOptionsUniversal_def)
qed

lemma run_first_mark:
  "MarkFilesBeingCompacted run_first True (run_version False []) = run_version True []"
  by (simp add: MarkFilesBeingCompacted_def run_upts is_input_def run_first_def Compaction_def Let_def del: upt_Suc)
   (simp add: run_version_def)

lemma run_first_values: "output_level run_first = 3" "\<not> SupportsPerKeyPlacement run_first"
  by (simp_all add: run_first_def Compaction_def Let_def SupportsPerKeyPlacement_def EvaluatePenultimateLevel_def)

lemma run_second_chosen:
  assumes "compactions_in_progress pk = [run_first]"
  shows "choose_compaction pk (run_options False) (run_version True [run_file 4 10 [1] [9], run_file 3 10 [1] [9]]) = Some (Some run_second)"
proof -
  let ?v = "run_version True [run_file 4 10 [1] [9], run_file 3 10 [1] [9]]"
  let ?rs = "CalculateSortedRuns ?v 3"
  have r: "run_of_file (run_file n z a b) = \<lparr>sr_level = 0, sr_file = Some (run_file n z a b), sr_size = z, sr_compensated = z, sr_compacted = False\<rparr>" for n z a b
    by (simp add: run_of_file_def)
  have "PickCompactionToReduceSizeAmp pk (run_options False) ?v ?rs = Some None"
    by (simp add: run_runs r PickCompactionToReduceSizeAmp_def CompactionOptionsUniversal_def)
  moreover have "PickCompactionToReduceSortedRuns pk (run_options False) ?v ?rs 1 (2 ^ 32 - 1) = Some run_second"
    using assms
    by (simp add: run_runs r PickCompactionToReduceSortedRuns_def CompactionOptionsUniversal_def Let_def gather_inputs_def run_upts
      GetPathId_def run_files_def FilesRangeOverlapWithCompaction_def RangeOverlapWithCompaction_def run_second_def run_first_values numeral_2_eq_2 [symmetric]
      EvaluatePenultimateLevel_def
      split: option.splits del: upt_Suc One_nat_def)
  ultimately show ?thesis
    by (simp add: choose_compaction_def Let_def run_runs CompactionOptionsUniversal_def)
qed

lemma run_flush:
  assumes "\<forall>g\<in>set (f # l0). \<not> marked_for_compaction g" "\<not> being_compacted f" "fnumber f > 2" "\<forall>g\<in>set l0. fnumber g \<noteq> fnumber f"
  shows "lsm_step (run_options False) (pk, run_version b l0) (pk, run_version b (f # l0))"
proof -
  have l: "levels (run_version b l0) = l0 # tl (levels (run_version b l0))"
    and v: "(run_version b l0)\<lparr>levels := (f # l0) # tl (levels (run_version b l0))\<rparr> = run_version b (f # l0)"
    by (simp_all add: run_version_def)
  have "set (LevelFiles (run_version b l0) i) \<subseteq> set l0 \<union> {(run_file 2 100 [1] [9])\<lparr>being_compacted := b\<rparr>,
      (run_file 1 100 [1] [9])\<lparr>being_compacted := b\<rparr>}" for i
    by (auto simp: LevelFiles_def num_levels_def run_version_def less_Suc_eq)
  moreover have "\<forall>g\<in>set l0 \<union> {(run_file 2 100 [1] [9])\<lparr>being_compacted := b\<rparr>,
      (run_file 1 100 [1] [9])\<lparr>being_compacted := b\<rparr>}. fnumber g \<noteq> fnumber f"
    using assms(3,4) by auto
  ultimately have "\<forall>i. \<forall>g\<in>set (LevelFiles (run_version b l0) i). fnumber g \<noteq> fnumber f" by blast
  from lsm_step.flush [OF l assms(2) this, of "run_options False" pk] show ?thesis
    unfolding v using run_score [OF assms(1)] by simp
qed

lemma run_quiet: "quiet_start run_idle (run_version False [])"
proof -
  have levels: "set (LevelFiles (run_version False []) l) =
      (if l = 2 then {run_file 2 100 [1] [9]} else if l = 3 then {run_file 1 100 [1] [9]} else {})" for l
    by (auto simp: LevelFiles_def num_levels_def run_version_def nth_Cons split: nat.splits)
  show ?thesis unfolding quiet_start_def unique_numbers_def marks_ok_def levels by (auto simp: run_idle_def split: if_splits)
qed

subsection \<open>Incremental compaction\<close>

definition gap_version :: version where
  "gap_version = \<lparr>levels = [[], [run_file 3 600 [1] [2], run_file 2 600 [8] [9]], [run_file 1 500 [1] [2]]],
     marked_periodic = [], marked = []\<rparr>"

lemma gap_files [simp]:
  "MaxOutputLevel gap_version False = 2" "num_levels gap_version = 3" "LevelFiles gap_version 0 = []"
  "LevelFiles gap_version 1 = [run_file 3 600 [1] [2], run_file 2 600 [8] [9]]"
  "LevelFiles gap_version 2 = [run_file 1 500 [1] [2]]" "marked_periodic gap_version = []" "marked gap_version = []"
  by (simp_all add: gap_version_def MaxOutputLevel_def num_levels_def LevelFiles_def)

lemma gap_runs:
  "CalculateSortedRuns gap_version 2 =
     [\<lparr>sr_level = 1, sr_file = None, sr_size = 1200, sr_compensated = 1200, sr_compacted = False\<rparr>,
      \<lparr>sr_level = 2, sr_file = None, sr_size = 500, sr_compensated = 500, sr_compacted = False\<rparr>]"
proof -
  have "[1..<Suc 2] = [1, 2]" by (simp add: upt_conv_Cons)
  then show ?thesis by (simp add: CalculateSortedRuns_def run_of_level_def Let_def sum64_mod del: upt_Suc One_nat_def)
qed

text \<open>
  The window when the files of the last level end with the first file of the second last
  level: it takes them all, and shrinking it to the second file passes all of them.
\<close>

lemma skip_bottom_bounds:
  "skip_bottom bs f w n = (w', n') \<Longrightarrow> bottom_end_idx w \<le> length bs \<Longrightarrow>
   start_idx w' = start_idx w \<and> bottom_end_idx w' \<le> length bs"
proof (induction bs f w n rule: skip_bottom.induct)
  case (1 bs f w n)
  show ?case using 1(2,3) 1(1) by (subst (asm) skip_bottom.simps) (auto simp: Let_def split: if_splits)
qed

lemma add64_le: "add64 a b \<le> a + b"
  by (simp add: add64_def)

lemma include_bottom_all:
  assumes "\<forall>b\<in>set bs. icmp_compare (smallest b) (largest f) < 0 \<and> icmp_compare (largest b) (largest f) \<le> 0"
    "\<not> end_bottom_size_counted w" "bottom_end_idx w \<le> length bs"
  shows "bottom_end_idx (include_bottom bs f w) = length bs \<and> start_idx (include_bottom bs f w) = start_idx w \<and>
    bottom_start_idx (include_bottom bs f w) = bottom_start_idx w \<and>
    non_bottom_size (include_bottom bs f w) = non_bottom_size w \<and>
    bottom_size (include_bottom bs f w) \<le> bottom_size w + sum_list (map file_size (drop (bottom_end_idx w) bs))"
  using assms
proof (induction bs f w rule: include_bottom.induct)
  case (1 bs f w)
  show ?case
  proof (cases "bottom_end_idx w < length bs")
    case True
    let ?b = "bs ! bottom_end_idx w"
    let ?w = "w\<lparr>bottom_size := add64 (bottom_size w) (file_size ?b), bottom_end_idx := bottom_end_idx w + 1,
      end_bottom_size_counted := False\<rparr>"
    have b: "icmp_compare (smallest ?b) (largest f) < 0" "\<not> icmp_compare (largest ?b) (largest f) > 0"
      using 1(2) nth_mem [OF True] by (blast, fastforce)
    then have "include_bottom bs f w = include_bottom bs f ?w"
      using True 1(3) by (subst include_bottom.simps) (simp add: Let_def)
    moreover have "drop (bottom_end_idx w) bs = ?b # drop (Suc (bottom_end_idx w)) bs"
      using True by (simp add: Cons_nth_drop_Suc)
    ultimately show ?thesis
      using 1(1) [OF conjI, OF True b(1) refl] b 1(2-4) True add64_le [of "bottom_size w" "file_size ?b"]
      by (simp add: Let_def)
  next
    case False
    then show ?thesis using 1(4) by (subst (1 2 3 4 5) include_bottom.simps) simp
  qed
qed

lemma shrink_bottom_passes:
  assumes "\<forall>b\<in>set bs. icmp_compare (largest b) (smallest f) < 0" "bottom_start_idx w \<le> bottom_end_idx w"
    "length bs \<le> bottom_end_idx w"
  shows "shrink_bottom bs f w = None"
  using assms
proof (induction bs f w rule: shrink_bottom.induct)
  case (1 bs f w)
  then show ?case by (subst shrink_bottom.simps) simp
qed

lemma slide_passes:
  assumes b: "\<forall>b\<in>set bs. icmp_compare (smallest b) (largest f0) < 0 \<and> icmp_compare (largest b) (largest f0) \<le> 0 \<and>
      icmp_compare (largest b) (smallest f1) < 0"
    and sz: "sum_list (map file_size (f0 # bs)) < 2 ^ 64" "thres < file_size f0"
    and w: "start_idx w = 0" "bottom_end_idx w \<le> length bs"
  shows "slide_window (f0 # f1 # fs) bs thres w 0 = None"
proof -
  obtain w1 n where sk: "skip_bottom bs f0 w 0 = (w1, n)" by fastforce
  then have w1: "start_idx w1 = 0" "bottom_end_idx w1 \<le> length bs" using skip_bottom_bounds [OF sk] w by auto
  let ?w2 = "w1\<lparr>bottom_size := 0, bottom_start_idx := bottom_end_idx w1, end_bottom_size_counted := False,
    non_bottom_size := file_size f0\<rparr>"
  let ?w3 = "include_bottom bs f0 ?w2"
  have i: "bottom_end_idx ?w3 = length bs" "start_idx ?w3 = 0" "bottom_start_idx ?w3 \<le> length bs"
    "non_bottom_size ?w3 = file_size f0" "bottom_size ?w3 \<le> sum_list (map file_size (drop (bottom_end_idx w1) bs))"
    using include_bottom_all [of bs f0 ?w2] b w1 by auto
  have "sum_list (map file_size bs) = sum_list (map file_size (take (bottom_end_idx w1) bs)) +
      sum_list (map file_size (drop (bottom_end_idx w1) bs))"
    by (simp flip: sum_list_append map_append)
  then have big: "add64 (file_size f0) (bottom_size ?w3) > thres"
    using i(5) sz add64_exact [of "file_size f0" "bottom_size ?w3"] by simp
  have sh: "shrink_window (f0 # f1 # fs) bs thres 0 w' = None"
    if "start_idx w' = 0" "bottom_start_idx w' \<le> length bs" "bottom_end_idx w' = length bs"
      "add64 (non_bottom_size w') (bottom_size w') > thres" for w'
    using that b by (subst shrink_window.simps) (simp add: shrink_bottom_passes)
  have e: "w1\<lparr>start_idx := 0\<rparr> = w1" using w1(1) by simp
  have "slide_window (f0 # f1 # fs) bs thres w 0 =
      shrink_window (f0 # f1 # fs) bs thres 0 (if fanout_less (bottom_size ?w3, file_size f0) (picked_fanout ?w3)
        then ?w3\<lparr>picked_start_idx := 0, picked_end_idx := 0, picked_fanout := (bottom_size ?w3, file_size f0)\<rparr> else ?w3)"
    using w1 sz i big by (simp add: slide_window_def sk Let_def add64_exact e)
  then show ?thesis using i big by (simp add: sh)
qed

lemma incremental_passes:
  assumes "LevelFiles v (sr_level (runs ! (length runs - 2))) = f0 # f1 # fs" "sr_level (runs ! (length runs - 2)) \<noteq> 0"
    "LevelFiles v (sr_level (last runs)) = bs"
    "\<forall>b\<in>set bs. icmp_compare (smallest b) (largest f0) < 0 \<and> icmp_compare (largest b) (largest f0) \<le> 0 \<and>
      icmp_compare (largest b) (smallest f1) < 0"
    "sum_list (map file_size (f0 # bs)) < 2 ^ 64" "max_compaction_bytes opt div 2 < file_size f0"
  shows "PickIncrementalForReduceSizeAmp pk opt v runs th = None"
proof -
  have "[0..<length (f0 # f1 # fs)] = 0 # [1..<length (f0 # f1 # fs)]" by (simp add: upt_conv_Cons del: upt_Suc)
  then show ?thesis
    using assms(1-3) slide_passes [OF assms(4-6)] by (simp add: PickIncrementalForReduceSizeAmp_def Let_def del: upt_Suc)
qed

lemma gap_aborts:
  assumes "PickIncrementalForReduceSizeAmp pk (run_options True) gap_version (CalculateSortedRuns gap_version 2) (9000, 12000) = None"
  shows "PickCompaction pk (run_options True) gap_version = None"
proof -
  let ?rs = "CalculateSortedRuns gap_version 2"
  have "[0..<1] = [0 :: nat]" by simp
  then have "PickCompactionToReduceSizeAmp pk (run_options True) gap_version ?rs = None"
    using assms
    by (simp add: gap_runs PickCompactionToReduceSizeAmp_def CompactionOptionsUniversal_def Let_def sum64_mod mul64_def del: One_nat_def)
  then show ?thesis
    by (simp add: PickCompaction_def choose_compaction_def Let_def gap_runs CompactionOptionsUniversal_def)
qed

definition busy_file :: "nat \<Rightarrow> file_meta" where
  "busy_file n = (run_file n 10 [3] [4])\<lparr>being_compacted := True\<rparr>"

definition busy_version :: version where
  "busy_version = \<lparr>levels = [[], [busy_file 4], [busy_file 3], [run_file 2 100 [1] [9]], [run_file 1 10 [1] [9]]],
     marked_periodic = [], marked = []\<rparr>"

definition busy_compaction :: compaction where
  "busy_compaction = Compaction (run_options True) busy_version [(1, [busy_file 4]), (2, [busy_file 3])] 2 0 True [] kUniversalSizeRatio"

definition busy_picker :: picker where
  "busy_picker = \<lparr>compactions_in_progress = [busy_compaction], level0_compactions_in_progress = [busy_compaction],
     random_file = 0, current_time = 0\<rparr>"

lemma busy_files [simp]:
  "MaxOutputLevel busy_version False = 4" "num_levels busy_version = 5" "LevelFiles busy_version 0 = []"
  "LevelFiles busy_version 1 = [busy_file 4]" "LevelFiles busy_version 2 = [busy_file 3]"
  "LevelFiles busy_version 3 = [run_file 2 100 [1] [9]]" "LevelFiles busy_version 4 = [run_file 1 10 [1] [9]]"
  "marked_periodic busy_version = []" "marked busy_version = []"
  by (simp_all add: busy_version_def MaxOutputLevel_def num_levels_def LevelFiles_def)

lemma busy_file_simps [simp]:
  "fnumber (busy_file n) = n" "file_size (busy_file n) = 10" "compensated_file_size (busy_file n) = 10"
  "being_compacted (busy_file n)" "smallest (busy_file n) = ([3], 1)" "largest (busy_file n) = ([4], 1)"
  by (simp_all add: busy_file_def)

lemma one_file_overlap:
  assumes "l > 0" "l < num_non_empty_levels v" "LevelFiles v l = [f]" "h = - 1 \<or> h = 0"
    "\<not> sstableKeyCompare (largest f) s < 0" "\<not> sstableKeyCompare e (smallest f) < 0"
  shows "GetOverlappingInputs v l s e h = ([f], 0)"
  using assms by (auto simp: GetOverlappingInputs_def GetOverlappingInputsRangeBinarySearch_def range_start_def range_end_def Let_def)

lemma one_file_within:
  assumes "l > 0" "l < num_non_empty_levels v" "LevelFiles v l = [f]"
    "\<not> sstableKeyCompare (smallest f) s < 0" "\<not> sstableKeyCompare e (largest f) < 0"
  shows "GetCleanInputsWithinInterval v l s e (- 1) = [f]"
  using assms by (auto simp: GetCleanInputsWithinInterval_def GetOverlappingInputsRangeBinarySearch_def range_start_def range_end_def Let_def)

lemma busy_levels: "num_non_empty_levels busy_version = 5"
  by (simp add: num_non_empty_levels_def busy_version_def)

lemma busy_compare [simp]:
  "sstableKeyCompare ([a], 1) ([b], 1) < 0 \<longleftrightarrow> a < b"
  by (auto simp: sstableKeyCompare_def slice_compare_order user_key_def Let_def)

lemma busy_range [simp]: "l > 0 \<Longrightarrow> GetRange (l, [f]) = Some (smallest f, largest f)"
  by (simp add: GetRange_def)

lemma busy_expand:
  "ExpandInputsToCleanCut busy_version (3, [run_file 2 100 [1] [9]]) = Some (Some [run_file 2 100 [1] [9]])"
  "ExpandInputsToCleanCut busy_version (4, [run_file 1 10 [1] [9]]) = Some (Some [run_file 1 10 [1] [9]])"
  by (simp_all add: ExpandInputsToCleanCut_def expand_loop.simps one_file_overlap busy_levels AreFilesInCompaction_def)

lemma busy_other:
  "SetupOtherInputs (run_options True) busy_version (3, [run_file 2 100 [1] [9]]) 4 (- 1) (- 1) =
     Some (Some ([run_file 2 100 [1] [9]], [run_file 1 10 [1] [9]]))"
  by (simp add: SetupOtherInputs_def one_file_overlap busy_levels AreFilesInCompaction_def busy_expand GetRange2_def icmp_compare_def
     grow_overlapping_def Let_def may_expand_def one_file_within slice_compare_order user_key_def del: One_nat_def)

lemma busy_runs:
  "CalculateSortedRuns busy_version 4 =
     [\<lparr>sr_level = 1, sr_file = None, sr_size = 10, sr_compensated = 10, sr_compacted = True\<rparr>,
      \<lparr>sr_level = 2, sr_file = None, sr_size = 10, sr_compensated = 10, sr_compacted = True\<rparr>,
      \<lparr>sr_level = 3, sr_file = None, sr_size = 100, sr_compensated = 100, sr_compacted = False\<rparr>,
      \<lparr>sr_level = 4, sr_file = None, sr_size = 10, sr_compensated = 10, sr_compacted = False\<rparr>]"
proof -
  have "[1..<Suc 4] = [1, 2, 3, 4]" by (simp add: upt_conv_Cons)
  then show ?thesis by (simp add: CalculateSortedRuns_def run_of_level_def Let_def sum64_mod del: upt_Suc One_nat_def)
qed

lemma busy_slide:
  assumes "start_idx w = 0" "bottom_end_idx w = 0" "picked_fanout w = (180, 1000)"
  shows "\<exists>w'. slide_window [run_file 2 100 [1] [9]] [run_file 1 10 [1] [9]] 500 w 0 = Some w' \<and>
    picked_start_idx w' = 0 \<and> picked_end_idx w' = 0 \<and> picked_fanout w' = (10, 100)"
proof -
  let ?b = "[run_file 1 10 [1] [9]]" and ?f = "run_file 2 100 [1] [9]"
  have s: "skip_bottom ?b ?f w 0 = (w, 0)"
    using assms by (subst skip_bottom.simps) (simp add: icmp_compare_def slice_compare_order user_key_def)
  have i: "include_bottom ?b ?f w' = w'\<lparr>bottom_size := add64 (bottom_size w') 10, bottom_end_idx := 1, end_bottom_size_counted := False\<rparr>"
    if "bottom_end_idx w' = 0" "\<not> end_bottom_size_counted w'" for w'
    using that by (subst include_bottom.simps, subst include_bottom.simps)
      (simp add: icmp_compare_def slice_compare_order user_key_def Let_def)
  show ?thesis
    using assms
    by (simp add: slide_window_def s i Let_def add64_def fanout_less_def del: One_nat_def, subst shrink_window.simps)
      (simp add: add64_def)
qed

definition busy_again :: compaction where
  "busy_again = Compaction (run_options True) busy_version
     [(1, [busy_file 4]), (2, [busy_file 3]), (3, [run_file 2 100 [1] [9]]), (4, [run_file 1 10 [1] [9]])] 4 0 True []
     kUniversalSizeAmplification"

lemma busy_compaction_values: "output_level busy_compaction = 2" "\<not> SupportsPerKeyPlacement busy_compaction"
  by (simp_all add: busy_compaction_def Compaction_def Let_def SupportsPerKeyPlacement_def EvaluatePenultimateLevel_def)

lemma busy_incremental:
  "PickIncrementalForReduceSizeAmp busy_picker (run_options True) busy_version (CalculateSortedRuns busy_version 4) (180, 1000) =
     Some (Some busy_again)"
proof -
  define w where "w = \<lparr>start_idx = 0, bottom_start_idx = 0, bottom_end_idx = 0, non_bottom_size = 0, bottom_size = 0,
    end_bottom_size_counted = False, picked_start_idx = 0, picked_end_idx = 0, picked_fanout = (180, 1000)\<rparr>"
  obtain w' where w': "slide_window [run_file 2 100 [1] [9]] [run_file 1 10 [1] [9]] 500 w 0 = Some w'"
    "picked_start_idx w' = 0" "picked_end_idx w' = 0" "picked_fanout w' = (10, 100)"
    using busy_slide [of w] by (auto simp: w_def)
  have fold: "foldM (slide_window [run_file 2 100 [1] [9]] [run_file 1 10 [1] [9]] 500) w [0..<Suc 0] = Some w'"
    using w'(1) by simp
  have no: "\<not> FilesRangeOverlapWithCompaction busy_picker ins 4 kInvalidLevel" for ins
    by (simp add: FilesRangeOverlapWithCompaction_def RangeOverlapWithCompaction_def busy_picker_def busy_compaction_values
      split: option.splits)
  have e: "EvaluatePenultimateLevel (run_options True) busy_version l 4 = kInvalidLevel" for l
    by (simp add: EvaluatePenultimateLevel_def Let_def)
  show ?thesis
    using fold unfolding w_def
    by (simp add: PickIncrementalForReduceSizeAmp_def busy_runs Let_def w' fanout_ge_def busy_expand busy_other one_file_within busy_levels no e
      busy_again_def del: One_nat_def upt_Suc)
qed

lemma busy_picked: "choose_compaction busy_picker (run_options True) busy_version = Some (Some busy_again)"
proof -
  have "[0..<3] = [0, 1, 2 :: nat]" by (simp add: upt_conv_Cons)
  then have "PickCompactionToReduceSizeAmp busy_picker (run_options True) busy_version (CalculateSortedRuns busy_version 4) =
      Some (Some busy_again)"
    using busy_incremental
    by (simp add: busy_runs PickCompactionToReduceSizeAmp_def CompactionOptionsUniversal_def Let_def sum64_mod mul64_def
        del: One_nat_def upt_Suc)
  then show ?thesis
    by (simp add: choose_compaction_def Let_def busy_runs CompactionOptionsUniversal_def)
qed

lemma busy_inv: "running_inv busy_picker busy_version"
proof -
  have levels: "set (LevelFiles busy_version l) =
      (if l = 1 then {busy_file 4} else if l = 2 then {busy_file 3} else if l = 3 then {run_file 2 100 [1] [9]}
       else if l = 4 then {run_file 1 10 [1] [9]} else {})" for l
    by (auto simp: LevelFiles_def num_levels_def busy_version_def nth_Cons split: nat.splits)
  have ids: "input_ids busy_compaction = {(1, 4), (2, 3)}"
    by (auto simp: input_ids_def busy_compaction_def Compaction_def Let_def)
  show ?thesis
    unfolding running_inv_def unique_numbers_def marks_ok_def file_ids_def levels
    by (auto simp: busy_picker_def is_input_ids ids split: if_splits)
qed

subsection \<open>Properties\<close>

text \<open>
  C3: In every state that picks, ends and failures of compactions, flushes and the passing of
  time can reach, exactly the inputs of the running compactions are marked as being
  compacted, all of them are files of the version, no file is an input of two of them, and
  two that write to the same level other than 0 have disjoint ranges of user keys.
  Incremental compaction and the placement by recency are off.
\<close>

theorem running_compactions_apart:
  assumes "quiet_start pk0 v0" "(lsm_step opt)\<^sup>*\<^sup>* (pk0, v0) (pk, v)"
    "\<not> incremental (universal opt)" "preclude_last_level_data_seconds opt = 0"
  shows "(\<forall>l. \<forall>f\<in>set (LevelFiles v l). being_compacted f \<longleftrightarrow> (\<exists>c\<in>set (compactions_in_progress pk). is_input c l f)) \<and>
    (\<forall>c\<in>set (compactions_in_progress pk). input_ids c \<subseteq> file_ids v) \<and>
    (\<forall>i j. i < j \<and> j < length (compactions_in_progress pk) \<longrightarrow>
       compatible (compactions_in_progress pk ! i) (compactions_in_progress pk ! j))"
  using reachable_inv [OF assms(2-4)] assms(1) by (auto simp: running_inv_def sorted_wrt_iff_nth_less)

theorem running_compactions_apart_witness:
  "\<exists>pk v. (lsm_step (run_options False))\<^sup>*\<^sup>* (run_idle, run_version False []) (pk, v) \<and>
     compactions_in_progress pk = [run_second, run_first] \<and> compatible run_second run_first"
proof -
  let ?opt = "run_options False" and ?f = "run_file 3 10 [1] [9]" and ?g = "run_file 4 10 [1] [9]"
  let ?pk1 = "RegisterCompaction run_first run_idle" and ?v3 = "run_version True [run_file 4 10 [1] [9], run_file 3 10 [1] [9]]"
  let ?s4 = "(RegisterCompaction run_second ?pk1, ComputeCompactionScore ?pk1 ?opt (MarkFilesBeingCompacted run_second True ?v3))"
  have start: "quiet_start run_idle (run_version False [])" by (rule run_quiet)
  have "lsm_step ?opt (run_idle, run_version False []) (?pk1, run_version True [])"
    by (rule lsm_step.pick [of _ _ _ "Some run_first"]) (simp add: PickCompaction_def run_first_chosen run_first_mark run_score)
  moreover have "lsm_step ?opt (?pk1, run_version True []) (?pk1, run_version True [?f])"
    using run_flush [of ?f "[]" ?pk1 True] by simp
  moreover have "lsm_step ?opt (?pk1, run_version True [?f]) (?pk1, ?v3)"
    using run_flush [of ?g "[?f]" ?pk1 True] by simp
  moreover have "lsm_step ?opt (?pk1, ?v3) ?s4"
    by (rule lsm_step.pick [of _ _ _ "Some run_second"])
      (simp add: PickCompaction_def run_second_chosen RegisterCompaction_def run_idle_def)
  ultimately have r: "(lsm_step ?opt)\<^sup>*\<^sup>* (run_idle, run_version False []) ?s4"
    by (meson rtranclp.rtrancl_into_rtrancl rtranclp.rtrancl_refl)
  have c: "compactions_in_progress (fst ?s4) = [run_second, run_first]"
    by (simp add: RegisterCompaction_def run_idle_def)
  have "0 < (1 :: nat) \<and> 1 < length (compactions_in_progress (fst ?s4)) \<longrightarrow>
      compatible (compactions_in_progress (fst ?s4) ! 0) (compactions_in_progress (fst ?s4) ! 1)"
    using running_compactions_apart [OF start r] by (simp add: CompactionOptionsUniversal_def del: One_nat_def)
  then have "compatible run_second run_first" using c by simp
  then show ?thesis using r c by auto
qed

text \<open>
  C34: Incremental compaction reads past the end of the last level. Let the files of the
  last level start before the end of the first file of the second last level and end with
  it, before the second file starts, and let the first file alone exceed half of
  \<open>max_compaction_bytes\<close>. Then shrinking the window passes all files of the last level and
  goes on behind them, whatever the picker is doing otherwise.
\<close>

theorem incremental_reads_past_end:
  assumes "LevelFiles v (sr_level (runs ! (length runs - 2))) = f0 # f1 # fs" "sr_level (runs ! (length runs - 2)) \<noteq> 0"
    "LevelFiles v (sr_level (last runs)) = bs"
    "\<forall>b\<in>set bs. icmp_compare (smallest b) (largest f0) < 0 \<and> icmp_compare (largest b) (largest f0) \<le> 0 \<and>
      icmp_compare (largest b) (smallest f1) < 0"
    "sum_list (map file_size (f0 # bs)) < 2 ^ 64" "max_compaction_bytes opt div 2 < file_size f0"
  shows "PickIncrementalForReduceSizeAmp pk opt v runs fanout_threshold = None"
  by (rule incremental_passes [OF assms])

theorem incremental_reads_past_end_witness: "PickCompaction run_idle (run_options True) gap_version = None"
proof (rule gap_aborts, rule incremental_reads_past_end [of _ _ "run_file 3 600 [1] [2]" "run_file 2 600 [8] [9]" "[]"])
  show "\<forall>b\<in>set [run_file 1 500 [1] [2]]. icmp_compare (smallest b) (largest (run_file 3 600 [1] [2])) < 0 \<and>
      icmp_compare (largest b) (largest (run_file 3 600 [1] [2])) \<le> 0 \<and>
      icmp_compare (largest b) (smallest (run_file 2 600 [8] [9])) < 0"
    by (simp add: icmp_compare_def slice_compare_order user_key_def)
qed (simp_all add: gap_runs del: One_nat_def)

text \<open>
  C33: Incremental compaction takes files of the upper levels that another compaction is
  reading. A state that satisfies the invariant leads to one with two running compactions
  that share inputs.
\<close>

theorem incremental_shares_inputs:
  "running_inv busy_picker busy_version \<and>
   (\<exists>c pk v. PickCompaction busy_picker (run_options True) busy_version = Some (Some c, pk, v) \<and>
     compactions_in_progress pk = [c, busy_compaction] \<and> (2, 3) \<in> input_ids c \<inter> input_ids busy_compaction)"
proof -
  have ids: "input_ids busy_compaction = {(1, 4), (2, 3)}" "(2, 3) \<in> input_ids busy_again"
    by (auto simp: input_ids_def busy_compaction_def busy_again_def Compaction_def Let_def)
  have "PickCompaction busy_picker (run_options True) busy_version = Some (Some busy_again, RegisterCompaction busy_again busy_picker,
      ComputeCompactionScore busy_picker (run_options True) (MarkFilesBeingCompacted busy_again True busy_version))"
    by (simp add: PickCompaction_def busy_picked)
  moreover have "compactions_in_progress (RegisterCompaction busy_again busy_picker) = [busy_again, busy_compaction]"
    by (simp add: RegisterCompaction_def busy_picker_def)
  ultimately show ?thesis using ids busy_inv by blast
qed

end
