(* ===== verification/Settling.thy ===== *)
theory Settling
  imports Tiering Running
begin

section \<open>Compactions come to an end\<close>

text \<open>
  For the options of universal compaction in general, not only those of the driver, as long
  as no file is marked and incremental compaction is off: a compaction that
  is picked because of the size or the number of the sorted runs merges at least two of
  them. The runs are counted by keys, one per file of level 0 and one per other level with
  files; the count falls with every compaction, which bounds their number.
\<close>

subsection \<open>The keys of the runs\<close>








subsection \<open>Every compaction merges at least two runs\<close>



lemma Compaction_inputs [simp]: "inputs (Compaction opt v ins out path compress gps why) = ins"
  by (simp add: Compaction_def Let_def)







subsection \<open>The number of runs falls\<close>





subsection \<open>Compactions come to an end\<close>







subsection \<open>Property\<close>





end
