(* ===== verification/Well_Formed.thy ===== *)
theory Well_Formed
  imports Running
begin

section \<open>The shape of a picked compaction\<close>

text \<open>
  The levels of a compaction: the runs of universal compaction lie on strictly deeper and
  deeper levels after level 0, the output level of a series of runs is the last one or the
  one above the next run, hence no input is below it. The same holds for the compactions
  of files marked for compaction.
\<close>

subsection \<open>Levels of the runs\<close>

definition above :: "sorted_run \<Rightarrow> sorted_run \<Rightarrow> bool" where
  "above a b \<longleftrightarrow> sr_level a < sr_level b \<or> sr_level a = 0 \<and> sr_level b = 0"

lemma runs_above: "sorted_wrt above (CalculateSortedRuns v m)"
proof -
  have "sorted_wrt above (level_runs_of v a b)" for a b
  proof (induction b)
    case (Suc b)
    have "sr_level sr < b" if "sr \<in> set (level_runs_of v a b)" for sr
      using that by (auto dest: run_of_level_level)
    then show ?case using Suc by (auto simp: sorted_wrt_append above_def run_of_level_def Let_def)
  qed simp
  moreover have "sorted_wrt above (map run_of_file fs)" for fs
    by (induction fs) (auto simp: above_def run_of_file_def)
  moreover have "0 < sr_level sr" if "sr \<in> set (level_runs_of v 1 (Suc m))" for sr
    using that by (auto dest: run_of_level_level simp del: upt_Suc)
  ultimately show ?thesis
    by (auto simp: CalculateSortedRuns_def sorted_wrt_append above_def run_of_file_def simp del: upt_Suc)
qed

lemma run_level_le: "sr \<in> set (CalculateSortedRuns v m) \<Longrightarrow> sr_level sr \<le> m"
  by (erule calculated_run_cases) (auto simp: run_of_file_def dest: run_of_level_level)

lemma series_above:
  assumes "sr \<in> set (take k (drop i (CalculateSortedRuns v m)))" "i + k < length (CalculateSortedRuns v m)"
  shows "above sr (CalculateSortedRuns v m ! (i + k))"
proof -
  let ?rs = "CalculateSortedRuns v m"
  obtain j where j: "j < k" "sr = ?rs ! (i + j)"
    using assms unfolding in_set_conv_nth by auto
  then show ?thesis using sorted_wrt_nth_less [OF runs_above, of "i + j" "i + k" v m] assms(2) by simp
qed

lemma runs_levels: "CalculateSortedRuns v (MaxOutputLevel v b) \<noteq> [] \<Longrightarrow> int (MaxOutputLevel v b) < int (num_levels v)"
  by (cases "num_levels v = 0") (auto simp: CalculateSortedRuns_def LevelFiles_def MaxOutputLevel_def run_of_level_def Let_def)

subsection \<open>Well-formed compactions\<close>

text \<open>
  One entry per level in ascending order, an output level that exists, and no input from
  below it.
\<close>

definition well_formed :: "nat \<Rightarrow> compaction \<Rightarrow> bool" where
  "well_formed nl c \<longleftrightarrow> sorted_wrt (<) (map fst (inputs c)) \<and> 0 \<le> output_level c \<and> output_level c < int nl \<and>
     (\<forall>i\<in>set (inputs c). snd i \<noteq> [] \<longrightarrow> int (fst i) \<le> output_level c)"

lemma Compaction_well_formed:
  "well_formed nl (Compaction opt v ins out path compress gps why) \<longleftrightarrow>
     sorted_wrt (<) (map fst ins) \<and> 0 \<le> out \<and> out < int nl \<and> (\<forall>i\<in>set ins. snd i \<noteq> [] \<longrightarrow> int (fst i) \<le> out)"
  by (simp add: well_formed_def Compaction_def Let_def)

lemma gather_well_formed:
  assumes "i < length (CalculateSortedRuns v m)" "0 \<le> out" "out < int nl"
    "\<forall>sr\<in>set (take k (drop i (CalculateSortedRuns v m))). int (sr_level sr) \<le> out"
  shows "well_formed nl (Compaction opt v (gather_inputs v m (sr_level (CalculateSortedRuns v m ! i))
    (take k (drop i (CalculateSortedRuns v m)))) out path compress gps why)"
proof -
  let ?rs = "CalculateSortedRuns v m"
  let ?ins = "gather_inputs v m (sr_level (?rs ! i)) (take k (drop i ?rs))"
  have "map fst ?ins = map (\<lambda>j. sr_level (?rs ! i) + j) [0..<Suc m]" by (simp add: gather_inputs_def)
  then have "sorted_wrt (<) (map fst ?ins)" by (simp add: sorted_wrt_map strict_sorted_iff del: upt_Suc)
  moreover have "int (fst x) \<le> out" if x: "x \<in> set ?ins" "snd x \<noteq> []" for x
  proof -
    obtain f where "f \<in> set (snd x)" using x(2) by (meson list.set_sel(1))
    then have "\<exists>(l', fs)\<in>set ?ins. l' = fst x \<and> f \<in> id ` set fs" using x(1) by (intro bexI [of _ x]) auto
    then obtain sr where "sr \<in> set (take k (drop i ?rs))" "sr_level sr = fst x"
      unfolding gather_series_mem [OF assms(1)] by blast
    then show ?thesis using assms(4) by auto
  qed
  ultimately show ?thesis using assms(2,3) by (simp add: Compaction_well_formed)
qed

text \<open>The output level of a series: the last one, or the one above the next run.\<close>

lemma series_well_formed:
  assumes rs: "rs = CalculateSortedRuns v (MaxOutputLevel v b)" and i: "i < length rs" "i + k \<le> length rs"
    and out: "out = (if i + k = length rs then int (MaxOutputLevel v b)
      else if sr_level (rs ! (i + k)) = 0 then 0 else int (sr_level (rs ! (i + k))) - 1)"
  shows "well_formed (num_levels v) (Compaction opt v (gather_inputs v (MaxOutputLevel v b) (sr_level (rs ! i))
    (take k (drop i rs))) out path compress gps why)"
proof -
  let ?m = "MaxOutputLevel v b"
  have "rs \<noteq> []" using i by auto
  then have lim: "int ?m < int (num_levels v)" using runs_levels [of v b] unfolding rs by blast
  have le: "int (sr_level sr) \<le> out" if sr: "sr \<in> set (take k (drop i rs))" for sr
  proof (cases "i + k = length rs")
    case True
    have "sr \<in> set rs" using sr by (meson in_set_dropD in_set_takeD)
    then show ?thesis using run_level_le True unfolding rs out by simp
  next
    case False
    then have "above sr (rs ! (i + k))" using sr i unfolding rs by (intro series_above) simp_all
    then show ?thesis using False by (auto simp: above_def out)
  qed
  have "0 \<le> out" by (auto simp: out)
  moreover have "out < int (num_levels v)"
  proof (cases "i + k = length rs")
    case False
    then have "rs ! (i + k) \<in> set rs" using i by (intro nth_mem) simp
    then have "sr_level (rs ! (i + k)) \<le> ?m" using run_level_le unfolding rs by blast
    then show ?thesis using lim False by (simp add: out)
  qed (use lim in \<open>simp add: out\<close>)
  ultimately show ?thesis using le i(1) unfolding rs by (intro gather_well_formed) auto
qed

lemma range_well_formed:
  assumes "PickCompactionWithSortedRunRange pk opt v rs i e why = Some c"
    "rs = CalculateSortedRuns v (MaxOutputLevel v (allow_ingest_behind opt))" "i \<le> e" "e < length rs"
    "e = length rs - 1 \<or> 0 < sr_level (rs ! (e + 1))"
  shows "well_formed (num_levels v) c"
proof -
  let ?m = "MaxOutputLevel v (allow_ingest_behind opt)"
  define out where "out = (if e = length rs - 1 then int ?m else int (sr_level (rs ! (e + 1))) - 1)"
  obtain path where c: "c = Compaction opt v (gather_inputs v ?m (sr_level (rs ! i)) (take (e + 1 - i) (drop i rs))) out path True [] why"
    using assms(1) unfolding PickCompactionWithSortedRunRange_def Let_def out_def by (auto split: if_splits)
  show ?thesis
    unfolding c using assms(3-5) by (intro series_well_formed [OF assms(2)]) (auto simp: out_def)
qed

lemma reduce_well_formed:
  assumes "PickCompactionToReduceSortedRuns pk opt v rs ratio n = Some c"
    "rs = CalculateSortedRuns v (MaxOutputLevel v (allow_ingest_behind opt))"
  shows "well_formed (num_levels v) c"
proof -
  let ?m = "MaxOutputLevel v (allow_ingest_behind opt)" and ?u = "universal opt"
  obtain i k where f: "find_candidates ?u ratio (min (max_merge_width ?u) n) (max (min_merge_width ?u) 2) 0 rs = Some (i, k)"
    using assms(1) by (auto simp: PickCompactionToReduceSortedRuns_def Let_def split: option.splits)
  note fc = find_candidates_idle [OF f]
  have k: "\<not> k \<le> 1" using fc(3) by simp
  define out where "out = (if i + k = length rs then int ?m
    else if sr_level (rs ! (i + k)) = 0 then 0 else int (sr_level (rs ! (i + k))) - 1)"
  obtain path compress gps why where
    c: "c = Compaction opt v (gather_inputs v ?m (sr_level (rs ! i)) (take k (drop i rs))) out path compress gps why"
    using assms(1) unfolding PickCompactionToReduceSortedRuns_def Let_def f option.case prod.case if_not_P [OF k] out_def [symmetric]
    by (auto split: if_splits)
  show ?thesis unfolding c using fc(2,4) by (intro series_well_formed [OF assms(2) _ _ out_def]) auto
qed

lemma size_amp_well_formed:
  assumes "PickCompactionToReduceSizeAmp pk opt v rs = Some (Some c)"
    "rs = CalculateSortedRuns v (MaxOutputLevel v (allow_ingest_behind opt))" "\<not> incremental (universal opt)"
  shows "well_formed (num_levels v) c"
proof -
  obtain i where i: "find (\<lambda>i. \<not> sr_compacted (rs ! i)) [0..<length rs - 1] = Some i" "\<not> sr_compacted (last rs)"
    using assms(1) by (auto simp: PickCompactionToReduceSizeAmp_def Let_def split: option.splits if_splits)
  then have il: "i < length rs - 1" by (auto simp: find_Some_iff)
  define tiered where "tiered \<longleftrightarrow> preclude_last_level_data_seconds opt > 0 \<and> num_levels v > 2 \<and>
    sr_level (last rs) = num_levels v - 1 \<and> length rs > 1"
  define e where "e = (if tiered then length rs - 2 else length rs - 1)"
  have c: "i < e" "PickCompactionWithSortedRunRange pk opt v rs i e kUniversalSizeAmplification = Some c"
    using assms(1) [unfolded PickCompactionToReduceSizeAmp_def Let_def, folded tiered_def, folded e_def] assms(3) i
    by (auto split: if_splits)
  have "0 < sr_level (rs ! (e + 1))" if tiered
  proof -
    have "rs \<noteq> []" "e + 1 = length rs - 1" using that il by (auto simp: e_def)
    then have "rs ! (e + 1) = last rs" by (simp add: last_conv_nth)
    then show ?thesis using that by (simp add: tiered_def)
  qed
  then show ?thesis using c(1) il by (intro range_well_formed [OF c(2) assms(2)]) (auto simp: e_def split: if_splits)
qed

lemma periodic_well_formed:
  assumes "PickPeriodicCompaction pk opt v rs = Some c"
    "rs = CalculateSortedRuns v (MaxOutputLevel v (allow_ingest_behind opt))"
  shows "well_formed (num_levels v) c"
proof -
  define i where "i = length rs - length (takeWhile (\<lambda>sr. \<not> sr_compacted sr) (rev rs))"
  have c: "i \<noteq> length rs" "PickCompactionWithSortedRunRange pk opt v rs i (length rs - 1) kPeriodicCompaction = Some c"
    using assms(1) by (auto simp: PickPeriodicCompaction_def PickCompactionToOldest_def Let_def i_def split: if_splits)
  then have "i < length rs" unfolding i_def by simp
  then show ?thesis by (intro range_well_formed [OF c(2) assms(2)]) auto
qed

lemma marked_well_formed:
  assumes "multi_level_marked pk opt v = Some (Some (ins, out, gps))" "0 < num_levels v"
  shows "well_formed (num_levels v) (Compaction opt v ins (int out) path compress gps' why)"
proof -
  let ?m = "MaxOutputLevel v (allow_ingest_behind opt)"
  obtain l fs where s: "PickFilesMarkedForCompaction pk v = Some (Some (l, fs))"
    using assms(1) by (auto simp: multi_level_marked_def split: Option.bind_splits option.splits)
  define target where "target = (case find (\<lambda>l. LevelFiles v l \<noteq> []) [l + 1..<Suc ?m] of
      Some l' \<Rightarrow> Some l' | None \<Rightarrow> if l = 0 then Some ?m else None)"
  note unf = assms(1) [unfolded multi_level_marked_def s bind.bind_lunit option.case prod.case Let_def, folded target_def]
  obtain out' where t: "target = Some out'" using unf by (cases target) auto
  have "l < out' \<and> out' \<le> ?m \<or> l = 0 \<and> out' = ?m"
    using t by (auto simp: target_def find_Some_iff nth_append simp del: upt_Suc split: option.splits if_splits)
  moreover have "?m < num_levels v" using assms(2) by (auto simp: MaxOutputLevel_def)
  moreover have "out = out' \<and> (\<exists>fs' outs. ins = [(l, fs')] \<or> out' \<noteq> 0 \<and> ins = [(l, fs'), (out', outs)])"
    using unf unfolding t option.case
    by (auto simp del: if_split split: if_split_asm Option.bind_splits option.splits prod.splits)
  ultimately show ?thesis by (auto simp: Compaction_well_formed)
qed

lemma choose_well_formed:
  assumes "choose_compaction pk opt v = Some (Some c)" "\<not> incremental (universal opt)"
  shows "well_formed (num_levels v) c"
proof -
  define rs where "rs = CalculateSortedRuns v (MaxOutputLevel v (allow_ingest_behind opt))"
  have ne: "rs \<noteq> []" using assms(1) by (auto simp: choose_compaction_def rs_def [symmetric] Let_def split: if_split_asm)
  then have nl: "0 < num_levels v" using runs_levels [of v "allow_ingest_behind opt"] by (simp add: rs_def)
  obtain d where d: "c = d \<or> (\<exists>b. c = d\<lparr>is_trivial_move := b\<rparr>)"
    "marked_periodic v \<noteq> [] \<and> PickPeriodicCompaction pk opt v rs = Some d \<or> PickCompactionToReduceSizeAmp pk opt v rs = Some (Some d) \<or>
     PickCompactionToReduceSortedRuns pk opt v rs (size_ratio (universal opt)) (2 ^ 32 - 1) = Some d \<or>
     PickDeleteTriggeredCompaction pk opt v rs = Some (Some d)"
    using assms(1) unfolding choose_compaction_def rs_def [symmetric] Let_def
    by (auto split: if_split_asm Option.bind_splits option.splits)
  have "well_formed (num_levels v) d" if del: "PickDeleteTriggeredCompaction pk opt v rs = Some (Some d)"
  proof (cases "num_levels v = 1")
    case True
    then show ?thesis using del by (auto simp: PickDeleteTriggeredCompaction_def Compaction_well_formed)
  next
    case False
    then obtain ins out gps where m: "multi_level_marked pk opt v = Some (Some (ins, out, gps))"
      "d = Compaction opt v ins (int out) (GetPathId opt (TotalFileSize (LevelFiles v out))) True gps kFilesMarkedForCompaction"
      using del by (auto simp: PickDeleteTriggeredCompaction_def split: Option.bind_splits)
    show ?thesis unfolding m(2) by (rule marked_well_formed [OF m(1) nl])
  qed
  then have "well_formed (num_levels v) d"
    using d(2) periodic_well_formed [OF _ rs_def] size_amp_well_formed [OF _ rs_def assms(2)] reduce_well_formed [OF _ rs_def] by blast
  with d(1) show ?thesis by (auto simp: well_formed_def)
qed

subsection \<open>Property\<close>

text \<open>
  C9: Every compaction that is picked without incremental compaction, for whatever reason, is
  well formed: its inputs are listed by ascending level, its output level is a level of the
  version, and no input file lies below the output level.
\<close>

theorem picked_well_formed:
  assumes "PickCompaction pk opt v = Some (Some c, pk', v')" "\<not> incremental (universal opt)"
  shows "well_formed (num_levels v) c"
proof -
  have "choose_compaction pk opt v = Some (Some c)"
    using assms(1) by (auto simp: PickCompaction_def bind_eq_Some_conv split: option.splits)
  then show ?thesis using assms(2) by (rule choose_well_formed)
qed

theorem picked_well_formed_witness:
  "PickCompaction run_idle (run_options False) (run_version False []) \<noteq> None \<and> well_formed 4 run_first"
proof -
  have "PickCompaction run_idle (run_options False) (run_version False []) =
      Some (Some run_first, RegisterCompaction run_first run_idle, run_version True [])"
    by (simp add: PickCompaction_def run_first_chosen run_first_mark run_score)
  from picked_well_formed [OF this] this show ?thesis by (simp add: CompactionOptionsUniversal_def)
qed

end
