(* ===== verification/Trivial_Move.thy ===== *)
theory Trivial_Move
  imports Universal "HOL-Library.Multiset"
begin

section \<open>Trivial moves\<close>

text \<open>
  With \<open>allow_trivial_move\<close> a universal compaction whose inputs do not overlap only moves its
  files. \<open>IsInputFilesNonOverlapping\<close> decides this with a merge of the levels through a heap
  that compares each file with the one before it. The loop is shown to compute the
  declarative notion: the input files have pairwise disjoint ranges of user keys. The
  proof does not depend on which of several smallest files the heap returns.
\<close>

subsection \<open>Disjoint files\<close>

definition disjoint_files :: "file_meta \<Rightarrow> file_meta \<Rightarrow> bool" where
  "disjoint_files f g \<longleftrightarrow> user_key (largest f) < user_key (smallest g) \<or> user_key (largest g) < user_key (smallest f)"

definition proper_file :: "file_meta \<Rightarrow> bool" where
  "proper_file f \<longleftrightarrow> user_key (smallest f) \<le> user_key (largest f)"

definition apart :: "file_meta multiset \<Rightarrow> bool" where
  "apart M \<longleftrightarrow> (\<forall>f\<in>#M. \<forall>g\<in>#M - {#f#}. disjoint_files f g)"

lemma disjoint_files_sym: "disjoint_files f g = disjoint_files g f"
  by (auto simp: disjoint_files_def)

lemma apart_iff: "apart M \<longleftrightarrow> (\<forall>f g. f \<in># M \<and> g \<in># M \<and> (f = g \<longrightarrow> 1 < count M f) \<longrightarrow> disjoint_files f g)"
  by (auto simp: apart_def in_diff_count not_in_iff split: if_splits)

lemma apart_add: "apart (add_mset f M) \<longleftrightarrow> (\<forall>g\<in>#M. disjoint_files f g) \<and> apart M"
proof
  assume a: "apart (add_mset f M)"
  have "disjoint_files f g" if "g \<in># M" for g using a that by (auto simp: apart_def)
  moreover have "apart M" using a unfolding apart_iff by (auto split: if_splits)
  ultimately show "(\<forall>g\<in>#M. disjoint_files f g) \<and> apart M" by blast
next
  assume a: "(\<forall>g\<in>#M. disjoint_files f g) \<and> apart M"
  show "apart (add_mset f M)"
    unfolding apart_def
  proof (intro ballI)
    fix g h assume g: "g \<in># add_mset f M" and h: "h \<in># add_mset f M - {#g#}"
    show "disjoint_files g h"
    proof (cases "g = f")
      case True
      then show ?thesis using a h by simp
    next
      case False
      then have "g \<in># M" using g by simp
      then have "h = f \<or> h \<in># M - {#g#}" using h False by simp
      then show ?thesis using a \<open>g \<in># M\<close> disjoint_files_sym by (auto simp: apart_def)
    qed
  qed
qed

lemma apart_mset: "apart (mset fs) \<longleftrightarrow> sorted_wrt disjoint_files fs"
proof (induction fs)
  case Nil
  show ?case by (simp add: apart_def)
qed (simp add: apart_add)

text \<open>A file that starts first is disjoint from another one when it ends before it.\<close>

lemma disjoint_first:
  assumes "user_key (smallest f) \<le> user_key (smallest g)" "proper_file g"
  shows "disjoint_files f g \<longleftrightarrow> user_key (largest f) < user_key (smallest g)"
  using assms by (auto simp: disjoint_files_def proper_file_def)

subsection \<open>The files still to come\<close>

definition info_wf :: "compaction \<Rightarrow> input_file_info \<Rightarrow> bool" where
  "info_wf c i \<longleftrightarrow> info_level i < length (inputs c) \<and> info_index i < length (snd (inputs c ! info_level i)) \<and>
     info_file i = snd (inputs c ! info_level i) ! info_index i"

definition to_come :: "compaction \<Rightarrow> input_file_info \<Rightarrow> file_meta list" where
  "to_come c i = (if fst (inputs c ! info_level i) = 0 then [info_file i]
     else drop (info_index i) (snd (inputs c ! info_level i)))"

abbreviation all_to_come :: "compaction \<Rightarrow> input_file_info list \<Rightarrow> file_meta multiset" where
  "all_to_come c heap \<equiv> mset (concat (map (to_come c) heap))"

lemma next_info_spec:
  assumes "info_wf c i"
  shows "to_come c i = info_file i # concat (map (to_come c) (next_info c i))" "\<forall>j\<in>set (next_info c i). info_wf c j"
proof -
  obtain l fs where i: "inputs c ! info_level i = (l, fs)" by force
  with assms show "to_come c i = info_file i # concat (map (to_come c) (next_info c i))"
    by (auto simp: info_wf_def to_come_def next_info_def Let_def Cons_nth_drop_Suc [symmetric])
  from i assms show "\<forall>j\<in>set (next_info c i). info_wf c j"
    by (auto simp: info_wf_def next_info_def Let_def)
qed

definition inputs_sorted :: "compaction \<Rightarrow> bool" where
  "inputs_sorted c \<longleftrightarrow>
     (\<forall>(l, fs)\<in>set (inputs c). (\<forall>f\<in>set fs. proper_file f) \<and>
        (l \<noteq> 0 \<longrightarrow> sorted (map (\<lambda>f. user_key (smallest f)) fs))) \<and>
     (\<forall>i<length (inputs c). 0 < i \<longrightarrow> fst (inputs c ! i) \<noteq> 0)"

lemma to_come_first:
  assumes "inputs_sorted c" "info_wf c i" "f \<in> set (to_come c i)"
  shows "user_key (smallest (info_file i)) \<le> user_key (smallest f)" "proper_file f"
proof -
  let ?fs = "snd (inputs c ! info_level i)"
  have mem: "(fst (inputs c ! info_level i), ?fs) \<in> set (inputs c)" using assms(2) by (simp add: info_wf_def)
  have "f \<in> set ?fs" using assms(2,3) by (auto simp: to_come_def info_wf_def split: if_splits dest: in_set_dropD)
  then show "proper_file f" using assms(1) mem by (auto simp: inputs_sorted_def)
  show "user_key (smallest (info_file i)) \<le> user_key (smallest f)"
  proof (cases "fst (inputs c ! info_level i) = 0")
    case True
    then show ?thesis using assms(3) by (simp add: to_come_def)
  next
    case False
    then have srt: "sorted (map (\<lambda>f. user_key (smallest f)) ?fs)" using assms(1) mem by (auto simp: inputs_sorted_def)
    obtain k where k: "info_index i + k < length ?fs" "f = ?fs ! (info_index i + k)"
      using assms(2,3) False by (auto simp: to_come_def in_set_conv_nth info_wf_def less_diff_conv add.commute)
    then have "map (\<lambda>f. user_key (smallest f)) ?fs ! info_index i \<le> map (\<lambda>f. user_key (smallest f)) ?fs ! (info_index i + k)"
      by (intro sorted_nth_mono [OF srt]) simp_all
    then show ?thesis using k assms(2) by (simp add: info_wf_def)
  qed
qed

lemma heap_top_least: "j \<in> set (i # js) \<Longrightarrow>
    user_key (smallest (info_file (heap_top i js))) \<le> user_key (smallest (info_file j))"
proof (induction i js arbitrary: j rule: heap_top.induct)
  case (2 i k js)
  let ?m = "if slice_compare (user_key (smallest (info_file i))) (user_key (smallest (info_file k))) > 0 then k else i"
  have le: "user_key (smallest (info_file (heap_top ?m js))) \<le> user_key (smallest (info_file j))" if "j \<in> set (?m # js)" for j
    using "2.IH" [OF that] .
  have "user_key (smallest (info_file ?m)) \<le> user_key (smallest (info_file i))"
    "user_key (smallest (info_file ?m)) \<le> user_key (smallest (info_file k))"
    by (auto simp: slice_compare_order)
  with le [of ?m] have "user_key (smallest (info_file (heap_top ?m js))) \<le> user_key (smallest (info_file i))"
    "user_key (smallest (info_file (heap_top ?m js))) \<le> user_key (smallest (info_file k))" by (simp_all add: order_trans)
  moreover have "user_key (smallest (info_file (heap_top ?m js))) \<le> user_key (smallest (info_file j))" if "j \<in> set js"
    using le [of j] that by simp
  ultimately show ?case using "2.prems" unfolding heap_top.simps(2) list.set insert_iff by blast
qed simp

subsection \<open>The loop\<close>

lemma heap_turn_to_come:
  assumes "\<forall>j\<in>set (i # heap). info_wf c j"
  shows "all_to_come c (i # heap) =
      add_mset (info_file (heap_top i heap)) (all_to_come c (next_info c (heap_top i heap) @ remove1 (heap_top i heap) (i # heap)))"
    and "\<forall>j\<in>set (next_info c (heap_top i heap) @ remove1 (heap_top i heap) (i # heap)). info_wf c j"
proof -
  let ?t = "heap_top i heap" and ?r = "remove1 (heap_top i heap) (i # heap)"
  have t: "?t \<in> set (i # heap)" by (rule heap_top_in)
  then have wf: "info_wf c ?t" using assms by blast
  have "?t \<in># mset (i # heap)" using t by (simp only: set_mset_mset)
  then have ms: "mset (i # heap) = add_mset ?t (mset ?r)" by (simp only: mset_remove1 insert_DiffM)
  have sum: "all_to_come c xs = \<Sum>\<^sub># (image_mset (\<lambda>j. mset (to_come c j)) (mset xs))" for xs
    by (induction xs) auto
  have "all_to_come c (i # heap) = mset (to_come c ?t) + all_to_come c ?r"
    unfolding sum ms by (simp only: image_mset_add_mset sum_mset.add_mset)
  also have "mset (to_come c ?t) = add_mset (info_file ?t) (all_to_come c (next_info c ?t))"
    by (subst next_info_spec(1) [OF wf]) simp
  finally show "all_to_come c (i # heap) = add_mset (info_file ?t) (all_to_come c (next_info c ?t @ ?r))" by simp
  show "\<forall>j\<in>set (next_info c ?t @ ?r). info_wf c j"
    using next_info_spec(2) [OF wf] assms set_remove1_subset [of ?t "i # heap"] by auto
qed

lemma heap_top_first:
  assumes "inputs_sorted c" "\<forall>j\<in>set (i # heap). info_wf c j" "f \<in># all_to_come c (i # heap)"
  shows "user_key (smallest (info_file (heap_top i heap))) \<le> user_key (smallest f)" "proper_file f"
proof -
  from assms(3) obtain j where j: "j \<in> set (i # heap)" "f \<in> set (to_come c j)" by auto
  then have wf: "info_wf c j" using assms(2) by blast
  show "proper_file f" by (rule to_come_first [OF assms(1) wf j(2)])
  show "user_key (smallest (info_file (heap_top i heap))) \<le> user_key (smallest f)"
    using heap_top_least [OF j(1)] to_come_first(1) [OF assms(1) wf j(2)] by (rule order_trans)
qed

lemma non_overlapping_loop_spec:
  assumes "inputs_sorted c" "\<forall>j\<in>set heap. info_wf c j"
  shows "non_overlapping_loop c heap prev \<longleftrightarrow> apart (all_to_come c heap) \<and>
    (\<forall>p. prev = Some p \<longrightarrow> (\<forall>f\<in>#all_to_come c heap. user_key (largest p) < user_key (smallest f)))"
  using assms
proof (induction c heap prev rule: non_overlapping_loop.induct)
  case (1 c prev)
  show ?case by (simp add: apart_def)
next
  case (2 c i heap prev)
  let ?t = "heap_top i heap"
  define rest where "rest = next_info c ?t @ remove1 ?t (i # heap)"
  note turn = heap_turn_to_come [OF "2.prems"(2), folded rest_def]
  note first = heap_top_first [OF "2.prems"]
  have top: "info_file ?t \<in># all_to_come c (i # heap)" unfolding turn(1) by simp
  show ?case
  proof (cases "\<exists>p. prev = Some p \<and> slice_compare (user_key (largest p)) (user_key (smallest (info_file ?t))) \<ge> 0")
    case True
    then have "\<not> non_overlapping_loop c (i # heap) prev"
      by (subst non_overlapping_loop.simps(2)) (auto simp: Let_def)
    moreover from True obtain p where p: "prev = Some p" "\<not> user_key (largest p) < user_key (smallest (info_file ?t))"
      by (auto simp: slice_compare_order split: if_splits)
    ultimately show ?thesis using top by blast
  next
    case False
    then have nf: "\<not> (case prev of None \<Rightarrow> False
        | Some p \<Rightarrow> slice_compare (user_key (largest p)) (user_key (smallest (info_file ?t))) \<ge> 0)"
      by (cases prev) auto
    have lt: "user_key (largest p) < user_key (smallest (info_file ?t))" if "prev = Some p" for p
      using False that by (auto simp: slice_compare_order split: if_splits)
    have "non_overlapping_loop c (i # heap) prev = non_overlapping_loop c rest (Some (info_file ?t))"
      using nf by (subst non_overlapping_loop.simps(2)) (simp add: Let_def rest_def del: remove1.simps)
    also have "\<dots> \<longleftrightarrow> apart (all_to_come c rest) \<and>
        (\<forall>f\<in>#all_to_come c rest. user_key (largest (info_file ?t)) < user_key (smallest f))"
      using "2.IH" [OF refl nf, folded rest_def, OF "2.prems"(1) turn(2)] by simp
    also have "\<dots> \<longleftrightarrow> apart (all_to_come c rest) \<and> (\<forall>f\<in>#all_to_come c rest. disjoint_files (info_file ?t) f)"
      using disjoint_first [OF first] unfolding turn(1) by auto
    also have "\<dots> \<longleftrightarrow> apart (all_to_come c (i # heap))" unfolding turn(1) apart_add by blast
    finally have eq: "non_overlapping_loop c (i # heap) prev \<longleftrightarrow> apart (all_to_come c (i # heap))" .
    have "user_key (largest p) < user_key (smallest f)" if "prev = Some p" "f \<in># all_to_come c (i # heap)" for p f
      using lt [OF that(1)] first(1) [OF that(2)] by (rule less_le_trans)
    with eq show ?thesis by blast
  qed
qed

lemma concat_map_concat: "concat (map f (concat (map g xs))) = concat (map (\<lambda>x. concat (map f (g x))) xs)"
  by (induction xs) auto

lemma create_level_heap_spec:
  assumes "inputs_sorted c"
  shows "all_to_come c (create_level_heap c) = mset (concat (map snd (inputs c)))"
    "\<forall>j\<in>set (create_level_heap c). info_wf c j"
proof -
  let ?part = "\<lambda>l. let (level, fs) = inputs c ! l
       in if fs = [] then []
          else if l = 0 \<and> level = 0
          then map (\<lambda>i. \<lparr>info_file = fs ! i, info_level = 0, info_index = i\<rparr>) [0..<length fs]
          else [\<lparr>info_file = fs ! 0, info_level = l, info_index = 0\<rparr>]"
  have part: "concat (map (to_come c) (?part l)) = snd (inputs c ! l) \<and> (\<forall>j\<in>set (?part l). info_wf c j)"
    if "l < length (inputs c)" for l
  proof -
    obtain level fs where lf: "inputs c ! l = (level, fs)" by force
    have "level = 0 \<Longrightarrow> l = 0" using assms that lf by (auto simp: inputs_sorted_def)
    moreover have "concat (map (\<lambda>i. [fs ! i]) [0..<length fs]) = fs" by (simp add: concat_map_singleton map_nth)
    ultimately show ?thesis using that lf by (auto simp: to_come_def info_wf_def comp_def)
  qed
  have "concat (map (to_come c) (create_level_heap c)) = concat (map (\<lambda>l. concat (map (to_come c) (?part l))) [0..<length (inputs c)])"
    unfolding create_level_heap_def by (rule concat_map_concat)
  also have "\<dots> = concat (map (\<lambda>l. snd (inputs c ! l)) [0..<length (inputs c)])"
    by (intro arg_cong [where f = concat] map_cong refl) (use part in simp)
  also have "\<dots> = concat (map snd (inputs c))"
    by (intro arg_cong [where f = concat] nth_equalityI) simp_all
  finally show "all_to_come c (create_level_heap c) = mset (concat (map snd (inputs c)))" by simp
  show "\<forall>j\<in>set (create_level_heap c). info_wf c j"
    unfolding create_level_heap_def using part by auto
qed

subsection \<open>Properties\<close>

text \<open>Two files of level 0 and two of level 3, no two of which overlap.\<close>

definition move_file :: "bytes \<Rightarrow> bytes \<Rightarrow> file_meta" where
  "move_file s l = \<lparr>fnumber = 0, file_size = 1, compensated_file_size = 1, being_compacted = False,
     marked_for_compaction = False, modification_time = 0, smallest = (s, 0), largest = (l, 0)\<rparr>"

definition move_compaction :: compaction where
  "move_compaction = \<lparr>inputs = [(0, [move_file [5] [6], move_file [1] [2]]), (3, [move_file [3] [4], move_file [7] [9]])],
     output_level = 3, path_id = 0, enable_compression = True, grandparents = [], reason = kUniversalSizeRatio,
     is_trivial_move = False, smallest_user_key = [1], largest_user_key = [9], penultimate_level = - 1,
     penultimate_smallest = [], penultimate_largest = []\<rparr>"

text \<open>
  C10: a compaction is taken for a trivial move exactly when the ranges of user keys of its
  input files are pairwise disjoint, provided that files of a level other than 0 are in
  the order of their keys and that level 0 can only be the first.
\<close>

theorem non_overlapping_iff_disjoint:
  assumes "inputs_sorted c"
  shows "IsInputFilesNonOverlapping c \<longleftrightarrow> sorted_wrt disjoint_files (concat (map snd (inputs c)))"
  using non_overlapping_loop_spec [OF assms create_level_heap_spec(2) [OF assms], of None]
  by (simp add: IsInputFilesNonOverlapping_def create_level_heap_spec(1) [OF assms] apart_mset)

theorem non_overlapping_iff_disjoint_witness: "IsInputFilesNonOverlapping move_compaction"
  using non_overlapping_iff_disjoint [of move_compaction]
  by (auto simp: inputs_sorted_def move_compaction_def move_file_def proper_file_def disjoint_files_def user_key_def less_Suc_eq)

end
