(* ===== verification/Spec2Isabelle.thy ===== *)
theory Spec2Isabelle
  imports BPlus_Range Bloom Micro_Bench Coding Settling Well_Formed Trivial_Move
begin

text \<open>
  Verification of the MQSSD model repository: the programs with which storage on
  multi-queue SSDs is measured, and the storage structures they measure.

  \<^bold>\<open>The parts and how they interact.\<close> \<open>workload_gen.cc\<close> writes files of random 64-bit numbers.
  The drivers under \<open>rocksdb-8.6.7/mqssd\<close> read them, turn each number into a key and a value,
  load a RocksDB database with the options of the chosen compaction style, wait until the
  background compactions have settled and query it. Which compactions run is decided by
  RocksDB's universal compaction picker, which this repository changes; it works on the
  files of a version and on the keys, which are compared bytewise. Independent of RocksDB
  are the B+ tree index \<open>bplustree\<close>, whose nodes live in the blocks of a file, the Bloom filter
  \<open>filter_exps\<close> on a memory-mapped file with the MurmurHash3 functions, and the benchmark
  \<open>micro_bench.c\<close>, which issues random reads and writes from several threads.

  \<^bold>\<open>Conventions\<close> (\<open>Prelude\<close>, \<open>Bytes\<close>). An operation that can abort returns an option: \<^term>\<open>None\<close> is a
  failed assertion, a null dereference, a division by zero or an access outside an array.
  Where the source also has a result of its own for "nothing" it is a second option inside.
  State is passed explicitly. Machine integers are words where overflow matters, else
  numbers. Code outside the repository (the database behind the drivers, system calls,
  random number generators, \<open>libm\<close>) is a parameter of the definitions that use it.

  \<^bold>\<open>B+ tree\<close> (\<open>bplustree/lib/bplustree.c\<close>). \<open>BPlus_Node\<close> has \<open>struct bplus_node\<close> and
  \<open>struct bplus_tree\<close> as records, the five cache slots, the file as a map from block offsets
  to nodes, and the operations from \<open>key_binary_search\<close> to \<open>sub_node_flush\<close>; \<open>BPlus_Insert\<close>,
  \<open>BPlus_Query\<close> and \<open>BPlus_Delete\<close> have one definition per C function of insertion, lookup, range
  query and deletion; \<open>BPlus_Boot\<close> has \<open>bplus_tree_init\<close> and \<open>bplus_tree_deinit\<close>. \<open>BPlus_Levels\<close> is
  the abstract view, a list of levels with separating keys, and the invariant. \<open>BPlus_Store\<close>,
  \<open>BPlus_Split\<close>, \<open>BPlus_Chain\<close>, \<open>BPlus_Climb\<close> and \<open>BPlus_Insert_Correct\<close> show that insertion keeps the
  invariant, never aborts and adds exactly the entry; a lookup returns what is stored, cut
  to 32 bits as in the source; a closed and reopened index has the same entries when the
  boot file did not shrink, and else gets the older free blocks back as well. \<open>BPlus_Map\<close> has
  the locale \<open>key_index\<close>, the contract of a map in which each key is inserted once, and its
  interpretation on the tree. \<open>BPlus_Range\<close> has the range query: from a stored key it gives
  the datum of the last key in the range, from a key behind its leaf it skips the start of
  the next leaf. \<open>strcat\<close> over the end of the name buffer is \<^term>\<open>None\<close>; signed overflow of \<open>off_t\<close>
  is taken as wrap-around. The recursive climbs and
  descents take fuel, \<open>fuel_of\<close>, which exceeds the number of levels of every tree in its
  invariant, so that the theorems also show that they return; \<open>range_fuel\<close> exceeds the number
  of entries that a range can have.

  \<^bold>\<open>Hashing and Bloom filter\<close>. \<open>Murmur\<close> has the three functions of \<open>MurmurHash3.cpp\<close>: they read
  exactly the key, the 32-bit one equals the reference recursion over blocks. \<open>Bloom\<close> has the
  class \<open>BloomFilter\<close> of \<open>bf.hpp\<close> over the bytes of its file, with the locale \<open>bit_store\<close> for the
  bits: an inserted key is always reported. The mapped file counts as its bytes, without the
  rest of its last page; the array of hashes on the stack counts as large enough.

  \<^bold>\<open>Workloads and micro benchmark\<close>. \<open>Workload\<close> has the text that \<open>workload_gen.cc\<close> writes and what
  a driver reads of it; \<open>Micro_Bench\<close> has \<open>main\<close> and \<open>worker_thread\<close> of \<open>micro_bench.c\<close> with the table
  of offsets that they share: each thread reads its own part of it, and every access lies
  inside the file.

  \<^bold>\<open>RocksDB\<close>. \<open>Comparator\<close> (\<open>slice.h\<close>, \<open>comparator.cc\<close>; locale \<open>key_order\<close>): the separators that
  index blocks use keep the order. \<open>Coding\<close> (\<open>coding.h\<close>, \<open>coding.cc\<close>, \<open>coding_lean.h\<close>; locales \<open>codec\<close>
  and \<open>codec_pair\<close>): what is encoded is read back. \<open>Versions\<close> (\<open>version_set.cc\<close>, \<open>dbformat.h\<close>,
  \<open>version_edit.h\<close>): the files of a version, those that overlap a range of keys, those marked
  for compaction. \<open>Picker\<close> (\<open>compaction_picker.cc\<close>, \<open>compaction.cc\<close>): compactions, their ranges,
  clean cuts and conflicts. \<open>Universal\<close> (\<open>compaction_picker_universal.cc\<close>): the whole builder, with
  sizes added and multiplied modulo \<open>2 ^ 64\<close> (\<open>add64\<close>, \<open>mul64\<close>, \<open>sum64\<close> of \<open>Prelude\<close>).
  \<^item> \<open>Clean_Cut\<close>: inputs are extended to the least set of files that does not cut a user key.
  \<^item> \<open>Trivial_Move\<close>: the heap loop decides whether the inputs have pairwise disjoint ranges.
  \<^item> \<open>Sorted_Runs\<close>, \<open>Well_Formed\<close>: every picked compaction has its inputs at or above its output
    level, which exists.
  \<^item> \<open>Sound_Picks\<close>, \<open>Running\<close>: a step relation over picker and version, in whose reachable states
    the running compactions share no input and no output range; incremental compaction
    breaks this, and reads past the files of the last level under a condition on the ranges
    and sizes of the files.
  \<^item> \<open>Settling\<close>: for all options without incremental and periodic compaction, and when no file
    is marked, the compactions come to an end; the fuel of \<open>settle\<close> is one more than the
    number of sorted runs.

  \<^bold>\<open>Drivers\<close>. \<open>Mqssd\<close> (\<open>mqssd.cc\<close>, \<open>mqssd_util.cc\<close>, \<open>dbb.cc\<close>, \<open>reader.cc\<close>, and the sanitizing of the
  periodic compaction in \<open>column_family.cc\<close>): keys keep the order of their numbers, a loaded
  workload is found again by the readers, the wait for background compactions returns at
  the second quiet sample (its fuel is the number of samples taken). \<open>Tiering\<close> composes the
  driver's options with the universal picker: whatever the number of flushes, the sorted
  runs have the sizes of the tiers that a comment in \<open>mqssd.cc\<close> promises, as long as the
  products of the picker stay below \<open>2 ^ 64\<close>. The output of a compaction is there taken to
  have the size of its inputs.

  \<^bold>\<open>Not modelled\<close>. The rest of RocksDB: executing compactions and flushes, memtables, table and
  log files, caches, leveled, FIFO and manual compaction, transactions, tools and bindings;
  the drivers reach it through \<open>DB::Put\<close> and \<open>DB::Get\<close> only, which are parameters, and none of it
  was written for this repository. Its assertions, which the release build does not have.
  Of the B+ tree the debugging output \<open>bplus_tree_dump\<close> and the interactive tests. Threads,
  timers, statistics, argument parsing and messages of the drivers, and the scripts and
  plots, which are input and output.
  Comparisons that the picker makes in \<open>double\<close> are exact here.
\<close>

section \<open>Properties of the B+ tree index\<close>

text \<open>C2: inserting a key that is not in the index succeeds with 0 and adds exactly that entry.\<close>
theorem insert_adds_entry:
  assumes "bp_reps t m" "m key = None"
  shows "\<exists>t'. bplus_tree_insert t key v = Some (0, t') \<and> bp_reps t' (m(key \<mapsto> v))"
  using bp.ins_new [OF assms] .

theorem insert_adds_entry_witness:
  "\<exists>t'. bplus_tree_insert demo_tree 45 7 = Some (0, t') \<and>
        bp_reps t' ((map_of (entries demo_levels))(45 \<mapsto> 7))"
  using insert_adds_entry [OF demo_reps, of 45 7] by (simp add: demo_levels_def entries_def)

text \<open>C20: inserting a key that is in the index is rejected with -1 and changes no block of the file.\<close>
theorem insert_rejects_duplicate:
  assumes "bp_inv t ls" "map_of (entries ls) key \<noteq> None"
  shows "\<exists>t'. bplus_tree_insert t key v = Some (- 1, t') \<and> bp_inv t' ls \<and> disk t' = disk t"
  using insert_spec [OF assms(1), of key v] assms(2) by metis

theorem insert_rejects_duplicate_witness:
  "\<exists>t'. bplus_tree_insert demo_tree 40 7 = Some (- 1, t') \<and> bp_inv t' demo_levels \<and>
        disk t' = disk demo_tree"
  using insert_rejects_duplicate [OF demo_inv, of 40 7] by (simp add: demo_levels_def entries_def)

text \<open>
  C8: a lookup gives the stored datum cut to 32 bits, or -1 for a key that is not in the
  index, and changes no block of the file.
\<close>
theorem get_returns_stored:
  assumes "bp_reps t m"
  shows "\<exists>t'. bplus_tree_get t key = Some (case m key of None \<Rightarrow> - 1 | Some v \<Rightarrow> c_int v, t') \<and>
           bp_reps t' m \<and> disk t' = disk t"
  using get_reps [OF assms] .

theorem get_returns_stored_witness:
  "\<exists>t'. bplus_tree_get demo_tree 60 = Some (c_int 600, t') \<and> disk t' = disk demo_tree"
  using get_returns_stored [OF demo_reps, of 60] by (auto simp: demo_levels_def entries_def)

text \<open>
  C11: every insertion ends and keeps the invariant of the tree: blocks on disk that form
  levels linked by their siblings and parents, sorted keys separated by the keys above
  them, nodes filled within their bounds, and no block both used and free.
\<close>
theorem insert_keeps_invariant:
  assumes "bp_inv t ls"
  shows "\<exists>r t' ls'. bplus_tree_insert t key v = Some (r, t') \<and> bp_inv t' ls' \<and> (r = 0 \<or> r = - 1)"
  by (rule insert_spec [OF assms, of key v]) blast

theorem insert_keeps_invariant_witness:
  "\<exists>r t' ls'. bplus_tree_insert demo_tree 45 7 = Some (r, t') \<and> bp_inv t' ls' \<and> (r = 0 \<or> r = - 1)"
  by (rule insert_keeps_invariant [OF demo_inv])



text \<open>
  C12: closing an index and opening it again keeps its entries, when it is written to a new
  boot file and its offsets fit the \<open>int\<close> that the loader reads them through (\<open>closable\<close>). The
  block size given at the second opening does not matter, only that it is accepted.
\<close>
theorem reopen_keeps_entries:
  assumes "bp_reps t m" "closable t" "bplus_tree_deinit t None = (boot, D)"
    "length fname < 1019" "bs AND (bs - 1) = 0" "sizeof_node \<le> bs" "2 < node_capacity bs" "length mem = MIN_CACHE_NUM"
  shows "\<exists>t'. bplus_tree_init (Some boot) D mem junk fname bs = Some (Inr t') \<and> bp_reps t' m"
proof -
  obtain ls where "bp_inv t ls" "map_of (entries ls) = m" using assms(1) by (auto simp: bp_reps_def)
  then show ?thesis
    by (elim reopen [OF _ assms(2,4-8) _ assms(3), of ls junk]) (auto intro: bp_repsI)
qed

theorem reopen_keeps_entries_witness:
  "\<exists>t'. bplus_tree_init (Some (fst (bplus_tree_deinit demo_tree None))) (snd (bplus_tree_deinit demo_tree None))
      (replicate MIN_CACHE_NUM blank_node) 0 ''data.index'' 256 = Some (Inr t') \<and> bp_reps t' (map_of (entries demo_levels))"
  by (rule reopen_keeps_entries [OF demo_reps])
    (simp_all add: closable_def demo_tree_def node_capacity_def sizeof_node_def c_int_def)

text \<open>
  C29: an offset written to the boot file as sixteen hexadecimal digits is read back, for
  every 64-bit offset, and reading leaves the rest of the file.
\<close>
theorem offset_text_roundtrip:
  assumes "- (2 ^ 63) \<le> x" "x < 2 ^ 63"
  shows "offset_load (offset_store [] x @ s) = Some (x, s)"
  using c_off_id [OF assms] by (simp add: offset_store_def)

theorem offset_text_roundtrip_witness:
  "offset_load (offset_store [] (- 5) @ ''rest'') = Some (- 5, ''rest'')"
  by (rule offset_text_roundtrip) simp_all

text \<open>
  C30: an accepted block size gives nodes of order at least 7 whose entries fit in a block
  behind the header of 40 bytes.
\<close>
theorem geometry_fits:
  assumes "bplus_tree_init None D mem junk fname bs = Some (Inr t)" "bs < 2 ^ 31"
  shows "7 \<le> max_order t \<and> max_entries t = max_order t \<and> block_size t = bs \<and> sizeof_node + 12 * max_order t \<le> bs"
proof -
  from assms(1) have ok: "bs AND (bs - 1) = 0" "sizeof_node \<le> bs" "2 < node_capacity bs"
    and t: "max_order t = node_capacity bs" "max_entries t = node_capacity bs" "block_size t = bs"
    by (auto simp: bplus_tree_init_def load_boot_def split: if_splits)
  have "12 * ((bs - 40) div 12) \<le> bs - 40" by simp
  then show ?thesis using block_size_ok [OF ok assms(2)] t by (simp add: sizeof_node_def)
qed

theorem geometry_fits_witness:
  "7 \<le> max_order (projr (the (bplus_tree_init None Map.empty [] 0 ''i'' 4096)))"
  using geometry_fits [of Map.empty "[]" 0 "''i''" 4096 "projr (the (bplus_tree_init None Map.empty [] 0 ''i'' 4096))"]
  by (simp add: bplus_tree_init_def load_boot_def node_capacity_def sizeof_node_def c_int_def)

text \<open>
  C32: a range query between two keys, in either order, of which the smaller one is in the
  index gives the datum of the largest key of the index in the range, and changes nothing
  but the cache.
\<close>
theorem range_from_stored_key:
  assumes "bp_reps t m" "min k1 k2 \<in> dom m"
  shows "\<exists>v cs. bplus_tree_get_range t k1 k2 = Some (v, t\<lparr>caches := cs\<rparr>) \<and>
    m (Max {k \<in> dom m. min k1 k2 \<le> k \<and> k \<le> max k1 k2}) = Some v"
proof -
  obtain ls where "bp_inv t ls" "map_of (entries ls) = m" using assms(1) by (auto simp: bp_reps_def)
  then show ?thesis using range_stored [of t ls k1 k2] assms(2) by simp
qed

theorem range_from_stored_key_witness:
  "map_option fst (bplus_tree_get_range demo_tree 75 20) = Some 700"
proof -
  have k: "{k \<in> dom (map_of (entries demo_levels)). min 75 20 \<le> k \<and> k \<le> max 75 20} = {20, 30, 40, 50, 60, 70}"
    by (auto simp: demo_levels_def entries_def split: if_splits)
  show ?thesis
    using range_from_stored_key [OF demo_reps, of 75 20] unfolding k by (auto simp: demo_levels_def entries_def)
qed

text \<open>
  C37: a range query whose lower key lies behind all keys of its leaf skips as many entries
  of the next leaf as the first one has. Let the next leaf have more entries, and let the
  upper key lie between its first key and the first key that is not skipped: then the
  query gives -1, although the first key of that leaf is in the index and in the range.
\<close>
theorem range_skips_leaf_start:
  assumes "bp_inv t (L # up)" "covers L (bnds up) lo A n (n' # B) b1 b2" "\<forall>k\<in>set (lkeys n). k < lo"
    "length (lkeys n) < length (lkeys n')" "hd (lkeys n') \<le> hi" "hi < lkeys n' ! length (lkeys n)" "lo \<le> hi"
  shows "(\<exists>cs. bplus_tree_get_range t lo hi = Some (- 1, t\<lparr>caches := cs\<rparr>)) \<and>
    hd (lkeys n') \<in> {k \<in> dom (map_of (entries (L # up))). lo \<le> k \<and> k \<le> hi}"
proof -
  have "lkeys n' \<noteq> []" using assms(4) by auto
  then show ?thesis using range_skips [OF assms(1-4,7,6)] next_leaf_stored [OF assms(1,2)] assms(5) by simp
qed

theorem range_skips_leaf_start_witness:
  "map_option fst (bplus_tree_get_range range_tree 45 85) = Some (- 1) \<and>
   map_of (entries [[range_leaf1, range_leaf2], [LN 256 [50] [0, 128] []]]) 50 = Some 500"
  using range_skips_leaf_start [OF range_tree_inv, of 45 "[]" range_leaf1 range_leaf2 "[]" "[]" "[50]" 85]
  by (auto simp: covers_def entries_def)



end
